(* ===== verification/Prelude.thy ===== *)
theory Prelude
  imports Main "HOL-Library.Word" "HOL-Library.Char_ord" "HOL-Library.List_Lexorder"
    "HOL-Library.Monad_Syntax" "HOL-Library.Code_Target_Nat"
begin

text \<open>
  Shared vocabulary of the development: the parts of the C++ standard library that the
  sources of config-db use (\<open>std::string_view::find\<close> and \<open>substr\<close> with their 64-bit
  positions, \<open>std::to_string\<close>, \<open>std::from_chars\<close>, \<open>std::strtol\<close>), the byte order that
  RocksDB keys are stored in, and generic lemmas about them.  A C++ call that does not
  return normally (an exception, or undefined behaviour such as a null dereference) is the
  value \<^term>\<open>None\<close> of an option type throughout the development.
\<close>

named_theorems sv_simps \<open>string-view operations\<close>
named_theorems num_simps \<open>decimal printing and parsing\<close>
named_theorems op_defs \<open>definitions of database operations\<close>

type_synonym bytes = string

section \<open>Positions in a string view\<close>

text \<open>\<open>std::size_t\<close> is 64 bits wide: positions wrap around, and \<open>npos\<close> is the largest one.\<close>

definition npos :: nat where
  "npos = 2 ^ 64 - 1"

definition sz_add :: "nat \<Rightarrow> nat \<Rightarrow> nat" where
  "sz_add a b = (a + b) mod 2 ^ 64"

definition sz_sub :: "nat \<Rightarrow> nat \<Rightarrow> nat" where
  "sz_sub a b = nat ((int a - int b) mod 2 ^ 64)"

lemma npos_val [sv_simps]: "npos = 18446744073709551615"
  by (simp add: npos_def)

lemma sz_add_small [sv_simps]: "a + b \<le> npos \<Longrightarrow> sz_add a b = a + b"
  by (simp add: sz_add_def npos_def)

lemma sz_sub_small [sv_simps]: "b \<le> a \<Longrightarrow> a \<le> npos \<Longrightarrow> sz_sub a b = a - b"
  by (simp add: sz_sub_def npos_def)

text \<open>The wrap-around that ends the loops of the sources: \<open>npos + 1 = 0\<close>.\<close>

lemma sz_add_npos [sv_simps]: "sz_add npos 1 = 0"
  by (simp add: sz_add_def npos_def)

lemma sz_sub_npos [sv_simps]: "sz_sub (sz_sub 0 npos) 1 = 0"
  by (simp add: sz_sub_def npos_def)

text \<open>Position of the first occurrence of a character.\<close>

fun index_of :: "'a \<Rightarrow> 'a list \<Rightarrow> nat option" where
  "index_of c [] = None"
| "index_of c (x # xs) = (if x = c then Some 0 else map_option Suc (index_of c xs))"

lemma index_of_None [simp]: "index_of c xs = None \<longleftrightarrow> c \<notin> set xs"
  by (induction xs) auto

lemma index_of_Some_less: "index_of c xs = Some i \<Longrightarrow> i < length xs"
  by (induction xs arbitrary: i) (auto split: if_splits)

lemma index_of_Some_nth: "index_of c xs = Some i \<Longrightarrow> xs ! i = c"
  by (induction xs arbitrary: i) (auto split: if_splits)

lemma index_of_append_notin: "c \<notin> set xs \<Longrightarrow> index_of c (xs @ c # ys) = Some (length xs)"
  by (induction xs) auto

text \<open>\<open>s.find(c, pos)\<close>: the position of the first \<open>c\<close> at or after \<open>pos\<close>, or \<open>npos\<close>.\<close>

definition sv_find :: "'a list \<Rightarrow> 'a \<Rightarrow> nat \<Rightarrow> nat" where
  "sv_find s c pos = (case index_of c (drop pos s) of None \<Rightarrow> npos | Some i \<Rightarrow> pos + i)"

text \<open>\<open>s.substr(pos, n)\<close>: throws \<open>std::out_of_range\<close> when \<open>pos\<close> is past the end.\<close>

definition sv_substr :: "'a list \<Rightarrow> nat \<Rightarrow> nat \<Rightarrow> 'a list option" where
  "sv_substr s pos n = (if pos \<le> length s then Some (take n (drop pos s)) else None)"

lemma sv_find_bounds:
  assumes "sv_find s c pos = i" and "i \<noteq> npos"
  shows "pos \<le> i \<and> i < length s"
  using assms by (auto simp: sv_find_def split: option.splits dest!: index_of_Some_less)

lemma sv_find_le: "length s \<le> npos \<Longrightarrow> sv_find s c pos \<le> npos"
  by (auto simp: sv_find_def split: option.splits dest!: index_of_Some_less)

lemma sv_find_notin [sv_simps]: "c \<notin> set (drop pos s) \<Longrightarrow> sv_find s c pos = npos"
  by (simp add: sv_find_def index_of_None [THEN iffD2])

lemma sv_find_append [sv_simps]:
  "c \<notin> set m \<Longrightarrow> sv_find (p @ m @ c # r) c (length p) = length p + length m"
  by (simp add: sv_find_def index_of_append_notin)

section \<open>Decimal numbers\<close>

definition digit_char :: "nat \<Rightarrow> char" where
  "digit_char d = char_of (48 + d)"

definition is_digit :: "char \<Rightarrow> bool" where
  "is_digit c \<longleftrightarrow> 48 \<le> (of_char c :: nat) \<and> (of_char c :: nat) \<le> 57"

definition digit_val :: "char \<Rightarrow> nat" where
  "digit_val c = of_char c - 48"

text \<open>\<open>std::to_string\<close> of an unsigned and of a signed number.\<close>

fun nat_to_string :: "nat \<Rightarrow> string" where
  "nat_to_string n = (if n < 10 then [digit_char n]
     else nat_to_string (n div 10) @ [digit_char (n mod 10)])"

declare nat_to_string.simps [simp del]

definition int_to_string :: "int \<Rightarrow> string" where
  "int_to_string i = (if i < 0 then CHR ''-'' # nat_to_string (nat (- i)) else nat_to_string (nat i))"

definition digits_val :: "string \<Rightarrow> nat" where
  "digits_val ds = foldl (\<lambda>n c. 10 * n + digit_val c) 0 ds"

text \<open>
  \<open>std::from_chars\<close> for an unsigned integer of \<open>w\<close> bits: the longest prefix of digits, an
  error (\<^term>\<open>None\<close>) when there is none or when the number does not fit.
\<close>

definition from_chars_unsigned :: "nat \<Rightarrow> string \<Rightarrow> nat option" where
  "from_chars_unsigned w s =
     (let ds = takeWhile is_digit s
      in if ds = [] then None
         else if digits_val ds < 2 ^ w then Some (digits_val ds) else None)"

lemma of_char_digit_char [num_simps]: "d < 10 \<Longrightarrow> (of_char (digit_char d) :: nat) = 48 + d"
  by (simp add: digit_char_def)

lemma is_digit_digit_char [num_simps]: "d < 10 \<Longrightarrow> is_digit (digit_char d)"
  by (simp add: is_digit_def num_simps)

lemma digit_val_digit_char [num_simps]: "d < 10 \<Longrightarrow> digit_val (digit_char d) = d"
  by (simp add: digit_val_def num_simps)

lemma nat_to_string_digits: "\<forall>c \<in> set (nat_to_string n). is_digit c"
proof (induction n rule: nat_to_string.induct)
  case (1 n)
  then show ?case
    by (cases "n < 10") (auto simp: nat_to_string.simps [of n] num_simps)
qed

lemma nat_to_string_nonempty [simp]: "nat_to_string n \<noteq> []"
  by (simp add: nat_to_string.simps [of n])

lemma digits_val_snoc [num_simps]: "digits_val (ds @ [c]) = 10 * digits_val ds + digit_val c"
  by (simp add: digits_val_def)

lemma digits_val_nat_to_string [num_simps]: "digits_val (nat_to_string n) = n"
proof (induction n rule: nat_to_string.induct)
  case (1 n)
  show ?case
  proof (cases "n < 10")
    case True
    then show ?thesis
      by (simp add: nat_to_string.simps [of n] digits_val_def num_simps)
  next
    case False
    with 1 show ?thesis
      by (simp add: nat_to_string.simps [of n] num_simps)
  qed
qed

text \<open>Parsing what was printed gives the number back.\<close>

lemma from_chars_to_string [num_simps]:
  "n < 2 ^ w \<Longrightarrow> from_chars_unsigned w (nat_to_string n) = Some n"
  by (simp add: from_chars_unsigned_def takeWhile_eq_all_conv [THEN iffD2]
      nat_to_string_digits num_simps)

subsection \<open>Decimal numbers of one length are ordered like their digits\<close>

lemma digits_val_Cons:
  "digits_val (c # ds) = digit_val c * 10 ^ length ds + digits_val ds"
proof (induction ds rule: rev_induct)
  case Nil
  then show ?case by (simp add: digits_val_def)
next
  case (snoc d ds)
  have "digits_val (c # ds @ [d]) = 10 * digits_val (c # ds) + digit_val d"
    using digits_val_snoc [of "c # ds" d] by simp
  with snoc show ?case by (simp add: digits_val_snoc algebra_simps)
qed

lemma digit_val_less_10: "is_digit c \<Longrightarrow> digit_val c < 10"
  by (auto simp: is_digit_def digit_val_def)

lemma digits_val_bound:
  "\<forall>c \<in> set ds. is_digit c \<Longrightarrow> digits_val ds < 10 ^ length ds"
proof (induction ds)
  case Nil
  then show ?case by (simp add: digits_val_def)
next
  case (Cons c ds)
  then have "digit_val c \<le> 9" and "digits_val ds < 10 ^ length ds"
    using digit_val_less_10 [of c] by auto
  then have "digit_val c * 10 ^ length ds + digits_val ds < 9 * 10 ^ length ds + 10 ^ length ds"
    by (intro add_le_less_mono mult_right_mono) auto
  then show ?case by (simp add: digits_val_Cons)
qed

lemma digit_val_less_iff:
  "is_digit c \<Longrightarrow> is_digit d \<Longrightarrow> digit_val c < digit_val d \<longleftrightarrow> c < d"
  by (auto simp: is_digit_def digit_val_def less_char_def)

lemma digit_val_inject:
  assumes "is_digit c" and "is_digit d" and "digit_val c = digit_val d"
  shows "c = d"
proof -
  from assms have "(of_char c :: nat) = of_char d"
    unfolding is_digit_def digit_val_def by linarith
  then show ?thesis by simp
qed

lemma digits_val_less_iff:
  assumes "length ds = length es" and "\<forall>c \<in> set ds. is_digit c" and "\<forall>c \<in> set es. is_digit c"
  shows "digits_val ds < digits_val es \<longleftrightarrow> ds < es"
  using assms
proof (induction ds es rule: list_induct2)
  case Nil
  then show ?case by simp
next
  case (Cons c ds d es)
  have bd: "digits_val ds < 10 ^ length ds" and be: "digits_val es < 10 ^ length ds"
    using Cons digits_val_bound [of ds] digits_val_bound [of es] by auto
  consider "c = d" | "digit_val c < digit_val d" | "digit_val d < digit_val c"
    using digit_val_inject Cons.prems by (metis list.set_intros(1) linorder_neqE_nat)
  then show ?case
  proof cases
    case 1
    with Cons show ?thesis by (simp add: digits_val_Cons)
  next
    case 2
    then have "Suc (digit_val c) * 10 ^ length ds \<le> digit_val d * 10 ^ length ds"
      by (intro mult_right_mono) auto
    with bd have "digits_val (c # ds) < digits_val (d # es)"
      using Cons.hyps by (simp add: digits_val_Cons)
    moreover have "c < d" using 2 Cons.prems digit_val_less_iff by auto
    ultimately show ?thesis by simp
  next
    case 3
    then have "Suc (digit_val d) * 10 ^ length ds \<le> digit_val c * 10 ^ length ds"
      by (intro mult_right_mono) auto
    with be have "digits_val (d # es) < digits_val (c # ds)"
      using Cons.hyps by (simp add: digits_val_Cons)
    moreover have "d < c" using 3 Cons.prems digit_val_less_iff by auto
    ultimately show ?thesis by auto
  qed
qed

text \<open>Two timestamps printed with the same number of digits compare like the timestamps.\<close>

lemma nat_to_string_less_iff:
  "length (nat_to_string m) = length (nat_to_string n) \<Longrightarrow>
   nat_to_string m < nat_to_string n \<longleftrightarrow> m < n"
  using digits_val_less_iff [of "nat_to_string m" "nat_to_string n"]
  by (simp add: nat_to_string_digits num_simps)


lemma nat_to_string_length:
  "10 ^ k \<le> n \<Longrightarrow> n < 10 ^ Suc k \<Longrightarrow> length (nat_to_string n) = Suc k"
proof (induction k arbitrary: n)
  case 0
  then show ?case by (simp add: nat_to_string.simps [of n])
next
  case (Suc k)
  have "10 ^ k \<le> n div 10" "n div 10 < 10 ^ Suc k" using Suc.prems by auto
  moreover have "(1 :: nat) \<le> 10 ^ k" by simp
  then have "\<not> n < 10" using Suc.prems(1) unfolding power_Suc by linarith
  ultimately show ?case using Suc.IH [of "n div 10"] by (subst nat_to_string.simps) simp
qed


lemma nat_to_string_short: "n < 10 ^ Suc k \<Longrightarrow> length (nat_to_string n) \<le> Suc k"
proof (induction k arbitrary: n)
  case 0
  then show ?case by (simp add: nat_to_string.simps [of n])
next
  case (Suc k)
  then have "n div 10 < 10 ^ Suc k" by auto
  from Suc.IH [OF this] show ?case by (subst nat_to_string.simps) simp
qed

section \<open>Counting threads\<close>

lemma length_filter_update:
  "i < length xs \<Longrightarrow> length (filter P (xs[i := x])) + (if P (xs ! i) then 1 else 0) =
   length (filter P xs) + (if P x then 1 else 0)"
proof (induction xs arbitrary: i)
  case (Cons y ys)
  then show ?case by (cases i) force+
qed simp

text \<open>When at most one element satisfies a predicate, the others do not.\<close>

lemma filter_one_others:
  assumes "length (filter P xs) \<le> 1" and "i < length xs" and "P (xs ! i)" and "x \<in> set (xs[i := y])"
  shows "x = y \<or> x \<in> set xs \<and> \<not> P x"
proof -
  have "xs = take i xs @ xs ! i # drop (Suc i) xs" using assms(2) by (rule id_take_nth_drop)
  then have "filter P xs = filter P (take i xs) @ xs ! i # filter P (drop (Suc i) xs)"
    using assms(3) by (metis filter.simps(2) filter_append)
  then have "filter P (take i xs) = []" "filter P (drop (Suc i) xs) = []" using assms(1) by simp_all
  with assms(2,4) show ?thesis
    by (auto simp: upd_conv_take_nth_drop filter_empty_conv dest: in_set_takeD in_set_dropD)
qed

end
