(* ===== verification/Split.thy ===== *)
theory Split
  imports Prelude
begin

text \<open>
  The tokenizer of \<open>src/common/util/split.hpp\<close>, used by the service to read its list of
  peers.  The iterator \<open>first\<close> of the source is the suffix of the text that starts there.
\<close>

definition is_delim :: "string \<Rightarrow> char \<Rightarrow> bool" where
  "is_delim delims c \<longleftrightarrow> c \<in> set delims"

lemma rest_shorter:
  "dropWhile P xs = d # ds \<Longrightarrow> length ds < length xs"
  by (metis Suc_le_lessD length_Cons length_dropWhile_le)

function split_loop :: "string \<Rightarrow> string \<Rightarrow> string list" where
  "split_loop delims s =
     (if s = [] then []
      else let token = takeWhile (\<lambda>c. \<not> is_delim delims c) s;
               second = dropWhile (\<lambda>c. \<not> is_delim delims c) s
           in (if token \<noteq> [] then [token] else []) @
              (case second of [] \<Rightarrow> [] | _ # rest \<Rightarrow> split_loop delims rest))"
  by pat_completeness auto
termination
  by (relation "measure (\<lambda>(delims, s). length s)") (auto dest!: sym [THEN rest_shorter])

declare split_loop.simps [simp del]

definition split :: "string \<Rightarrow> string \<Rightarrow> string list" where
  "split csv delims = split_loop delims csv"

lemma split_loop_last:
  assumes "dropWhile (\<lambda>c. \<not> is_delim delims c) s = []"
  shows "split_loop delims s = (if s = [] then [] else [s])"
proof -
  from assms have "takeWhile (\<lambda>c. \<not> is_delim delims c) s = s"
    by (metis append_Nil2 takeWhile_dropWhile_id)
  with assms show ?thesis
    by (subst split_loop.simps) (simp del: dropWhile_eq_Nil_conv takeWhile_eq_all_conv)
qed

lemma split_loop_more:
  assumes "dropWhile (\<lambda>c. \<not> is_delim delims c) s = d # rest"
  shows "split_loop delims s =
    (let token = takeWhile (\<lambda>c. \<not> is_delim delims c) s
     in if token \<noteq> [] then token # split_loop delims rest else split_loop delims rest)"
proof -
  from assms have "s \<noteq> []" by auto
  with assms show ?thesis by (subst split_loop.simps) (simp add: Let_def)
qed

text \<open>Every token is non-empty and free of delimiters.\<close>

lemma split_loop_tokens:
  "t \<in> set (split_loop delims s) \<Longrightarrow> t \<noteq> [] \<and> (\<forall>c \<in> set t. \<not> is_delim delims c)"
proof (induction delims s rule: split_loop.induct)
  case (1 delims s)
  show ?case
  proof (cases "dropWhile (\<lambda>c. \<not> is_delim delims c) s")
    case Nil
    with "1.prems" show ?thesis by (auto simp: split_loop_last split: if_splits)
  next
    case (Cons d rest)
    then have ne: "s \<noteq> []" by auto
    show ?thesis
      using "1.prems" "1.IH" [OF ne refl refl Cons]
      by (auto simp: split_loop_more [OF Cons] Let_def dest: set_takeWhileD split: if_splits)
  qed
qed

text \<open>No character other than a delimiter is lost, and the order is kept.\<close>

lemma split_loop_concat:
  "concat (split_loop delims s) = filter (\<lambda>c. \<not> is_delim delims c) s"
proof (induction delims s rule: split_loop.induct)
  case (1 delims s)
  let ?P = "\<lambda>c. \<not> is_delim delims c"
  have tok: "filter ?P (takeWhile ?P s) = takeWhile ?P s"
    by (rule filter_True) (auto dest: set_takeWhileD)
  have parts: "filter ?P s = takeWhile ?P s @ filter ?P (dropWhile ?P s)"
    by (metis filter_append takeWhile_dropWhile_id tok)
  show ?case
  proof (cases "dropWhile ?P s")
    case Nil
    then show ?thesis by (auto simp: split_loop_last)
  next
    case (Cons d rest)
    then have "is_delim delims d" by (metis hd_dropWhile list.distinct(1) list.sel(1))
    moreover have ne: "s \<noteq> []" using Cons by auto
    ultimately show ?thesis
      using "1.IH" [OF ne refl refl Cons] Cons parts
      by (simp add: split_loop_more [OF Cons] Let_def)
  qed
qed

text \<open>Splitting tokens joined by a delimiter gives the tokens back.\<close>

fun join_with :: "char \<Rightarrow> string list \<Rightarrow> string" where
  "join_with d [] = []"
| "join_with d [t] = t"
| "join_with d (t # ts) = t @ d # join_with d ts"

lemma split_loop_token_end:
  "t \<noteq> [] \<Longrightarrow> \<forall>c \<in> set t. \<not> is_delim delims c \<Longrightarrow> split_loop delims t = [t]"
  by (simp add: split_loop.simps [of delims t] takeWhile_eq_all_conv [THEN iffD2]
      dropWhile_eq_Nil_conv [THEN iffD2])

lemma split_loop_token:
  assumes "t \<noteq> []" and "\<forall>c \<in> set t. \<not> is_delim delims c" and "is_delim delims d"
  shows "split_loop delims (t @ d # rest) = t # split_loop delims rest"
proof -
  have "takeWhile (\<lambda>c. \<not> is_delim delims c) (t @ d # rest) = t"
    using assms by (simp add: takeWhile_append2)
  moreover have "dropWhile (\<lambda>c. \<not> is_delim delims c) (t @ d # rest) = d # rest"
    using assms by (simp add: dropWhile_append3 dropWhile_append2)
  ultimately show ?thesis
    using assms by (simp add: split_loop.simps [of delims "t @ d # rest"])
qed

lemma split_join:
  assumes "\<forall>t \<in> set ts. t \<noteq> [] \<and> d \<notin> set t"
  shows "split (join_with d ts) [d] = ts"
  using assms
proof (induction d ts rule: join_with.induct)
  case (1 d)
  then show ?case by (simp add: split_def split_loop.simps [of "[d]" "[]"])
next
  case (2 d t)
  then show ?case by (auto simp: split_def is_delim_def intro: split_loop_token_end)
next
  case (3 d t u ts)
  then have "split_loop [d] (t @ d # join_with d (u # ts)) = t # split_loop [d] (join_with d (u # ts))"
    by (intro split_loop_token) (auto simp: is_delim_def)
  with 3 show ?case by (simp add: split_def)
qed

end
