(* ===== verification/Messages.thy ===== *)
theory Messages
  imports Prelude
begin

text \<open>
  The data exchanged between the parts of the program: the request structures of
  \<open>src/common/model/request.hpp\<close> and the tables of \<open>request.fbs\<close>, \<open>response.fbs\<close> and
  \<open>tree.fbs\<close>.  A field that the flatbuffers schema lets be absent (a table or a vector that
  is a null pointer in C++) is an option.
\<close>

type_synonym u32 = "32 word"
type_synonym u64 = "64 word"

section \<open>Request data of the storage and of the client interface\<close>

record Options =
  expirationInSeconds :: u32
  ifNotExists :: bool
  cacheEntry :: bool

definition Options_default :: Options where
  "Options_default = \<lparr>expirationInSeconds = 0, ifNotExists = False, cacheEntry = False\<rparr>"

definition Options_ifNotExists :: "bool \<Rightarrow> Options" where
  "Options_ifNotExists b = Options_default\<lparr>ifNotExists := b\<rparr>"

definition Options_expiration :: "u32 \<Rightarrow> Options" where
  "Options_expiration e = Options_default\<lparr>expirationInSeconds := e\<rparr>"

definition Options_all :: "u32 \<Rightarrow> bool \<Rightarrow> bool \<Rightarrow> Options" where
  "Options_all e b c = \<lparr>expirationInSeconds = e, ifNotExists = b, cacheEntry = c\<rparr>"

text \<open>The constructor from \<open>std::chrono::seconds\<close> casts the count to 32 bits.\<close>

definition Options_seconds :: "int \<Rightarrow> bool \<Rightarrow> bool \<Rightarrow> Options" where
  "Options_seconds s b c = Options_all (word_of_int s) b c"

record RequestData =
  rd_options :: Options
  rd_key :: string
  rd_value :: string

definition RequestData_kv :: "string \<Rightarrow> string \<Rightarrow> RequestData" where
  "RequestData_kv k v = \<lparr>rd_options = Options_default, rd_key = k, rd_value = v\<rparr>"

definition RequestData_opts :: "string \<Rightarrow> string \<Rightarrow> Options \<Rightarrow> RequestData" where
  "RequestData_opts k v opts = \<lparr>rd_options = opts, rd_key = k, rd_value = v\<rparr>"

section \<open>Tables of the wire format\<close>

datatype Action = Get | Put | Delete | List | Move | TTL

record OptionsTable =
  if_not_exists :: bool
  expiration_in_seconds :: u32
  cache :: bool

record KeyValueTable =
  kv_key :: "string option"
  kv_value :: "string option"
  kv_options :: "OptionsTable option"

record Request =
  req_action :: Action
  req_data :: "KeyValueTable list option"

datatype ValueVariant = NoValue | Value string | Children "string list" | Success bool

record KeyValueResult =
  kvr_key :: string
  kvr_value :: ValueVariant

datatype ResultVariant = NoResult | KeyValueResults "KeyValueResult list" | SuccessResult bool

text \<open>\<open>CreateOptions\<close>, with the schema defaults for the arguments a caller leaves out.\<close>

definition CreateOptions :: "bool \<Rightarrow> u32 \<Rightarrow> bool \<Rightarrow> OptionsTable" where
  "CreateOptions ine e c = \<lparr>if_not_exists = ine, expiration_in_seconds = e, cache = c\<rparr>"

definition CreateKeyValue :: "string \<Rightarrow> string option \<Rightarrow> OptionsTable option \<Rightarrow> KeyValueTable" where
  "CreateKeyValue k v opts = \<lparr>kv_key = Some k, kv_value = v, kv_options = opts\<rparr>"

definition CreateRequest :: "Action \<Rightarrow> KeyValueTable list \<Rightarrow> Request" where
  "CreateRequest a kvs = \<lparr>req_action = a, req_data = Some kvs\<rparr>"

definition CreateKeyValueResult :: "string \<Rightarrow> ValueVariant \<Rightarrow> KeyValueResult" where
  "CreateKeyValueResult k v = \<lparr>kvr_key = k, kvr_value = v\<rparr>"

end
