(* ===== verification/Configuration.thy ===== *)
theory Configuration
  imports Split Messages
begin

text \<open>
  The service configuration: the structures and defaults of
  \<open>src/common/model/configuration.hpp\<close> (built for a platform other than Apple), the
  constructor that reads the environment, \<open>loadFromFile\<close>, the holder of the current
  configuration (\<open>configuration.cpp\<close>), and the part of \<open>loadConfig\<close> of
  \<open>src/service/main.cpp\<close> that follows the parsing of the command line.  The process
  environment is a function \<open>env\<close>, a file system is a function from names to contents, and
  the parser of \<open>boost::json\<close> is a parameter: only the kind of a value, which the accessors
  check, is modelled.
\<close>

section \<open>Structures and defaults\<close>

record Encryption =
  salt :: string
  enc_key :: string
  iv :: string
  secret :: string
  rounds :: int

record Logging =
  level :: string
  dir :: string
  console :: bool

record SSL =
  caCertificate :: string
  certificate :: string
  ssl_key :: string
  ssl_enable :: bool

record Services =
  http :: string
  tcp :: int
  notify_port :: int

record Peer =
  host :: string
  port :: int

record Storage =
  dbpath :: string
  backupPath :: string
  blockCacheSizeMb :: u64
  cleanExpiredKeysInterval :: u32
  encrypterInitialPoolSize :: u32
  maxBackups :: u32
  useMutex :: bool

record Configuration =
  encryption :: Encryption
  logging :: Logging
  ssl :: SSL
  services :: Services
  storage :: Storage
  peers :: "Peer list"
  threads :: u32
  enableCache :: bool

definition Encryption_default :: Encryption where
  "Encryption_default = \<lparr>salt = ''jJ1LFPN2kl8P34saLd4rGe/UWncig04'',
     enc_key = ''mQtFU2PCvbqFhoM4XnB8yQMDETnSUaW'', iv = ''Mr+xbc4TRKDrnCCrzE4t/7+ORrCfs6i'',
     secret = ''TpSBvWY35C1sqURL9JCy6sKRtScKvCPTTQUZUE/vrfQ='', rounds = 1000000\<rparr>"

definition Logging_default :: Logging where
  "Logging_default = \<lparr>level = ''info'', dir = ''logs/'', console = False\<rparr>"

definition SSL_default :: SSL where
  "SSL_default = \<lparr>caCertificate = ''/opt/spt/certs/ca.crt'',
     certificate = ''/opt/spt/certs/server.crt'', ssl_key = ''/opt/spt/certs/server.key'',
     ssl_enable = False\<rparr>"

definition Services_default :: Services where
  "Services_default = \<lparr>http = ''6020'', tcp = 2020, notify_port = 2120\<rparr>"

definition Peer_default :: Peer where
  "Peer_default = \<lparr>host = '''', port = 0\<rparr>"

definition Storage_default :: Storage where
  "Storage_default = \<lparr>dbpath = ''/opt/spt/data/config-db'',
     backupPath = ''/opt/spt/data/config-db/backup'', blockCacheSizeMb = 8,
     cleanExpiredKeysInterval = 1, encrypterInitialPoolSize = 5, maxBackups = 5,
     useMutex = True\<rparr>"

text \<open>The member initialisers; \<open>threads\<close> starts as the number of hardware threads.\<close>

definition Configuration_init :: "u32 \<Rightarrow> Configuration" where
  "Configuration_init hw = \<lparr>encryption = Encryption_default, logging = Logging_default,
     ssl = SSL_default, services = Services_default, storage = Storage_default, peers = [],
     threads = hw, enableCache = False\<rparr>"

section \<open>The environment\<close>

text \<open>\<open>std::strtol\<close> in base 10 (\<open>long\<close> and \<open>long long\<close> have 64 bits): white space, a sign,
  digits; 0 without digits, and the nearest limit when the number is out of range.\<close>

definition is_space :: "char \<Rightarrow> bool" where
  "is_space c \<longleftrightarrow> c = CHR '' '' \<or> (9 \<le> (of_char c :: nat) \<and> (of_char c :: nat) \<le> 13)"

definition strtol :: "string \<Rightarrow> int" where
  "strtol s =
     (let s1 = dropWhile is_space s;
          neg = (s1 \<noteq> [] \<and> hd s1 = CHR ''-'');
          s2 = (if s1 \<noteq> [] \<and> (hd s1 = CHR ''-'' \<or> hd s1 = CHR ''+'') then tl s1 else s1);
          v = int (digits_val (takeWhile is_digit s2));
          r = (if neg then - v else v)
      in max (- (2 ^ 63)) (min (2 ^ 63 - 1) r))"

text \<open>\<open>static_cast\<close> to \<open>int\<close>.\<close>

definition to_int32 :: "int \<Rightarrow> int" where
  "to_int32 i = sint (word_of_int i :: 32 word)"

lemma to_int32_small: "0 \<le> n \<Longrightarrow> n < 2 ^ 31 \<Longrightarrow> to_int32 n = n"
  unfolding to_int32_def sint_sbintrunc' by (rule signed_take_bit_int_eq_self) auto

type_synonym env = "string \<Rightarrow> string option"

definition with_env :: "env \<Rightarrow> string \<Rightarrow> (string \<Rightarrow> 'a \<Rightarrow> 'a) \<Rightarrow> 'a \<Rightarrow> 'a" where
  "with_env e name f c = (case e name of None \<Rightarrow> c | Some v \<Rightarrow> f v c)"

definition env_encryption :: "env \<Rightarrow> Encryption \<Rightarrow> Encryption" where
  "env_encryption e =
     with_env e ''CONFIG_DB_ENCRYPTION_ROUNDS'' (\<lambda>v c. c\<lparr>rounds := to_int32 (strtol v)\<rparr>) \<circ>
     with_env e ''CONFIG_DB_ENCRYPTION_SECRET'' (\<lambda>v c. c\<lparr>secret := v\<rparr>) \<circ>
     with_env e ''CONFIG_DB_ENCRYPTION_IV'' (\<lambda>v c. c\<lparr>iv := v\<rparr>) \<circ>
     with_env e ''CONFIG_DB_ENCRYPTION_KEY'' (\<lambda>v c. c\<lparr>enc_key := v\<rparr>) \<circ>
     with_env e ''CONFIG_DB_ENCRYPTION_SALT'' (\<lambda>v c. c\<lparr>salt := v\<rparr>)"

text \<open>The source assigns the value of \<open>CONFIG_DB_LOGGING_DIR\<close> to the field \<open>level\<close>.\<close>

definition env_logging :: "env \<Rightarrow> Logging \<Rightarrow> Logging" where
  "env_logging e =
     with_env e ''CONFIG_DB_LOGGING_CONSOLE'' (\<lambda>v c. c\<lparr>console := (v = ''true'')\<rparr>) \<circ>
     with_env e ''CONFIG_DB_LOGGING_DIR'' (\<lambda>v c. c\<lparr>level := v\<rparr>) \<circ>
     with_env e ''CONFIG_DB_LOGGING_LEVEL''
       (\<lambda>v c. if v = ''debug'' \<or> v = ''info'' \<or> v = ''warn'' \<or> v = ''critical''
              then c\<lparr>level := v\<rparr> else c)"

definition env_services :: "env \<Rightarrow> Services \<Rightarrow> Services" where
  "env_services e =
     with_env e ''CONFIG_DB_SERVICES_NOTIFY'' (\<lambda>v c. c\<lparr>notify_port := to_int32 (strtol v)\<rparr>) \<circ>
     with_env e ''CONFIG_DB_SERVICES_TCP'' (\<lambda>v c. c\<lparr>tcp := to_int32 (strtol v)\<rparr>) \<circ>
     with_env e ''CONFIG_DB_SERVICES_HTTP'' (\<lambda>v c. c\<lparr>http := v\<rparr>)"

text \<open>
  The two blocks of the source for peer number \<open>n\<close>: the host appends a peer when exactly \<open>n\<close>
  peers exist, the port is stored in the last peer when exactly \<open>n + 1\<close> exist.
\<close>

definition peer_host_var :: "nat \<Rightarrow> string" where
  "peer_host_var n = ''CONFIG_DB_PEERS'' @ nat_to_string n @ ''_HOST''"

definition peer_port_var :: "nat \<Rightarrow> string" where
  "peer_port_var n = ''CONFIG_DB_PEERS'' @ nat_to_string n @ ''_PORT''"

definition env_peer_host :: "env \<Rightarrow> nat \<Rightarrow> Peer list \<Rightarrow> Peer list" where
  "env_peer_host e n ps =
     (case e (peer_host_var n) of
        None \<Rightarrow> ps
      | Some v \<Rightarrow> if length ps = n then ps @ [Peer_default\<lparr>host := v\<rparr>] else ps)"

definition env_peer_port :: "env \<Rightarrow> nat \<Rightarrow> Peer list \<Rightarrow> Peer list" where
  "env_peer_port e n ps =
     (case e (peer_port_var n) of
        None \<Rightarrow> ps
      | Some v \<Rightarrow> if length ps = Suc n then butlast ps @ [(last ps)\<lparr>port := to_int32 (strtol v)\<rparr>]
                  else ps)"

fun env_peers :: "env \<Rightarrow> nat list \<Rightarrow> Peer list \<Rightarrow> Peer list" where
  "env_peers e [] ps = ps"
| "env_peers e (n # ns) ps = env_peers e ns (env_peer_port e n (env_peer_host e n ps))"

definition env_storage :: "env \<Rightarrow> Storage \<Rightarrow> Storage" where
  "env_storage e =
     with_env e ''CONFIG_DB_STORAGE_USE_MUTEX'' (\<lambda>v c. c\<lparr>useMutex := (v = ''true'')\<rparr>) \<circ>
     with_env e ''CONFIG_DB_STORAGE_MAX_BACKUPS'' (\<lambda>v c. c\<lparr>maxBackups := word_of_int (strtol v)\<rparr>) \<circ>
     with_env e ''CONFIG_DB_STORAGE_ENCRYPTER_INITIAL_POOL_SIZE''
       (\<lambda>v c. c\<lparr>encrypterInitialPoolSize := word_of_int (strtol v)\<rparr>) \<circ>
     with_env e ''CONFIG_DB_STORAGE_CLEAN_EXPIRED_KEYS_INTERVAL''
       (\<lambda>v c. c\<lparr>cleanExpiredKeysInterval := word_of_int (strtol v)\<rparr>) \<circ>
     with_env e ''CONFIG_DB_STORAGE_BLOCK_CACHE_SIZE_MB''
       (\<lambda>v c. c\<lparr>blockCacheSizeMb := word_of_int (strtol v)\<rparr>) \<circ>
     with_env e ''CONFIG_DB_STORAGE_BACKUP_PATH'' (\<lambda>v c. c\<lparr>backupPath := v\<rparr>) \<circ>
     with_env e ''CONFIG_DB_STORAGE_DBPATH'' (\<lambda>v c. c\<lparr>dbpath := v\<rparr>)"

definition Configuration_new :: "env \<Rightarrow> u32 \<Rightarrow> Configuration" where
  "Configuration_new e hw =
     (let c0 = Configuration_init hw;
          c1 = with_env e ''CONFIG_DB_THREADS'' (\<lambda>v c. c\<lparr>threads := word_of_int (strtol v)\<rparr>) c0;
          c2 = with_env e ''CONFIG_DB_ENABLE_CACHE'' (\<lambda>v c. c\<lparr>enableCache := (v = ''true'')\<rparr>) c1
      in c2\<lparr>encryption := env_encryption e (encryption c2),
            logging := env_logging e (logging c2),
            services := env_services e (services c2),
            peers := env_peers e [0..<7] (peers c2),
            storage := env_storage e (storage c2)\<rparr>)"

section \<open>The configuration file\<close>

text \<open>Kinds of a parsed JSON value; the accessors throw on another kind.\<close>

datatype json = JNull | JBool bool | JInt int | JDouble | JString string
  | JArray "json list" | JObject "(string \<times> json) list"

fun as_object :: "json \<Rightarrow> (string \<times> json) list option" where
  "as_object (JObject kvs) = Some kvs"
| "as_object _ = None"

fun as_array :: "json \<Rightarrow> json list option" where
  "as_array (JArray vs) = Some vs"
| "as_array _ = None"

fun as_string :: "json \<Rightarrow> string option" where
  "as_string (JString s) = Some s"
| "as_string _ = None"

fun as_int64 :: "json \<Rightarrow> int option" where
  "as_int64 (JInt i) = Some i"
| "as_int64 _ = None"

fun as_bool :: "json \<Rightarrow> bool option" where
  "as_bool (JBool b) = Some b"
| "as_bool _ = None"

text \<open>\<open>v = obj.if_contains(name); if (v) field = v->as_...()\<close>\<close>

definition json_field ::
  "(json \<Rightarrow> 'v option) \<Rightarrow> (string \<times> json) list \<Rightarrow> string \<Rightarrow> ('v \<Rightarrow> 'c \<Rightarrow> 'c) \<Rightarrow> 'c \<Rightarrow> 'c option" where
  "json_field acc obj name upd c =
     (case map_of obj name of
        None \<Rightarrow> Some c
      | Some v \<Rightarrow> map_option (\<lambda>x. upd x c) (acc v))"

text \<open>A nested object: its fields are read only when it is present.\<close>

definition json_section ::
  "(string \<times> json) list \<Rightarrow> string \<Rightarrow> ((string \<times> json) list \<Rightarrow> 'c \<Rightarrow> 'c option) \<Rightarrow> 'c \<Rightarrow> 'c option" where
  "json_section obj name f c =
     (case map_of obj name of
        None \<Rightarrow> Some c
      | Some v \<Rightarrow> do { o' \<leftarrow> as_object v; f o' c })"

definition json_encryption :: "(string \<times> json) list \<Rightarrow> Encryption \<Rightarrow> Encryption option" where
  "json_encryption enc c = do {
     c \<leftarrow> json_field as_string enc ''salt'' (\<lambda>v c. c\<lparr>salt := v\<rparr>) c;
     c \<leftarrow> json_field as_string enc ''key'' (\<lambda>v c. c\<lparr>enc_key := v\<rparr>) c;
     c \<leftarrow> json_field as_string enc ''iv'' (\<lambda>v c. c\<lparr>iv := v\<rparr>) c;
     c \<leftarrow> json_field as_string enc ''secret'' (\<lambda>v c. c\<lparr>secret := v\<rparr>) c;
     json_field as_int64 enc ''rounds'' (\<lambda>v c. c\<lparr>rounds := to_int32 v\<rparr>) c }"

definition json_logging :: "(string \<times> json) list \<Rightarrow> Logging \<Rightarrow> Logging option" where
  "json_logging log c = do {
     c \<leftarrow> json_field as_string log ''level'' (\<lambda>v c. c\<lparr>level := v\<rparr>) c;
     c \<leftarrow> json_field as_string log ''dir'' (\<lambda>v c. c\<lparr>dir := v\<rparr>) c;
     json_field as_bool log ''console'' (\<lambda>v c. c\<lparr>console := v\<rparr>) c }"

definition json_ssl :: "(string \<times> json) list \<Rightarrow> SSL \<Rightarrow> SSL option" where
  "json_ssl o' c = do {
     c \<leftarrow> json_field as_string o' ''caCertificate'' (\<lambda>v c. c\<lparr>caCertificate := v\<rparr>) c;
     c \<leftarrow> json_field as_string o' ''serverCertificate'' (\<lambda>v c. c\<lparr>certificate := v\<rparr>) c;
     c \<leftarrow> json_field as_string o' ''serverKey'' (\<lambda>v c. c\<lparr>ssl_key := v\<rparr>) c;
     json_field as_bool o' ''enable'' (\<lambda>v c. c\<lparr>ssl_enable := v\<rparr>) c }"

definition json_services :: "(string \<times> json) list \<Rightarrow> Services \<Rightarrow> Services option" where
  "json_services svcs c = do {
     c \<leftarrow> json_field as_string svcs ''http'' (\<lambda>v c. c\<lparr>http := v\<rparr>) c;
     c \<leftarrow> json_field as_int64 svcs ''tcp'' (\<lambda>v c. c\<lparr>tcp := to_int32 v\<rparr>) c;
     json_field as_int64 svcs ''notify'' (\<lambda>v c. c\<lparr>notify_port := to_int32 v\<rparr>) c }"

definition json_storage :: "(string \<times> json) list \<Rightarrow> Storage \<Rightarrow> Storage option" where
  "json_storage o' c = do {
     c \<leftarrow> json_field as_string o' ''dbpath'' (\<lambda>v c. c\<lparr>dbpath := v\<rparr>) c;
     c \<leftarrow> json_field as_string o' ''backupPath'' (\<lambda>v c. c\<lparr>backupPath := v\<rparr>) c;
     c \<leftarrow> json_field as_int64 o' ''blockCacheSizeMb'' (\<lambda>v c. c\<lparr>blockCacheSizeMb := word_of_int v\<rparr>) c;
     c \<leftarrow> json_field as_int64 o' ''cleanExpiredKeysInterval''
            (\<lambda>v c. c\<lparr>cleanExpiredKeysInterval := word_of_int v\<rparr>) c;
     c \<leftarrow> json_field as_int64 o' ''encrypterInitialPoolSize''
            (\<lambda>v c. c\<lparr>encrypterInitialPoolSize := word_of_int v\<rparr>) c;
     c \<leftarrow> json_field as_int64 o' ''maxBackups'' (\<lambda>v c. c\<lparr>maxBackups := word_of_int v\<rparr>) c;
     json_field as_bool o' ''useMutex'' (\<lambda>v c. c\<lparr>useMutex := v\<rparr>) c }"

text \<open>The loop over \<open>peers\<close>: a peer is kept when it has a host and a positive port.\<close>

fun json_peers :: "json list \<Rightarrow> Peer list \<Rightarrow> Peer list option" where
  "json_peers [] ps = Some ps"
| "json_peers (e # es) ps = do {
     o' \<leftarrow> as_object e;
     p \<leftarrow> json_field as_string o' ''host'' (\<lambda>v c. c\<lparr>host := v\<rparr>) Peer_default;
     p \<leftarrow> json_field as_int64 o' ''port'' (\<lambda>v c. c\<lparr>port := to_int32 v\<rparr>) p;
     json_peers es (if host p \<noteq> [] \<and> port p > 0 then ps @ [p] else ps) }"

definition json_configuration :: "(string \<times> json) list \<Rightarrow> Configuration \<Rightarrow> Configuration option" where
  "json_configuration obj c = do {
     c \<leftarrow> json_field as_int64 obj ''threads'' (\<lambda>v c. c\<lparr>threads := word_of_int v\<rparr>) c;
     c \<leftarrow> json_field as_bool obj ''enableCache'' (\<lambda>v c. c\<lparr>enableCache := v\<rparr>) c;
     x \<leftarrow> json_section obj ''encryption'' json_encryption (encryption c);
     c \<leftarrow> Some (c\<lparr>encryption := x\<rparr>);
     x \<leftarrow> json_section obj ''logging'' json_logging (logging c);
     c \<leftarrow> Some (c\<lparr>logging := x\<rparr>);
     x \<leftarrow> json_section obj ''ssl'' json_ssl (ssl c);
     c \<leftarrow> Some (c\<lparr>ssl := x\<rparr>);
     x \<leftarrow> json_section obj ''services'' json_services (services c);
     c \<leftarrow> Some (c\<lparr>services := x\<rparr>);
     x \<leftarrow> json_section obj ''storage'' json_storage (storage c);
     c \<leftarrow> Some (c\<lparr>storage := x\<rparr>);
     case map_of obj ''peers'' of
       None \<Rightarrow> Some c
     | Some v \<Rightarrow> do {
         arr \<leftarrow> as_array v;
         ps \<leftarrow> json_peers arr (peers c);
         Some (c\<lparr>peers := ps\<rparr>) } }"

section \<open>The holder of the current configuration\<close>

text \<open>
  \<open>pconf::Holder\<close> owns the configuration through a unique pointer: assigning another object
  deletes the one it held.  References handed out by \<open>instance\<close> are addresses, so that a
  use after the deletion shows up as a read or write of an address that is gone.
\<close>

record Holder =
  cfg :: "nat option"
  objects :: "nat \<Rightarrow> Configuration option"
  next_address :: nat

definition Holder_init :: Holder where
  "Holder_init = \<lparr>cfg = None, objects = Map.empty, next_address = 0\<rparr>"

definition holder_assign :: "Configuration \<Rightarrow> Holder \<Rightarrow> Holder" where
  "holder_assign c h =
     (let a = next_address h;
          freed = (case cfg h of None \<Rightarrow> objects h | Some old \<Rightarrow> (objects h)(old := None))
      in \<lparr>cfg = Some a, objects = freed(a := Some c), next_address = Suc a\<rparr>)"

definition Configuration_instance :: "env \<Rightarrow> u32 \<Rightarrow> Holder \<Rightarrow> nat \<times> Holder" where
  "Configuration_instance e hw h =
     (case cfg h of
        Some a \<Rightarrow> (a, h)
      | None \<Rightarrow> (let h' = holder_assign (Configuration_new e hw) h in (next_address h, h')))"

definition Configuration_reset :: "env \<Rightarrow> u32 \<Rightarrow> Holder \<Rightarrow> Holder" where
  "Configuration_reset e hw h = holder_assign (Configuration_new e hw) h"

definition loadFromFile ::
  "(string \<Rightarrow> json option) \<Rightarrow> (string \<Rightarrow> string option) \<Rightarrow> env \<Rightarrow> u32 \<Rightarrow> string \<Rightarrow> Holder \<Rightarrow> Holder option" where
  "loadFromFile parse files e hw file h = do {
     s \<leftarrow> files file;
     jv \<leftarrow> parse s;
     obj \<leftarrow> as_object jv;
     c \<leftarrow> json_configuration obj (Configuration_new e hw);
     Some (holder_assign c h) }"

section \<open>Options given on the command line\<close>

text \<open>
  The end of \<open>loadConfig\<close>: \<open>conf\<close> is the reference taken before the file is loaded, and the
  peers are added through it.  \<open>boost::lexical_cast<int>\<close> is the parameter \<open>lexical_cast\<close>.
\<close>

fun add_peers :: "(string \<Rightarrow> int option) \<Rightarrow> string list \<Rightarrow> Peer list \<Rightarrow> Peer list option" where
  "add_peers lexical_cast [] ps = Some ps"
| "add_peers lexical_cast (pv # rest) ps =
     (case split pv '':'' of
        [h, p] \<Rightarrow> do { n \<leftarrow> lexical_cast p; add_peers lexical_cast rest (ps @ [\<lparr>host = h, port = n\<rparr>]) }
      | _ \<Rightarrow> add_peers lexical_cast rest ps)"

definition loadConfig_peers ::
  "(string \<Rightarrow> int option) \<Rightarrow> nat \<Rightarrow> string \<Rightarrow> Holder \<Rightarrow> Holder option" where
  "loadConfig_peers lexical_cast conf ps h =
     (if ps = [] then Some h
      else do {
        c \<leftarrow> objects h conf;
        ps' \<leftarrow> add_peers lexical_cast (split ps '','') (peers c);
        Some (h\<lparr>objects := (objects h)(conf := Some (c\<lparr>peers := ps'\<rparr>))\<rparr>) })"

definition loadConfig_tail ::
  "(string \<Rightarrow> json option) \<Rightarrow> (string \<Rightarrow> string option) \<Rightarrow> (string \<Rightarrow> int option) \<Rightarrow> env \<Rightarrow> u32 \<Rightarrow>
   string \<Rightarrow> string \<Rightarrow> nat \<Rightarrow> Holder \<Rightarrow> Holder option" where
  "loadConfig_tail parse files lexical_cast e hw file ps conf h = do {
     h \<leftarrow> (if file = [] then Some h else loadFromFile parse files e hw file h);
     loadConfig_peers lexical_cast conf ps h }"

section \<open>Peers from the environment\<close>

definition env_peer :: "env \<Rightarrow> nat \<Rightarrow> Peer" where
  "env_peer e n = \<lparr>host = the (e (peer_host_var n)),
     port = (case e (peer_port_var n) of None \<Rightarrow> 0 | Some v \<Rightarrow> to_int32 (strtol v))\<rparr>"

lemma env_peer_step_present:
  assumes "e (peer_host_var n) \<noteq> None" and "length ps = n"
  shows "env_peer_port e n (env_peer_host e n ps) = ps @ [env_peer e n]"
  using assms
  by (auto simp: env_peer_host_def env_peer_port_def env_peer_def Peer_default_def
      split: option.splits)

lemma env_peer_step_absent:
  assumes "e (peer_host_var n) = None \<or> length ps < n" and "length ps \<le> n"
  shows "env_peer_port e n (env_peer_host e n ps) = ps"
  using assms by (auto simp: env_peer_host_def env_peer_port_def split: option.splits)

lemma env_peers_stuck: "length ps < n \<Longrightarrow> env_peers e [n..<m] ps = ps"
proof (induction "m - n" arbitrary: n)
  case 0
  then show ?case by simp
next
  case (Suc d)
  then have "[n..<m] = n # [Suc n..<m]" by (simp add: upt_rec)
  with Suc env_peer_step_absent [of e n ps] show ?case by simp
qed

lemma env_peers_run:
  "env_peers e [n..<m] (map (env_peer e) [0..<n]) =
   map (env_peer e) ([0..<n] @ takeWhile (\<lambda>i. e (peer_host_var i) \<noteq> None) [n..<m])"
proof (induction "m - n" arbitrary: n)
  case 0
  then show ?case by simp
next
  case (Suc d)
  then have upt: "[n..<m] = n # [Suc n..<m]" by (simp add: upt_rec)
  show ?case
  proof (cases "e (peer_host_var n) = None")
    case True
    then show ?thesis
      using env_peer_step_absent [of e n "map (env_peer e) [0..<n]"]
        env_peers_stuck [of "map (env_peer e) [0..<n]" "Suc n" e m]
      by (simp add: upt)
  next
    case False
    then have "env_peer_port e n (env_peer_host e n (map (env_peer e) [0..<n])) =
        map (env_peer e) [0..<Suc n]"
      using env_peer_step_present [of e n "map (env_peer e) [0..<n]"] by simp
    moreover have "env_peers e [Suc n..<m] (map (env_peer e) [0..<Suc n]) =
        map (env_peer e) ([0..<Suc n] @ takeWhile (\<lambda>i. e (peer_host_var i) \<noteq> None) [Suc n..<m])"
      using Suc.hyps(2) by (intro Suc.hyps(1)) simp
    ultimately show ?thesis using False by (simp add: upt)
  qed
qed

lemma peers_Configuration_new [simp]:
  "peers (Configuration_new e hw) = env_peers e [0..<7] []"
  by (simp add: Configuration_new_def Let_def Configuration_init_def with_env_def
      split: option.splits)

text \<open>
  The constructor takes from the environment exactly the peers \<open>0, 1, \<dots>\<close> up to the first
  number (at most 7) whose host variable is missing, in this order, each with its own host and
  with the port of the same number (0 when that variable is missing).
\<close>

theorem Configuration_new_peers:
  "peers (Configuration_new e hw) =
   map (env_peer e) (takeWhile (\<lambda>n. e (peer_host_var n) \<noteq> None) [0..<7])"
  using env_peers_run [of e 0 7] by simp

text \<open>
  A directory given in \<open>CONFIG_DB_LOGGING_DIR\<close> never reaches the field \<open>dir\<close>: it
  overwrites the log level, also one set by \<open>CONFIG_DB_LOGGING_LEVEL\<close>, with an arbitrary text.
\<close>

theorem logging_dir_overwrites_level:
  assumes "e ''CONFIG_DB_LOGGING_DIR'' = Some v"
  shows "level (logging (Configuration_new e hw)) = v \<and>
         dir (logging (Configuration_new e hw)) = ''logs/''"
  using assms
  by (simp add: Configuration_new_def Let_def Configuration_init_def env_logging_def
      with_env_def Logging_default_def split: option.splits)

theorem logging_dir_overwrites_level_witness:
  "level (logging (Configuration_new [''CONFIG_DB_LOGGING_DIR'' \<mapsto> ''/var/log/''] 4)) = ''/var/log/'' \<and>
   dir (logging (Configuration_new [''CONFIG_DB_LOGGING_DIR'' \<mapsto> ''/var/log/''] 4)) = ''logs/''"
  by (rule logging_dir_overwrites_level) simp

section \<open>Loading a file\<close>

lemma json_field_Some:
  "json_field acc obj name upd c = Some c' \<Longrightarrow>
   (map_of obj name = None \<and> c' = c) \<or> (\<exists>v x. map_of obj name = Some v \<and> acc v = Some x \<and> c' = upd x c)"
  by (auto simp: json_field_def split: option.splits)

lemma json_peers_valid:
  "json_peers es ps = Some ps' \<Longrightarrow>
   \<exists>new. ps' = ps @ new \<and> length new \<le> length es \<and> (\<forall>p \<in> set new. host p \<noteq> [] \<and> port p > 0)"
proof (induction es arbitrary: ps)
  case Nil
  then show ?case by simp
next
  case (Cons e es)
  then obtain p where p: "json_peers es (if host p \<noteq> [] \<and> port p > 0 then ps @ [p] else ps) = Some ps'"
    by (auto simp: bind_eq_Some_conv)
  from Cons.IH [OF p] obtain new where
    "ps' = (if host p \<noteq> [] \<and> port p > 0 then ps @ [p] else ps) @ new" "length new \<le> length es"
    "\<forall>p \<in> set new. host p \<noteq> [] \<and> port p > 0" by blast
  then show ?case
    by (intro exI [of _ "if host p \<noteq> [] \<and> port p > 0 then p # new else new"]) auto
qed

lemma json_configuration_peers:
  assumes "json_configuration obj c = Some c'"
  shows "\<exists>new. peers c' = peers c @ new \<and> (\<forall>p \<in> set new. host p \<noteq> [] \<and> port p > 0)"
proof -
  from assms obtain c1 c2 where
    "json_field as_int64 obj ''threads'' (\<lambda>v c. c\<lparr>threads := word_of_int v\<rparr>) c = Some c1"
    "json_field as_bool obj ''enableCache'' (\<lambda>v c. c\<lparr>enableCache := v\<rparr>) c1 = Some c2"
    and c': "peers c' = peers c2 \<or> (\<exists>arr. json_peers arr (peers c2) = Some (peers c'))"
    by (fastforce simp: json_configuration_def bind_eq_Some_conv split: option.splits)
  then have "peers c2 = peers c" by (auto dest!: json_field_Some)
  with c' show ?thesis
  proof (elim disjE exE)
    assume "peers c' = peers c2"
    with \<open>peers c2 = peers c\<close> show ?thesis by simp
  next
    fix arr
    assume "json_peers arr (peers c2) = Some (peers c')"
    from json_peers_valid [OF this] \<open>peers c2 = peers c\<close> show ?thesis by auto
  qed
qed

text \<open>
  A configuration loaded from a file holds the peers of the environment followed by peers
  of the file that all have a host and a positive port, and it becomes the current one.
\<close>

theorem loadFromFile_installs:
  assumes "loadFromFile parse files e hw file h = Some h'"
  shows "\<exists>c a new. cfg h' = Some a \<and> objects h' a = Some c \<and>
    peers c = peers (Configuration_new e hw) @ new \<and> (\<forall>p \<in> set new. host p \<noteq> [] \<and> port p > 0)"
proof -
  from assms obtain obj c where c: "json_configuration obj (Configuration_new e hw) = Some c"
    and h': "h' = holder_assign c h"
    by (auto simp: loadFromFile_def bind_eq_Some_conv)
  from json_configuration_peers [OF c] show ?thesis
    by (auto simp: h' holder_assign_def Let_def)
qed

definition sample_json :: json where
  "sample_json = JObject [(''threads'', JInt 2), (''peers'', JArray
     [JObject [(''host'', JString ''db1''), (''port'', JInt 2120)],
      JObject [(''host'', JString ''''), (''port'', JInt 2120)]])]"

lemma env_peers_empty: "env_peers Map.empty ns [] = []"
  by (induction ns) (simp_all add: env_peer_host_def env_peer_port_def)

lemma sample_json_loads:
  "loadFromFile (\<lambda>_. Some sample_json) (\<lambda>_. Some ''{}'') Map.empty 4 ''f'' Holder_init =
   Some (holder_assign ((Configuration_new Map.empty 4)\<lparr>threads := 2,
     peers := [\<lparr>host = ''db1'', port = 2120\<rparr>]\<rparr>) Holder_init)"
  by (simp add: loadFromFile_def sample_json_def json_configuration_def json_field_def
      json_section_def Peer_default_def to_int32_def env_peers_empty)

theorem loadFromFile_installs_witness:
  "\<exists>h'. loadFromFile (\<lambda>_. Some sample_json) (\<lambda>_. Some ''{}'') Map.empty 4 ''f'' Holder_init = Some h' \<and>
    (\<exists>c a new. cfg h' = Some a \<and> objects h' a = Some c \<and>
      peers c = peers (Configuration_new Map.empty 4) @ new \<and>
      (\<forall>p \<in> set new. host p \<noteq> [] \<and> port p > 0))"
  using loadFromFile_installs [OF sample_json_loads] sample_json_loads by blast

text \<open>
  The reference that \<open>loadConfig\<close> took before it loaded a configuration file is dangling
  afterwards: giving both a file and a list of peers on the command line never completes
  normally, whatever the file holds.
\<close>

theorem loadConfig_file_and_peers_undefined:
  assumes "Configuration_instance e hw h = (conf, h1)" and "cfg h \<noteq> Some (next_address h)"
    and "file \<noteq> []" and "ps \<noteq> []"
  shows "loadConfig_tail parse files lexical_cast e hw file ps conf h1 = None"
proof -
  have conf: "cfg h1 = Some conf" and fresh: "next_address h1 \<noteq> conf"
    using assms(1,2)
    by (auto simp: Configuration_instance_def holder_assign_def Let_def split: option.splits)
  show ?thesis
  proof (cases "loadFromFile parse files e hw file h1")
    case None
    with assms(3) show ?thesis by (simp add: loadConfig_tail_def)
  next
    case (Some h2)
    then have "objects h2 conf = None"
      using conf fresh by (auto simp: loadFromFile_def bind_eq_Some_conv holder_assign_def Let_def)
    with Some assms(3,4) show ?thesis by (simp add: loadConfig_tail_def loadConfig_peers_def)
  qed
qed

theorem loadConfig_file_and_peers_undefined_witness:
  "loadConfig_tail (\<lambda>_. Some sample_json) (\<lambda>_. Some ''{}'') (\<lambda>_. Some 2120) Map.empty 4 ''f'' ''a:2120''
     0 (snd (Configuration_instance Map.empty 4 Holder_init)) = None"
  by (rule loadConfig_file_and_peers_undefined [of Map.empty 4 Holder_init 0])
    (simp_all add: Configuration_instance_def Holder_init_def Let_def)

end
