(* ===== verification/Pool.thy ===== *)
theory Pool
  imports Messages
begin

text \<open>
  The object pool of \<open>src/common/pool/pool.hpp\<close>, used for the ciphers and the transactions of
  the storage and for the connections of the client interface.  The factory is a value
  \<open>creator\<close> (\<^term>\<open>None\<close> when it returns a null pointer), the function \<open>valid\<close> is the method
  of the pooled class, and a reading of \<open>std::chrono::system_clock\<close> in nanoseconds is an
  argument of each operation that reads the clock.
\<close>

section \<open>State and operations\<close>

record PoolConfiguration =
  initialSize :: u32
  maxPoolSize :: u32
  maxConnections :: u32
  maxIdleTime :: int

definition PoolConfiguration_default :: PoolConfiguration where
  "PoolConfiguration_default =
     \<lparr>initialSize = 1, maxPoolSize = 25, maxConnections = 100, maxIdleTime = 300\<rparr>"

record 'c ConnectionWrapper =
  con :: "'c option"
  wtime :: int
  wcount :: u32

record 'c Pool =
  configuration :: PoolConfiguration
  available :: "'c ConnectionWrapper list"
  total :: u32
  created :: u32

definition ConnectionWrapper_new :: "'c option \<Rightarrow> int \<Rightarrow> 'c ConnectionWrapper" where
  "ConnectionWrapper_new c now = \<lparr>con = c, wtime = now, wcount = 0\<rparr>"

text \<open>The constructor; \<open>now i\<close> is the clock when the \<open>i\<close>-th object is made.\<close>

definition Pool_new :: "'c option \<Rightarrow> PoolConfiguration \<Rightarrow> (nat \<Rightarrow> int) \<Rightarrow> 'c Pool" where
  "Pool_new creator conf now =
     \<lparr>configuration = conf,
      available = map (\<lambda>i. ConnectionWrapper_new creator (now i)) [0..<unat (initialSize conf)],
      total = 0, created = initialSize conf\<rparr>"

text \<open>\<open>acquire\<close>: the test of the limit happens before the lock is taken.\<close>

definition acquire_check :: "'c Pool \<Rightarrow> bool" where
  "acquire_check p \<longleftrightarrow> \<not> total p \<ge> maxConnections (configuration p)"

definition acquire_locked :: "'c option \<Rightarrow> int \<Rightarrow> 'c Pool \<Rightarrow> 'c ConnectionWrapper \<times> 'c Pool" where
  "acquire_locked creator now p =
     (let p1 = p\<lparr>total := total p + 1\<rparr>
      in case available p1 of
           [] \<Rightarrow> (ConnectionWrapper_new creator now, p1\<lparr>created := created p1 + 1\<rparr>)
         | w # ws \<Rightarrow> (w\<lparr>wcount := wcount w + 1\<rparr>, p1\<lparr>available := ws\<rparr>))"

definition acquire :: "'c option \<Rightarrow> int \<Rightarrow> 'c Pool \<Rightarrow> 'c ConnectionWrapper option \<times> 'c Pool" where
  "acquire creator now p =
     (if acquire_check p then (let (w, p') = acquire_locked creator now p in (Some w, p'))
      else (None, p))"

definition release :: "('c \<Rightarrow> bool) \<Rightarrow> int \<Rightarrow> 'c ConnectionWrapper \<Rightarrow> 'c Pool \<Rightarrow> 'c Pool" where
  "release valid now w p =
     (let p1 = p\<lparr>total := total p - 1\<rparr>
      in case con w of
           None \<Rightarrow> p1
         | Some c \<Rightarrow>
             if \<not> valid c then p1
             else if length (available p1) < unat (maxPoolSize (configuration p1))
                  then p1\<lparr>available := available p1 @ [w\<lparr>wtime := now\<rparr>]\<rparr>
                  else p1)"

text \<open>The destructor of a proxy.\<close>

definition Proxy_destroy :: "('c \<Rightarrow> bool) \<Rightarrow> int \<Rightarrow> 'c ConnectionWrapper \<Rightarrow> 'c Pool \<Rightarrow> 'c Pool" where
  "Proxy_destroy valid now w p = (if con w = None then p else release valid now w p)"

definition inactive :: "'c Pool \<Rightarrow> u32" where
  "inactive p = of_nat (length (available p))"

definition active :: "'c Pool \<Rightarrow> u32" where
  "active p = total p"

definition totalCreated :: "'c Pool \<Rightarrow> u32" where
  "totalCreated p = created p"

text \<open>\<open>duration_cast<seconds>\<close> of a number of nanoseconds truncates towards zero.\<close>

definition to_seconds :: "int \<Rightarrow> int" where
  "to_seconds ns = sgn ns * (\<bar>ns\<bar> div 1000000000)"

fun removeExpired_loop :: "int \<Rightarrow> int \<Rightarrow> 'c ConnectionWrapper list \<Rightarrow> 'c ConnectionWrapper list" where
  "removeExpired_loop idle now [] = []"
| "removeExpired_loop idle now (w # ws) =
     (let diff = to_seconds (now - wtime w)
      in if diff < idle then w # ws else removeExpired_loop idle now ws)"

definition removeExpired :: "int \<Rightarrow> 'c Pool \<Rightarrow> 'c Pool" where
  "removeExpired now p =
     p\<lparr>available := removeExpired_loop (maxIdleTime (configuration p)) now (available p)\<rparr>"

text \<open>The monitor thread: each iteration reads the stop flag and, if it runs, the clock.\<close>

fun ttlMonitor :: "(bool \<times> int) list \<Rightarrow> 'c Pool \<Rightarrow> 'c Pool" where
  "ttlMonitor [] p = p"
| "ttlMonitor ((stop, now) # rest) p = (if stop then p else ttlMonitor rest (removeExpired now p))"

section \<open>The contract of a pool\<close>

text \<open>
  What the users of a pool rely on: acquiring succeeds below the limit; what is acquired
  satisfies every property that the factory and the waiting objects have; giving a valid
  object back restores the number of objects in use.
\<close>

locale resource_pool =
  fixes acq :: "'c option \<Rightarrow> int \<Rightarrow> 'p \<Rightarrow> 'w option \<times> 'p"
    and rel :: "('c \<Rightarrow> bool) \<Rightarrow> int \<Rightarrow> 'w \<Rightarrow> 'p \<Rightarrow> 'p"
    and resource :: "'w \<Rightarrow> 'c option"
    and set_resource :: "'c \<Rightarrow> 'w \<Rightarrow> 'w"
    and holds :: "('c \<Rightarrow> bool) \<Rightarrow> 'p \<Rightarrow> bool"
    and in_use :: "'p \<Rightarrow> nat"
    and limit :: "'p \<Rightarrow> nat"
  assumes acq_below: "in_use p < limit p \<Longrightarrow> holds P p \<Longrightarrow> creator = Some c0 \<Longrightarrow> P c0 \<Longrightarrow>
      \<exists>w p' c. acq creator now p = (Some w, p') \<and> resource w = Some c \<and> P c \<and> holds P p' \<and>
        in_use p' = Suc (in_use p) \<and> limit p' = limit p"
    and acq_full: "\<not> in_use p < limit p \<Longrightarrow> acq creator now p = (None, p)"
    and rel_holds: "holds P p \<Longrightarrow> resource w = Some c \<Longrightarrow> P c \<Longrightarrow> holds P (rel valid now w p)"
    and rel_in_use: "resource w = Some c \<Longrightarrow> 0 < in_use p \<Longrightarrow> in_use (rel valid now w p) = in_use p - 1"
    and rel_limit: "limit (rel valid now w p) = limit p"
    and resource_set: "resource (set_resource c w) = Some c"
begin

text \<open>Using an object and giving it back leaves the pool as usable as before.\<close>

lemma acquire_use_release:
  assumes "in_use p < limit p" and "holds P p" and "P c0"
  shows "\<exists>w p' c. acq (Some c0) now p = (Some w, p') \<and> resource w = Some c \<and> P c \<and>
    (\<forall>c'. P c' \<longrightarrow> (let q = rel valid now' (set_resource c' w) p'
       in holds P q \<and> in_use q = in_use p \<and> limit q = limit p))"
proof -
  from acq_below [OF assms(1,2) refl assms(3), of now]
  obtain w p' c where *: "acq (Some c0) now p = (Some w, p')" "resource w = Some c" "P c"
    "holds P p'" "in_use p' = Suc (in_use p)" "limit p' = limit p"
    by blast
  then show ?thesis
    by (intro exI [of _ w] exI [of _ p'] exI [of _ c])
      (auto simp: Let_def rel_in_use rel_limit resource_set intro: rel_holds)
qed

end

definition pool_holds :: "('c \<Rightarrow> bool) \<Rightarrow> 'c Pool \<Rightarrow> bool" where
  "pool_holds P p \<longleftrightarrow> (\<forall>w \<in> set (available p). \<exists>c. con w = Some c \<and> P c)"

definition pool_limit :: "'c Pool \<Rightarrow> nat" where
  "pool_limit p = unat (maxConnections (configuration p))"

definition pool_in_use :: "'c Pool \<Rightarrow> nat" where
  "pool_in_use p = unat (total p)"

lemma unat_Suc_below:
  assumes "unat (a :: u32) < unat (b :: u32)"
  shows "unat (a + 1) = Suc (unat a)"
proof -
  have "unat b < 2 ^ 32" using unsigned_less [where ?'a = nat and w = b] by simp
  with assms show ?thesis by (simp add: unat_word_ariths)
qed

lemma unat_pred: "0 < unat (a :: u32) \<Longrightarrow> unat (a - 1) = unat a - 1"
  by (rule unat_minus_one) auto

lemma acquire_check_iff: "acquire_check p \<longleftrightarrow> pool_in_use p < pool_limit p"
  by (simp add: acquire_check_def pool_in_use_def pool_limit_def word_le_nat_alt not_le)

lemma acquire_below:
  assumes "pool_in_use p < pool_limit p" and "pool_holds P p" and "creator = Some c0" and "P c0"
  shows "\<exists>w p' c. acquire creator now p = (Some w, p') \<and> con w = Some c \<and> P c \<and> pool_holds P p' \<and>
    pool_in_use p' = Suc (pool_in_use p) \<and> pool_limit p' = pool_limit p"
proof (cases "available p")
  case Nil
  with assms show ?thesis
    using unat_Suc_below [of "total p"]
    by (simp add: acquire_def acquire_check_iff acquire_locked_def ConnectionWrapper_new_def
        pool_holds_def pool_in_use_def pool_limit_def)
next
  case (Cons w ws)
  with assms show ?thesis
    using unat_Suc_below [of "total p"]
    by (auto simp: acquire_def acquire_check_iff acquire_locked_def
        pool_holds_def pool_in_use_def pool_limit_def)
qed

lemma Proxy_destroy_holds:
  "pool_holds P p \<Longrightarrow> con w = Some c \<Longrightarrow> P c \<Longrightarrow> pool_holds P (Proxy_destroy valid now w p)"
  by (auto simp: Proxy_destroy_def release_def pool_holds_def Let_def)

lemma Proxy_destroy_in_use:
  "con w = Some c \<Longrightarrow> 0 < pool_in_use p \<Longrightarrow> pool_in_use (Proxy_destroy valid now w p) = pool_in_use p - 1"
  by (auto simp: Proxy_destroy_def release_def pool_in_use_def Let_def unat_pred)

lemma Proxy_destroy_limit [simp]: "pool_limit (Proxy_destroy valid now w p) = pool_limit p"
  by (auto simp: Proxy_destroy_def release_def pool_limit_def Let_def split: option.splits)

lemma acquire_full: "\<not> pool_in_use p < pool_limit p \<Longrightarrow> acquire creator now p = (None, p)"
  by (simp add: acquire_def acquire_check_iff)

interpretation pool: resource_pool acquire Proxy_destroy con "\<lambda>c w. w\<lparr>con := Some c\<rparr>"
  pool_holds pool_in_use pool_limit
proof (unfold_locales, goal_cases)
  case 1
  then show ?case by (rule acquire_below)
qed (simp_all add: acquire_full Proxy_destroy_holds Proxy_destroy_in_use)

section \<open>Idle objects\<close>

text \<open>The queue is ordered by the time its objects were given back.\<close>

definition times_sorted :: "'c Pool \<Rightarrow> bool" where
  "times_sorted p \<longleftrightarrow> sorted (map wtime (available p))"

definition idle_too_long :: "int \<Rightarrow> 'c Pool \<Rightarrow> 'c ConnectionWrapper \<Rightarrow> bool" where
  "idle_too_long now p w \<longleftrightarrow> maxIdleTime (configuration p) \<le> to_seconds (now - wtime w)"

lemma to_seconds_mono: "a \<le> b \<Longrightarrow> to_seconds a \<le> to_seconds b"
proof -
  assume ab: "a \<le> b"
  consider "0 \<le> a" | "a < 0" "0 \<le> b" | "b < 0" using ab by linarith
  then show ?thesis
  proof cases
    case 1
    then have "a div 1000000000 \<le> b div 1000000000" using ab by (intro zdiv_mono1) auto
    with 1 ab show ?thesis by (auto simp: to_seconds_def sgn_if)
  next
    case 2
    then have "0 \<le> (- a) div 1000000000" "0 \<le> b div 1000000000" by auto
    with 2 show ?thesis by (auto simp: to_seconds_def sgn_if)
  next
    case 3
    then have "(- b) div 1000000000 \<le> (- a) div 1000000000" using ab by (intro zdiv_mono1) auto
    with 3 ab show ?thesis by (auto simp: to_seconds_def sgn_if)
  qed
qed

lemma removeExpired_loop_filter:
  assumes "sorted (map wtime ws)"
  shows "removeExpired_loop idle now ws = filter (\<lambda>w. to_seconds (now - wtime w) < idle) ws"
  using assms
proof (induction ws)
  case Nil
  then show ?case by simp
next
  case (Cons w ws)
  show ?case
  proof (cases "to_seconds (now - wtime w) < idle")
    case True
    have "to_seconds (now - wtime v) < idle" if "v \<in> set ws" for v
    proof -
      from that Cons.prems have "wtime w \<le> wtime v" by auto
      then have "to_seconds (now - wtime v) \<le> to_seconds (now - wtime w)"
        by (intro to_seconds_mono) simp
      with True show ?thesis by simp
    qed
    with True show ?thesis by (simp add: filter_id_conv)
  next
    case False
    with Cons show ?thesis by simp
  qed
qed

lemma release_times_sorted:
  assumes "times_sorted p" and "\<forall>w \<in> set (available p). wtime w \<le> now"
  shows "times_sorted (release valid now w p)"
  using assms
  by (auto simp: times_sorted_def release_def Let_def sorted_append split: option.splits)

lemma acquire_locked_times_sorted:
  "times_sorted p \<Longrightarrow> times_sorted (snd (acquire_locked creator now p))"
  by (auto simp: times_sorted_def acquire_locked_def Let_def split: list.splits)

text \<open>
  When the objects wait in the order in which they were given back (which acquiring and,
  with a clock that does not go back, releasing keep), \<open>removeExpired\<close> removes exactly the
  objects that have been idle for at least \<open>maxIdleTime\<close>, although it stops at the first one
  that has not.
\<close>

theorem removeExpired_exact:
  assumes "times_sorted p"
  shows "available (removeExpired now p) = filter (\<lambda>w. \<not> idle_too_long now p w) (available p) \<and>
    times_sorted (removeExpired now p)"
  using assms removeExpired_loop_filter [of "available p"]
  by (simp add: removeExpired_def times_sorted_def idle_too_long_def not_le sorted_filter)

definition sample_pool :: "nat Pool" where
  "sample_pool = \<lparr>configuration = PoolConfiguration_default,
     available = [\<lparr>con = Some 1, wtime = 0, wcount = 3\<rparr>, \<lparr>con = Some 2, wtime = 200000000000, wcount = 1\<rparr>],
     total = 0, created = 2\<rparr>"

theorem removeExpired_exact_witness:
  "map con (available (removeExpired 350000000000 sample_pool)) = [Some 2]"
proof -
  have "times_sorted sample_pool" by (simp add: times_sorted_def sample_pool_def)
  from removeExpired_exact [OF this, of 350000000000] show ?thesis
    by (simp add: sample_pool_def idle_too_long_def PoolConfiguration_default_def to_seconds_def)
qed

section \<open>Several threads\<close>

text \<open>
  Threads that use one pool.  The two halves of \<open>acquire\<close> are separate steps, because the
  limit is tested before the lock is taken; the code under the lock is one step.
\<close>

datatype 'c client = Outside | Checked | Holding "'c ConnectionWrapper"

record 'c pool_system =
  the_pool :: "'c Pool"
  clients :: "'c client list"

inductive pool_step :: "'c \<Rightarrow> ('c \<Rightarrow> bool) \<Rightarrow> 'c pool_system \<Rightarrow> 'c pool_system \<Rightarrow> bool"
  for c0 :: 'c and valid :: "'c \<Rightarrow> bool" where
  step_check: "i < length (clients s) \<Longrightarrow> clients s ! i = Outside \<Longrightarrow> acquire_check (the_pool s) \<Longrightarrow>
    pool_step c0 valid s (s\<lparr>clients := (clients s)[i := Checked]\<rparr>)"
| step_enter: "i < length (clients s) \<Longrightarrow> clients s ! i = Checked \<Longrightarrow>
    acquire_locked (Some c0) now (the_pool s) = (w, p') \<Longrightarrow>
    pool_step c0 valid s (s\<lparr>the_pool := p', clients := (clients s)[i := Holding w]\<rparr>)"
| step_leave: "i < length (clients s) \<Longrightarrow> clients s ! i = Holding w \<Longrightarrow>
    pool_step c0 valid s (s\<lparr>the_pool := Proxy_destroy valid now (w\<lparr>con := Some c\<rparr>) (the_pool s),
                           clients := (clients s)[i := Outside]\<rparr>)"
| step_expire: "pool_step c0 valid s (s\<lparr>the_pool := removeExpired now (the_pool s)\<rparr>)"

inductive pool_reachable :: "'c \<Rightarrow> ('c \<Rightarrow> bool) \<Rightarrow> 'c pool_system \<Rightarrow> 'c pool_system \<Rightarrow> bool"
  for c0 :: 'c and valid :: "'c \<Rightarrow> bool" and s0 :: "'c pool_system" where
  pool_start: "pool_reachable c0 valid s0 s0"
| pool_more: "pool_reachable c0 valid s0 s \<Longrightarrow> pool_step c0 valid s t \<Longrightarrow> pool_reachable c0 valid s0 t"

definition pool_system_init :: "'c \<Rightarrow> PoolConfiguration \<Rightarrow> (nat \<Rightarrow> int) \<Rightarrow> nat \<Rightarrow> 'c pool_system" where
  "pool_system_init c0 conf now n =
     \<lparr>the_pool = Pool_new (Some c0) conf now, clients = replicate n Outside\<rparr>"

fun is_holding :: "'c client \<Rightarrow> bool" where
  "is_holding (Holding w) = True"
| "is_holding _ = False"

definition holders :: "'c pool_system \<Rightarrow> nat" where
  "holders s = length (filter is_holding (clients s))"

text \<open>The counter \<open>total\<close> is the number of threads that hold an object.\<close>

definition pool_inv :: "nat \<Rightarrow> PoolConfiguration \<Rightarrow> 'c pool_system \<Rightarrow> bool" where
  "pool_inv n conf s \<longleftrightarrow>
     length (clients s) = n \<and> configuration (the_pool s) = conf \<and>
     pool_in_use (the_pool s) = holders s \<and>
     length (available (the_pool s)) \<le> max (unat (initialSize conf)) (unat (maxPoolSize conf))"

lemma length_filter_less:
  "i < length xs \<Longrightarrow> \<not> P (xs ! i) \<Longrightarrow> length (filter P xs) < length xs"
  by (metis length_filter_less nth_mem)

lemma removeExpired_loop_length: "length (removeExpired_loop idle now ws) \<le> length ws"
  by (induction ws) (auto simp: Let_def)

lemma acquire_locked_props:
  assumes "acquire_locked (Some c0) now p = (w, p')"
  shows "configuration p' = configuration p \<and> total p' = total p + 1 \<and>
    length (available p') \<le> length (available p)"
  using assms by (auto simp: acquire_locked_def Let_def split: list.splits)

lemma Proxy_destroy_props:
  "configuration (Proxy_destroy valid now w p) = configuration p \<and>
   length (available (Proxy_destroy valid now w p)) \<le>
     max (length (available p)) (unat (maxPoolSize (configuration p)))"
  by (auto simp: Proxy_destroy_def release_def Let_def split: option.splits)

lemma pool_inv_step:
  assumes "pool_step c0 valid s t" and inv: "pool_inv n conf s" and n: "n < 2 ^ 32"
  shows "pool_inv n conf t"
  using assms(1)
proof cases
  case (step_check i)
  then show ?thesis
    using inv length_filter_update [of i "clients s" is_holding Checked]
    by (simp add: pool_inv_def holders_def)
next
  case (step_enter i now w p')
  have "holders s < n"
    using inv step_enter length_filter_less [of i "clients s" is_holding]
    by (simp add: pool_inv_def holders_def)
  then have "unat (total (the_pool s)) + 1 < 2 ^ 32"
    using inv n by (simp add: pool_inv_def pool_in_use_def)
  then have "unat (total (the_pool s) + 1) = Suc (holders s)"
    using inv by (simp add: pool_inv_def pool_in_use_def unat_word_ariths)
  moreover have "holders t = Suc (holders s)"
    using step_enter length_filter_update [of i "clients s" is_holding "Holding w"]
    by (simp add: holders_def)
  ultimately show ?thesis
    using step_enter inv acquire_locked_props [OF step_enter(4)]
    by (simp add: pool_inv_def pool_in_use_def)
next
  case (step_leave i w now c)
  have less: "holders t + 1 = holders s"
    using step_leave length_filter_update [of i "clients s" is_holding Outside]
    by (simp add: holders_def)
  then have "0 < pool_in_use (the_pool s)" using inv by (simp add: pool_inv_def)
  then have "pool_in_use (the_pool t) = holders t"
    using step_leave inv less Proxy_destroy_in_use [of "w\<lparr>con := Some c\<rparr>" c "the_pool s" valid now]
    by (simp add: pool_inv_def)
  then show ?thesis
    using step_leave inv Proxy_destroy_props [of valid now "w\<lparr>con := Some c\<rparr>" "the_pool s"]
    by (auto simp: pool_inv_def)
next
  case (step_expire now)
  have "length (available (removeExpired now (the_pool s))) \<le> length (available (the_pool s))"
    by (simp add: removeExpired_def removeExpired_loop_length)
  then show ?thesis
    using step_expire inv
    by (simp add: pool_inv_def pool_in_use_def holders_def removeExpired_def)
qed


definition tiny_conf :: PoolConfiguration where
  "tiny_conf = \<lparr>initialSize = 1, maxPoolSize = 1, maxConnections = 1, maxIdleTime = 300\<rparr>"

lemma tiny_run:
  defines "s0 \<equiv> pool_system_init (0::nat) tiny_conf (\<lambda>_. 0) 2"
  defines "p1 \<equiv> (the_pool s0)\<lparr>total := 1, available := []\<rparr>"
  defines "w1 \<equiv> \<lparr>con = Some (0::nat), wtime = 0, wcount = 1\<rparr>"
  shows "pool_reachable 0 (\<lambda>_. True) s0
    \<lparr>the_pool = p1, clients = [Holding w1, Checked]\<rparr>"
    and "pool_reachable 0 (\<lambda>_. True) s0
    \<lparr>the_pool = p1\<lparr>total := 2, created := 2\<rparr>,
     clients = [Holding w1, Holding \<lparr>con = Some 0, wtime = 0, wcount = 0\<rparr>]\<rparr>"
proof -
  note defs = s0_def p1_def w1_def pool_system_init_def Pool_new_def tiny_conf_def
    ConnectionWrapper_new_def acquire_check_def acquire_locked_def numeral_2_eq_2
  have "pool_step 0 (\<lambda>_. True) s0 (s0\<lparr>clients := [Checked, Outside]\<rparr>)"
    using step_check [of 0 s0 "0::nat" "\<lambda>_. True"] by (simp add: defs)
  moreover have "pool_step 0 (\<lambda>_. True) (s0\<lparr>clients := [Checked, Outside]\<rparr>) (s0\<lparr>clients := [Checked, Checked]\<rparr>)"
    using step_check [of 1 "s0\<lparr>clients := [Checked, Outside]\<rparr>" "0::nat" "\<lambda>_. True"] by (simp add: defs)
  moreover have "pool_step 0 (\<lambda>_. True) (s0\<lparr>clients := [Checked, Checked]\<rparr>)
      \<lparr>the_pool = p1, clients = [Holding w1, Checked]\<rparr>"
    using step_enter [of 0 "s0\<lparr>clients := [Checked, Checked]\<rparr>" "0::nat" 0 w1 p1 "\<lambda>_. True"]
    by (simp add: defs)
  ultimately show one: "pool_reachable 0 (\<lambda>_. True) s0
      \<lparr>the_pool = p1, clients = [Holding w1, Checked]\<rparr>"
    by (blast intro: pool_start pool_more)
  have "pool_step 0 (\<lambda>_. True) \<lparr>the_pool = p1, clients = [Holding w1, Checked]\<rparr>
    \<lparr>the_pool = p1\<lparr>total := 2, created := 2\<rparr>,
     clients = [Holding w1, Holding \<lparr>con = Some 0, wtime = 0, wcount = 0\<rparr>]\<rparr>"
    using step_enter [of 1 "\<lparr>the_pool = p1, clients = [Holding w1, Checked]\<rparr>" "0::nat" 0
        "\<lparr>con = Some 0, wtime = 0, wcount = 0\<rparr>" "p1\<lparr>total := 2, created := 2\<rparr>" "\<lambda>_. True"]
    by (simp add: defs)
  with one show "pool_reachable 0 (\<lambda>_. True) s0
    \<lparr>the_pool = p1\<lparr>total := 2, created := 2\<rparr>,
     clients = [Holding w1, Holding \<lparr>con = Some 0, wtime = 0, wcount = 0\<rparr>]\<rparr>"
    by (rule pool_more)
qed


text \<open>
  The limit itself is not kept: because it is tested outside the lock, two threads can
  both hold an object of a pool whose \<open>maxConnections\<close> is 1.
\<close>

theorem acquire_race_exceeds_limit:
  "\<exists>s. pool_reachable (0::nat) (\<lambda>_. True) (pool_system_init 0 tiny_conf (\<lambda>_. 0) 2) s \<and>
       pool_limit (the_pool s) = 1 \<and> pool_in_use (the_pool s) = 2"
  by (intro exI conjI, rule tiny_run(2))
    (simp_all add: pool_limit_def pool_in_use_def pool_system_init_def Pool_new_def tiny_conf_def)

end
