(* ===== verification/Value_Cache.thy ===== *)
theory Value_Cache
  imports Prelude "HOL-Library.AList"
begin

text \<open>
  The cache of decrypted values: \<open>ExpirationCache\<close> and its base class of
  \<open>src/lib/util/ExpirationCache.hpp\<close>, instantiated in \<open>cache.hpp\<close> with strings and a period
  of 60 seconds.  The hash map is an association list with distinct keys.
\<close>

section \<open>Operations on one cache\<close>

record ('k, 'v) ExpirationCache =
  cmap :: "('k \<times> 'v) list"

definition ExpirationCache_new :: "('k, 'v) ExpirationCache" where
  "ExpirationCache_new = \<lparr>cmap = []\<rparr>"

text \<open>\<open>find\<close> followed by the comparison with \<open>end\<close> and the access to \<open>second\<close>.\<close>

definition cache_find :: "'k \<Rightarrow> ('k, 'v) ExpirationCache \<Rightarrow> 'v option" where
  "cache_find k c = map_of (cmap c) k"

definition cache_erase :: "'k \<Rightarrow> ('k, 'v) ExpirationCache \<Rightarrow> ('k, 'v) ExpirationCache" where
  "cache_erase k c = (case cache_find k c of None \<Rightarrow> c | Some _ \<Rightarrow> c\<lparr>cmap := AList.delete k (cmap c)\<rparr>)"

text \<open>\<open>get\<close> throws \<open>std::out_of_range\<close> when the key is missing.\<close>

definition cache_get :: "'k \<Rightarrow> ('k, 'v) ExpirationCache \<Rightarrow> 'v option" where
  "cache_get k c = map_of (cmap c) k"

definition cache_put :: "'k \<Rightarrow> 'v \<Rightarrow> ('k, 'v) ExpirationCache \<Rightarrow> ('k, 'v) ExpirationCache" where
  "cache_put k v c = c\<lparr>cmap := AList.update k v (cmap c)\<rparr>"

definition cache_count :: "('k, 'v) ExpirationCache \<Rightarrow> nat" where
  "cache_count c = length (cmap c)"

definition cache_clearAll :: "('k, 'v) ExpirationCache \<Rightarrow> ('k, 'v) ExpirationCache" where
  "cache_clearAll c = c\<lparr>cmap := []\<rparr>"

definition cache_wf :: "('k, 'v) ExpirationCache \<Rightarrow> bool" where
  "cache_wf c \<longleftrightarrow> distinct (map fst (cmap c))"

section \<open>The contract of the cache\<close>

text \<open>
  A cache is a partial map from keys to values that the storage fills, erases and clears.  The
  client's view: what can be found is a subset of what was put and not erased since.
\<close>

locale value_cache =
  fixes find :: "'k \<Rightarrow> 'c \<Rightarrow> 'v option"
    and put :: "'k \<Rightarrow> 'v \<Rightarrow> 'c \<Rightarrow> 'c"
    and erase :: "'k \<Rightarrow> 'c \<Rightarrow> 'c"
    and clear :: "'c \<Rightarrow> 'c"
    and wf :: "'c \<Rightarrow> bool"
  assumes find_put: "find k (put k' v c) = (if k = k' then Some v else find k c)"
    and find_erase: "find k (erase k' c) = (if k = k' then None else find k c)"
    and find_clear: "find k (clear c) = None"
    and wf_put: "wf c \<Longrightarrow> wf (put k v c)"
    and wf_erase: "wf c \<Longrightarrow> wf (erase k c)"
    and wf_clear: "wf (clear c)"
begin

text \<open>A cache agrees with a store when everything in it is what the store holds.\<close>

definition coherent :: "('k \<Rightarrow> 'v option) \<Rightarrow> 'c \<Rightarrow> bool" where
  "coherent m c \<longleftrightarrow> (\<forall>k v. find k c = Some v \<longrightarrow> m k = Some v)"

lemma coherent_put: "coherent m c \<Longrightarrow> coherent (m(k \<mapsto> v)) (put k v c)"
  by (auto simp: coherent_def find_put)

lemma coherent_read: "coherent m c \<Longrightarrow> m k = Some v \<Longrightarrow> coherent m (put k v c)"
  by (auto simp: coherent_def find_put)

lemma coherent_erase: "coherent m c \<Longrightarrow> coherent (m(k := None)) (erase k c)"
  by (auto simp: coherent_def find_erase)

lemma coherent_clear: "coherent m (clear c)"
  by (simp add: coherent_def find_clear)

lemma coherent_lookup: "coherent m c \<Longrightarrow> find k c = Some v \<Longrightarrow> m k = Some v"
  by (simp add: coherent_def)

end

interpretation vc: value_cache cache_find cache_put cache_erase cache_clearAll cache_wf
proof (unfold_locales, goal_cases)
  case (1 k k' v c)
  then show ?case by (simp add: cache_find_def cache_put_def update_conv')
next
  case (2 k k' c)
  then show ?case
    by (auto simp: cache_find_def cache_erase_def delete_conv' split: option.splits)
next
  case (3 k c)
  then show ?case by (simp add: cache_find_def cache_clearAll_def)
next
  case (4 c k v)
  then show ?case by (simp add: cache_wf_def cache_put_def distinct_update)
next
  case (5 c k)
  then show ?case
    by (auto simp: cache_wf_def cache_erase_def distinct_delete split: option.splits)
next
  case (6 c)
  then show ?case by (simp add: cache_wf_def cache_clearAll_def)
qed

section \<open>The sweeping thread\<close>

text \<open>
  \<open>RemoveExpiredElements\<close>: one iteration per second; the counter starts at 1, is increased,
  and a cache is cleared when the counter is a multiple of its period.
\<close>

definition sweep :: "nat \<Rightarrow> nat \<times> ('k, 'v) ExpirationCache \<Rightarrow> nat \<times> ('k, 'v) ExpirationCache" where
  "sweep ttl s = (let count = Suc (fst s)
     in (count, if count mod ttl = 0 then cache_clearAll (snd s) else snd s))"

text \<open>What a cache goes through: puts and erasures of its users, and iterations of the thread.\<close>

datatype ('k, 'v) cache_event = CachePut 'k 'v | CacheErase 'k | CacheClear | CacheSweep

fun cache_run :: "nat \<Rightarrow> ('k, 'v) cache_event list \<Rightarrow> nat \<times> ('k, 'v) ExpirationCache \<Rightarrow>
    nat \<times> ('k, 'v) ExpirationCache" where
  "cache_run ttl [] s = s"
| "cache_run ttl (e # es) s = cache_run ttl es
     (case e of
        CachePut k v \<Rightarrow> (fst s, cache_put k v (snd s))
      | CacheErase k \<Rightarrow> (fst s, cache_erase k (snd s))
      | CacheClear \<Rightarrow> (fst s, cache_clearAll (snd s))
      | CacheSweep \<Rightarrow> sweep ttl s)"

definition sweeps :: "('k, 'v) cache_event list \<Rightarrow> nat" where
  "sweeps es = length (filter (\<lambda>e. e = CacheSweep) es)"

text \<open>The number of sweeps until the counter is next a multiple of the period.\<close>

definition until_clear :: "nat \<Rightarrow> nat \<Rightarrow> nat" where
  "until_clear ttl count = ttl - count mod ttl"

lemma until_clear_bounds: "0 < ttl \<Longrightarrow> 0 < until_clear ttl count \<and> until_clear ttl count \<le> ttl"
  by (simp add: until_clear_def)

lemma until_clear_Suc:
  "0 < ttl \<Longrightarrow> Suc count mod ttl \<noteq> 0 \<Longrightarrow> until_clear ttl (Suc count) = until_clear ttl count - 1"
  by (auto simp: until_clear_def mod_Suc split: if_splits)

lemma cache_run_only_put:
  assumes "cache_find k (snd (cache_run ttl es s)) = Some v"
  shows "cache_find k (snd s) = Some v \<or> CachePut k v \<in> set es"
  using assms
proof (induction es arbitrary: s)
  case Nil
  then show ?case by simp
next
  case (Cons e es)
  from Cons.prems show ?case
    by (auto dest!: Cons.IH split: cache_event.splits if_splits
        simp: vc.find_put vc.find_erase vc.find_clear sweep_def Let_def)
qed

lemma cache_run_swept:
  assumes "0 < ttl" and "until_clear ttl (fst s) \<le> sweeps es"
    and "cache_find k (snd (cache_run ttl es s)) = Some v"
  shows "CachePut k v \<in> set es"
  using assms(2,3)
proof (induction es arbitrary: s)
  case Nil
  then show ?case using until_clear_bounds [OF assms(1), of "fst s"] by (simp add: sweeps_def)
next
  case (Cons e es)
  show ?case
  proof (cases "e = CacheSweep")
    case False
    then have "until_clear ttl (fst s) \<le> sweeps es" using Cons.prems(1) by (simp add: sweeps_def)
    with False Cons show ?thesis by (cases e) fastforce+
  next
    case True
    let ?s = "sweep ttl s"
    have run: "cache_find k (snd (cache_run ttl es ?s)) = Some v" using Cons.prems(2) True by simp
    show ?thesis
    proof (cases "Suc (fst s) mod ttl = 0")
      case True
      then have "cache_find k (snd ?s) = None" by (simp add: sweep_def Let_def vc.find_clear)
      with cache_run_only_put [OF run] show ?thesis by auto
    next
      case False
      have "until_clear ttl (fst ?s) \<le> sweeps es"
        using until_clear_Suc [OF assms(1) False] Cons.prems(1) True by (simp add: sweeps_def sweep_def)
      from Cons.IH [OF this run] show ?thesis by simp
    qed
  qed
qed



text \<open>
  The thread itself runs while a cache object exists: the constructor starts it for the first
  cache, the destructor of the last one ends it.
\<close>

record Synchrophasotron =
  caches :: "nat list"
  endExecution :: bool
  threads_running :: nat

definition Synchrophasotron_init :: Synchrophasotron where
  "Synchrophasotron_init = \<lparr>caches = [], endExecution = False, threads_running = 0\<rparr>"

definition cache_construct :: "nat \<Rightarrow> Synchrophasotron \<Rightarrow> Synchrophasotron" where
  "cache_construct this s =
     (let s1 = s\<lparr>caches := caches s @ [this]\<rparr>
      in if length (caches s1) = 1
         then s1\<lparr>endExecution := False, threads_running := Suc (threads_running s1)\<rparr> else s1)"

definition cache_destroy :: "nat \<Rightarrow> Synchrophasotron \<Rightarrow> Synchrophasotron" where
  "cache_destroy this s =
     (let s1 = s\<lparr>caches := remove1 this (caches s)\<rparr>
      in if caches s1 = [] then s1\<lparr>endExecution := True, threads_running := threads_running s1 - 1\<rparr>
         else s1)"

definition sweeper_inv :: "Synchrophasotron \<Rightarrow> bool" where
  "sweeper_inv s \<longleftrightarrow> threads_running s = (if caches s = [] then 0 else 1)"

lemma sweeper_inv_init: "sweeper_inv Synchrophasotron_init"
  by (simp add: sweeper_inv_def Synchrophasotron_init_def)

lemma sweeper_inv_construct: "sweeper_inv s \<Longrightarrow> sweeper_inv (cache_construct this s)"
  by (auto simp: sweeper_inv_def cache_construct_def Let_def)

lemma sweeper_inv_destroy:
  "sweeper_inv s \<Longrightarrow> this \<in> set (caches s) \<Longrightarrow> sweeper_inv (cache_destroy this s)"
  by (auto simp: sweeper_inv_def cache_destroy_def Let_def)

end
