(* ===== verification/Encrypter.thy ===== *)
theory Encrypter
  imports Configuration
begin

text \<open>
  The encryption of values: \<open>src/lib/db/encrypter.hpp\<close> and \<open>encrypter.cpp\<close>.  OpenSSL is a
  parameter, the record \<open>EVP\<close> of the functions the class calls, over a type \<open>'x\<close> of cipher
  contexts.  A call that OpenSSL reports as failed returns \<^term>\<open>None\<close> in its output; the
  class then returns an empty string.
\<close>

section \<open>The functions of OpenSSL\<close>

record 'x EVP =
  evp_get_cipherbyname :: "string \<Rightarrow> bool"
  evp_bytes_to_key :: "string \<Rightarrow> string \<Rightarrow> int \<Rightarrow> string \<times> string"
  evp_encrypt_init_key :: "string \<Rightarrow> string \<Rightarrow> 'x"
  evp_encrypt_init :: "'x \<Rightarrow> 'x"
  evp_encrypt_update :: "'x \<Rightarrow> string \<Rightarrow> string option \<times> 'x"
  evp_encrypt_final :: "'x \<Rightarrow> string option \<times> 'x"
  evp_decrypt_init_key :: "string \<Rightarrow> string \<Rightarrow> 'x"
  evp_decrypt_init :: "'x \<Rightarrow> 'x"
  evp_decrypt_update :: "'x \<Rightarrow> string \<Rightarrow> string option \<times> 'x"
  evp_decrypt_final :: "'x \<Rightarrow> string option \<times> 'x"

section \<open>The class Encrypter\<close>

record 'x Encrypter =
  encryptingContext :: 'x
  decryptingContext :: 'x
  refreshEncryptContext :: bool
  refreshDecryptContext :: bool

text \<open>
  The constructor with \<open>initContext\<close>: key and initialisation vector are derived from the
  secret with its terminating zero byte; a missing cipher throws \<open>SSLException\<close>.
\<close>

definition Encrypter_new :: "'x EVP \<Rightarrow> Encryption \<Rightarrow> 'x Encrypter option" where
  "Encrypter_new X conf =
     (if \<not> evp_get_cipherbyname X ''aes-256-cbc'' then None
      else let (aes_key, aes_iv) = evp_bytes_to_key X (salt conf) (secret conf @ [CHR 0x00]) (rounds conf)
           in Some \<lparr>encryptingContext = evp_encrypt_init_key X aes_key aes_iv,
                    decryptingContext = evp_decrypt_init_key X aes_key aes_iv,
                    refreshEncryptContext = False, refreshDecryptContext = False\<rparr>)"

definition Encrypter_valid :: "'x Encrypter \<Rightarrow> bool" where
  "Encrypter_valid e = True"

text \<open>
  \<open>int outlen = value.size()\<close> keeps 32 bits of the size; a negative length makes the
  allocation of the output throw.
\<close>

definition encrypt_execute :: "'x EVP \<Rightarrow> string \<Rightarrow> 'x Encrypter \<Rightarrow> (string \<times> 'x Encrypter) option" where
  "encrypt_execute X v e =
     (let outlen = to_int32 (int (length v)) in
      if outlen < 0 then None
      else
        let ctx = (if refreshEncryptContext e then evp_encrypt_init X (encryptingContext e)
                   else encryptingContext e);
            (out, ctx1) = evp_encrypt_update X ctx (take (nat outlen) v);
            e1 = e\<lparr>encryptingContext := ctx1, refreshEncryptContext := True\<rparr>
        in case out of
             None \<Rightarrow> Some ([], e1)
           | Some o1 \<Rightarrow>
               let (fin, ctx2) = evp_encrypt_final X ctx1; e2 = e1\<lparr>encryptingContext := ctx2\<rparr>
               in (case fin of None \<Rightarrow> Some ([], e2) | Some o2 \<Rightarrow> Some (o1 @ o2, e2)))"

definition encrypt :: "'x EVP \<Rightarrow> string \<Rightarrow> 'x Encrypter \<Rightarrow> (string \<times> 'x Encrypter) option" where
  "encrypt X v e = (if v = [] then Some ([], e) else encrypt_execute X v e)"

definition decrypt_execute :: "'x EVP \<Rightarrow> string \<Rightarrow> 'x Encrypter \<Rightarrow> (string \<times> 'x Encrypter) option" where
  "decrypt_execute X sec e =
     (let outlen = to_int32 (int (length sec)) in
      if outlen < 0 then None
      else
        let ctx = (if refreshDecryptContext e then evp_decrypt_init X (decryptingContext e)
                   else decryptingContext e);
            (out, ctx1) = evp_decrypt_update X ctx (take (nat outlen) sec);
            e1 = e\<lparr>decryptingContext := ctx1, refreshDecryptContext := True\<rparr>
        in case out of
             None \<Rightarrow> Some ([], e1)
           | Some o1 \<Rightarrow>
               let (fin, ctx2) = evp_decrypt_final X ctx1; e2 = e1\<lparr>decryptingContext := ctx2\<rparr>
               in (case fin of None \<Rightarrow> Some ([], e2) | Some o2 \<Rightarrow> Some (o1 @ o2, e2)))"

definition decrypt :: "'x EVP \<Rightarrow> string \<Rightarrow> 'x Encrypter \<Rightarrow> (string \<times> 'x Encrypter) option" where
  "decrypt X sec e = (if sec = [] then Some ([], e) else decrypt_execute X sec e)"

section \<open>What the class relies on\<close>

text \<open>
  The documented behaviour of a cipher with padding: from a context that was just initialised
  (\<open>enc_ready\<close>, \<open>dec_ready\<close>) one update and the final call produce \<open>ciph v\<close>, respectively \<open>v\<close>
  from \<open>ciph v\<close>; afterwards (\<open>enc_used\<close>, \<open>dec_used\<close>) the context can be initialised again with
  the key it has.  The output is never empty and at most one block longer than the input.
\<close>

locale cipher =
  fixes X :: "'x EVP"
    and ciph :: "string \<Rightarrow> string"
    and enc_ready enc_used dec_ready dec_used :: "'x \<Rightarrow> bool"
  assumes encrypts: "enc_ready x \<Longrightarrow> v \<noteq> [] \<Longrightarrow> \<exists>o1 x1 o2 x2.
      evp_encrypt_update X x v = (Some o1, x1) \<and> evp_encrypt_final X x1 = (Some o2, x2) \<and>
      o1 @ o2 = ciph v \<and> enc_used x2"
    and decrypts: "dec_ready x \<Longrightarrow> v \<noteq> [] \<Longrightarrow> \<exists>o1 x1 o2 x2.
      evp_decrypt_update X x (ciph v) = (Some o1, x1) \<and> evp_decrypt_final X x1 = (Some o2, x2) \<and>
      o1 @ o2 = v \<and> dec_used x2"
    and encrypt_again: "enc_used x \<Longrightarrow> enc_ready (evp_encrypt_init X x)"
    and decrypt_again: "dec_used x \<Longrightarrow> dec_ready (evp_decrypt_init X x)"
    and ciph_nonempty: "v \<noteq> [] \<Longrightarrow> ciph v \<noteq> []"
    and ciph_length: "length (ciph v) \<le> length v + 16"
begin

text \<open>The contexts are ready, or will be after the refresh that the flags ask for.\<close>

definition encrypter_ok :: "'x Encrypter \<Rightarrow> bool" where
  "encrypter_ok e \<longleftrightarrow>
     (if refreshEncryptContext e then enc_used (encryptingContext e) else enc_ready (encryptingContext e)) \<and>
     (if refreshDecryptContext e then dec_used (decryptingContext e) else dec_ready (decryptingContext e))"

text \<open>What is stored for a value: empty values are not encrypted.\<close>

definition cipher_text :: "string \<Rightarrow> string" where
  "cipher_text v = (if v = [] then [] else ciph v)"

lemma cipher_text_Nil [simp]: "cipher_text v = [] \<longleftrightarrow> v = []"
  by (simp add: cipher_text_def ciph_nonempty)

lemma to_int32_length: "length v < 2 ^ 31 \<Longrightarrow> to_int32 (int (length v)) = int (length v)"
  by (rule to_int32_small) auto

lemma encrypt_ok:
  assumes ok: "encrypter_ok e" and len: "length v < 2 ^ 31"
  shows "\<exists>e'. encrypt X v e = Some (cipher_text v, e') \<and> encrypter_ok e'"
proof (cases "v = []")
  case True
  with ok show ?thesis by (simp add: encrypt_def cipher_text_def)
next
  case False
  define x where "x = (if refreshEncryptContext e then evp_encrypt_init X (encryptingContext e)
    else encryptingContext e)"
  have "enc_ready x" using ok encrypt_again by (simp add: encrypter_ok_def x_def)
  from encrypts [OF this False] obtain o1 x1 o2 x2 where
    step: "evp_encrypt_update X x v = (Some o1, x1)" "evp_encrypt_final X x1 = (Some o2, x2)"
    and out: "o1 @ o2 = ciph v" and used: "enc_used x2" by blast
  have "encrypt X v e = Some (o1 @ o2, e\<lparr>encryptingContext := x2, refreshEncryptContext := True\<rparr>)"
    using False len
    by (simp add: encrypt_def encrypt_execute_def to_int32_length Let_def step flip: x_def)
  with False ok used out show ?thesis by (simp add: cipher_text_def encrypter_ok_def)
qed

lemma decrypt_ok:
  assumes ok: "encrypter_ok e" and len: "length v + 16 < 2 ^ 31"
  shows "\<exists>e'. decrypt X (cipher_text v) e = Some (v, e') \<and> encrypter_ok e'"
proof (cases "v = []")
  case True
  with ok show ?thesis by (simp add: decrypt_def cipher_text_def)
next
  case False
  define x where "x = (if refreshDecryptContext e then evp_decrypt_init X (decryptingContext e)
    else decryptingContext e)"
  have "dec_ready x" using ok decrypt_again by (simp add: encrypter_ok_def x_def)
  from decrypts [OF this False] obtain o1 x1 o2 x2 where
    step: "evp_decrypt_update X x (ciph v) = (Some o1, x1)" "evp_decrypt_final X x1 = (Some o2, x2)"
    and out: "o1 @ o2 = v" and used: "dec_used x2" by blast
  have "length (ciph v) < 2 ^ 31" using len ciph_length [of v] by linarith
  then have "decrypt X (ciph v) e = Some (o1 @ o2, e\<lparr>decryptingContext := x2, refreshDecryptContext := True\<rparr>)"
    using ciph_nonempty [OF False]
    by (simp add: decrypt_def decrypt_execute_def to_int32_length Let_def step flip: x_def)
  with False ok used out show ?thesis by (simp add: cipher_text_def encrypter_ok_def)
qed

end

text \<open>
  An instance with which the theorems are applied to concrete inputs: a context collects the
  text it is given, and the final call returns the text reversed behind a padding byte.
\<close>

definition rev_evp :: "string EVP" where
  "rev_evp = \<lparr>evp_get_cipherbyname = (\<lambda>n. n = ''aes-256-cbc''),
     evp_bytes_to_key = (\<lambda>s k r. (k, s)),
     evp_encrypt_init_key = (\<lambda>k i. []), evp_encrypt_init = (\<lambda>x. []),
     evp_encrypt_update = (\<lambda>x v. (Some [], x @ v)),
     evp_encrypt_final = (\<lambda>x. (Some (CHR ''#'' # rev x), x)),
     evp_decrypt_init_key = (\<lambda>k i. []), evp_decrypt_init = (\<lambda>x. []),
     evp_decrypt_update = (\<lambda>x v. (Some [], x @ v)),
     evp_decrypt_final = (\<lambda>x. (Some (rev (tl x)), x))\<rparr>"

interpretation rev_cipher: cipher rev_evp "\<lambda>v. CHR ''#'' # rev v" "\<lambda>x. x = []" "\<lambda>x. True"
  "\<lambda>x. x = []" "\<lambda>x. True"
  by unfold_locales (simp_all add: rev_evp_def)

end
