(* ===== verification/RocksDB.thy ===== *)
theory RocksDB
  imports Prelude "HOL-Library.AList"
begin

text \<open>
  RocksDB and the flatbuffers codec of tree nodes are libraries: they are parameters of the
  model.  This theory names the functions the storage calls, states the documented behaviour
  the proofs rely on as the locales \<open>rocksdb\<close>, \<open>rocksdb_healthy\<close> and \<open>node_codec\<close>, and gives
  an in-memory instance of each, with which the theorems are applied to concrete inputs.
\<close>

section \<open>The functions of the library\<close>

text \<open>The column families in the order of the vector \<open>handles\<close> of the storage.\<close>

datatype column = DefaultColumn | Data | Forrest | Expiration | Expiring | CacheColumn

datatype Status = OkStatus | NotFound | Failed string

fun ok :: "Status \<Rightarrow> bool" where
  "ok OkStatus = True"
| "ok _ = False"

fun IsNotFound :: "Status \<Rightarrow> bool" where
  "IsNotFound NotFound = True"
| "IsNotFound _ = False"

lemma ok_iff [simp]: "ok s \<longleftrightarrow> s = OkStatus"
  by (cases s) auto

lemma IsNotFound_iff [simp]: "IsNotFound s \<longleftrightarrow> s = NotFound"
  by (cases s) auto

text \<open>
  The type \<open>'s\<close> is the state of a database with its transactions, \<open>'t\<close> a transaction handle.
  \<open>db_Iterate\<close> is the list of entries an iterator with an upper bound walks through.
\<close>

record ('s, 't) RocksDB =
  BeginTransaction :: "'s \<Rightarrow> 't option \<Rightarrow> 't \<times> 's"
  txn_Get :: "'s \<Rightarrow> 't \<Rightarrow> column \<Rightarrow> string \<Rightarrow> Status \<times> string"
  txn_Put :: "'s \<Rightarrow> 't \<Rightarrow> column \<Rightarrow> string \<Rightarrow> string \<Rightarrow> Status \<times> 's"
  txn_Delete :: "'s \<Rightarrow> 't \<Rightarrow> column \<Rightarrow> string \<Rightarrow> Status \<times> 's"
  txn_Commit :: "'s \<Rightarrow> 't \<Rightarrow> Status \<times> 's"
  txn_Rollback :: "'s \<Rightarrow> 't \<Rightarrow> Status \<times> 's"
  db_Get :: "'s \<Rightarrow> column \<Rightarrow> string \<Rightarrow> Status \<times> string"
  db_MultiGet :: "'s \<Rightarrow> column \<Rightarrow> string list \<Rightarrow> (Status \<times> string) list"
  db_Iterate :: "'s \<Rightarrow> column \<Rightarrow> string \<Rightarrow> (string \<times> string) list"
  db_Close :: "'s \<Rightarrow> 's"
  db_Open :: "'s \<Rightarrow> Status \<times> 's"

section \<open>What the storage relies on\<close>

type_synonym tables = "column \<Rightarrow> string \<Rightarrow> string option"
type_synonym writes = "column \<Rightarrow> string \<Rightarrow> string option option"

definition tset :: "column \<Rightarrow> string \<Rightarrow> 'a \<Rightarrow> (column \<Rightarrow> string \<Rightarrow> 'a) \<Rightarrow> column \<Rightarrow> string \<Rightarrow> 'a" where
  "tset c k w f = f(c := (f c)(k := w))"

lemma tset_apply [simp]: "tset c k w f c' k' = (if c' = c \<and> k' = k then w else f c' k')"
  by (simp add: tset_def)

lemma tset_same_column: "tset c k w f c = (f c)(k := w)"
  by (simp add: tset_def)

lemma tset_other_column [simp]: "c' \<noteq> c \<Longrightarrow> tset c k w f c' = f c'"
  by (simp add: tset_def)

text \<open>What a transaction reads: its own writes over the committed tables.\<close>

definition overlay :: "tables \<Rightarrow> writes \<Rightarrow> tables" where
  "overlay b w c k = (case w c k of None \<Rightarrow> b c k | Some v \<Rightarrow> v)"

lemma overlay_nothing [simp]: "overlay b (\<lambda>_ _. None) = b"
  by (simp add: overlay_def fun_eq_iff)

lemma overlay_tset: "overlay b (tset c k (Some v) w) = tset c k v (overlay b w)"
  by (auto simp: overlay_def fun_eq_iff)

locale rocksdb =
  fixes R :: "('s, 't) RocksDB"
    and base :: "'s \<Rightarrow> tables"
    and pending :: "'s \<Rightarrow> 't \<Rightarrow> writes"
  assumes begin_txn: "BeginTransaction R s old = (t, s') \<Longrightarrow> base s' = base s \<and> pending s' t = (\<lambda>_ _. None)"
    and txn_get_ok: "txn_Get R s t c k = (OkStatus, v) \<Longrightarrow> overlay (base s) (pending s t) c k = Some v"
    and txn_get_notfound: "txn_Get R s t c k = (NotFound, v) \<Longrightarrow> overlay (base s) (pending s t) c k = None"
    and put_ok: "txn_Put R s t c k v = (OkStatus, s') \<Longrightarrow>
      base s' = base s \<and> pending s' t = tset c k (Some (Some v)) (pending s t)"
    and put_failed: "txn_Put R s t c k v = (st, s') \<Longrightarrow> st \<noteq> OkStatus \<Longrightarrow>
      base s' = base s \<and> pending s' t = pending s t"
    and delete_ok: "txn_Delete R s t c k = (OkStatus, s') \<Longrightarrow>
      base s' = base s \<and> pending s' t = tset c k (Some None) (pending s t)"
    and delete_failed: "txn_Delete R s t c k = (st, s') \<Longrightarrow> st \<noteq> OkStatus \<Longrightarrow>
      base s' = base s \<and> pending s' t = pending s t"
    and commit_ok: "txn_Commit R s t = (OkStatus, s') \<Longrightarrow> base s' = overlay (base s) (pending s t)"
    and commit_failed: "txn_Commit R s t = (st, s') \<Longrightarrow> st \<noteq> OkStatus \<Longrightarrow> base s' = base s"
    and rollback_base: "txn_Rollback R s t = (st, s') \<Longrightarrow> base s' = base s"
    and rollback_ok: "txn_Rollback R s t = (OkStatus, s') \<Longrightarrow> pending s' t = (\<lambda>_ _. None)"
    and get_ok: "db_Get R s c k = (OkStatus, v) \<Longrightarrow> base s c k = Some v"
    and get_notfound: "db_Get R s c k = (NotFound, v) \<Longrightarrow> base s c k = None"
    and multiget: "db_MultiGet R s c ks = map (db_Get R s c) ks"
    and iterate: "set (db_Iterate R s c b) = {(k, v). base s c k = Some v \<and> k < b}"
    and iterate_sorted: "sorted (map fst (db_Iterate R s c b)) \<and> distinct (map fst (db_Iterate R s c b))"
    and close_base: "base (db_Close R s) = base s"
    and open_base: "db_Open R s = (OkStatus, s') \<Longrightarrow> base s' = base s"
begin

definition view :: "'s \<Rightarrow> 't \<Rightarrow> tables" where
  "view s t = overlay (base s) (pending s t)"

lemma view_begin:
  "BeginTransaction R s old = (t, s') \<Longrightarrow> base s' = base s \<and> view s' t = base s"
  using begin_txn by (fastforce simp: view_def)

lemma view_get:
  assumes "txn_Get R s t c k = (st, v)"
  shows "st = OkStatus \<Longrightarrow> view s t c k = Some v" and "st = NotFound \<Longrightarrow> view s t c k = None"
  using assms txn_get_ok txn_get_notfound by (auto simp: view_def)

lemma view_put:
  assumes "txn_Put R s t c k v = (st, s')"
  shows "base s' = base s"
    and "view s' t = (if st = OkStatus then tset c k (Some v) (view s t) else view s t)"
  using assms put_ok [of s t c k v s'] put_failed [of s t c k v st s']
  by (cases "st = OkStatus"; simp add: view_def overlay_tset)+

lemma view_delete:
  assumes "txn_Delete R s t c k = (st, s')"
  shows "base s' = base s"
    and "view s' t = (if st = OkStatus then tset c k None (view s t) else view s t)"
  using assms delete_ok [of s t c k s'] delete_failed [of s t c k st s']
  by (cases "st = OkStatus"; simp add: view_def overlay_tset)+

lemma base_commit:
  "txn_Commit R s t = (st, s') \<Longrightarrow> base s' = (if st = OkStatus then view s t else base s)"
  using commit_ok commit_failed by (auto simp: view_def)

lemma base_rollback [simp]: "base (snd (txn_Rollback R s t)) = base s"
  using rollback_base by (metis prod.collapse)

end

text \<open>The same library when no call fails: every status is \<open>OK\<close> or \<open>NotFound\<close>.\<close>

locale rocksdb_healthy = rocksdb R base pending
  for R :: "('s, 't) RocksDB" and base :: "'s \<Rightarrow> tables" and pending :: "'s \<Rightarrow> 't \<Rightarrow> writes" +
  assumes txn_get_healthy: "fst (txn_Get R s t c k) \<in> {OkStatus, NotFound}"
    and put_healthy: "fst (txn_Put R s t c k v) = OkStatus"
    and delete_healthy: "fst (txn_Delete R s t c k) = OkStatus"
    and commit_healthy: "fst (txn_Commit R s t) = OkStatus"
    and get_healthy: "fst (db_Get R s c k) \<in> {OkStatus, NotFound}"
begin

lemma get_some: "base s c k = Some v \<Longrightarrow> db_Get R s c k = (OkStatus, v)"
  using get_healthy [of s c k] get_ok [of s c k] get_notfound [of s c k]
  by (cases "db_Get R s c k") fastforce

lemma get_none: "base s c k = None \<Longrightarrow> fst (db_Get R s c k) = NotFound"
  using get_healthy [of s c k] get_ok [of s c k] get_notfound [of s c k]
  by (cases "db_Get R s c k") fastforce

lemma txn_get_some: "view s t c k = Some v \<Longrightarrow> txn_Get R s t c k = (OkStatus, v)"
  using txn_get_healthy [of s t c k] view_get [of s t c k]
  by (cases "txn_Get R s t c k") fastforce

lemma txn_get_none: "view s t c k = None \<Longrightarrow> fst (txn_Get R s t c k) = NotFound"
  using txn_get_healthy [of s t c k] view_get [of s t c k]
  by (cases "txn_Get R s t c k") fastforce

end

section \<open>An instance in memory\<close>

record mem =
  m_base :: "column \<Rightarrow> (string \<times> string) list"
  m_txn :: "nat \<Rightarrow> ((column \<times> string) \<times> string option) list"
  m_next :: nat

definition mem_empty :: mem where
  "mem_empty = \<lparr>m_base = (\<lambda>_. []), m_txn = (\<lambda>_. []), m_next = 0\<rparr>"

definition mem_lookup :: "string option \<Rightarrow> Status \<times> string" where
  "mem_lookup r = (case r of None \<Rightarrow> (NotFound, []) | Some v \<Rightarrow> (OkStatus, v))"

definition mem_table :: "mem \<Rightarrow> tables" where
  "mem_table s c k = map_of (m_base s c) k"

definition mem_writes :: "mem \<Rightarrow> nat \<Rightarrow> writes" where
  "mem_writes s t c k = map_of (m_txn s t) (c, k)"

definition mem_write :: "mem \<Rightarrow> nat \<Rightarrow> column \<Rightarrow> string \<Rightarrow> string option \<Rightarrow> mem" where
  "mem_write s t c k w = s\<lparr>m_txn := (m_txn s)(t := ((c, k), w) # m_txn s t)\<rparr>"

fun mem_apply :: "((column \<times> string) \<times> string option) list \<Rightarrow>
    (column \<Rightarrow> (string \<times> string) list) \<Rightarrow> column \<Rightarrow> (string \<times> string) list" where
  "mem_apply [] b = b"
| "mem_apply (((c, k), w) # ws) b =
     (let b' = mem_apply ws b
      in b'(c := (case w of None \<Rightarrow> AList.delete k (b' c) | Some v \<Rightarrow> AList.update k v (b' c))))"

definition mem_rocksdb :: "(mem, nat) RocksDB" where
  "mem_rocksdb = \<lparr>
     BeginTransaction = (\<lambda>s old. let t = (case old of None \<Rightarrow> m_next s | Some t \<Rightarrow> t)
       in (t, s\<lparr>m_txn := (m_txn s)(t := []), m_next := max (m_next s) (Suc t)\<rparr>)),
     txn_Get = (\<lambda>s t c k. mem_lookup (overlay (mem_table s) (mem_writes s t) c k)),
     txn_Put = (\<lambda>s t c k v. (OkStatus, mem_write s t c k (Some v))),
     txn_Delete = (\<lambda>s t c k. (OkStatus, mem_write s t c k None)),
     txn_Commit = (\<lambda>s t. (OkStatus, s\<lparr>m_base := mem_apply (m_txn s t) (m_base s)\<rparr>)),
     txn_Rollback = (\<lambda>s t. (OkStatus, s\<lparr>m_txn := (m_txn s)(t := [])\<rparr>)),
     db_Get = (\<lambda>s c k. mem_lookup (mem_table s c k)),
     db_MultiGet = (\<lambda>s c ks. map (\<lambda>k. mem_lookup (mem_table s c k)) ks),
     db_Iterate = (\<lambda>s c b. map (\<lambda>k. (k, the (mem_table s c k)))
       (sort (remdups (filter (\<lambda>k. k < b) (map fst (m_base s c)))))),
     db_Close = (\<lambda>s. s\<lparr>m_txn := (\<lambda>_. []), m_next := 0\<rparr>),
     db_Open = (\<lambda>s. (OkStatus, s))\<rparr>"

lemma mem_lookup_simps [simp]:
  "mem_lookup r = (OkStatus, v) \<longleftrightarrow> r = Some v"
  "mem_lookup r = (NotFound, v) \<longleftrightarrow> r = None \<and> v = []"
  "fst (mem_lookup r) = OkStatus \<or> fst (mem_lookup r) = NotFound"
  by (auto simp: mem_lookup_def split: option.splits)

lemma mem_table_apply:
  "map_of (mem_apply ws b c) k = (case map_of ws (c, k) of None \<Rightarrow> map_of (b c) k | Some w \<Rightarrow> w)"
  by (induction ws b rule: mem_apply.induct)
    (auto simp: Let_def update_conv' delete_conv' split: option.splits)

lemma mem_iterate_set:
  "set (db_Iterate mem_rocksdb s c b) = {(k, v). mem_table s c k = Some v \<and> k < b}"
proof -
  have "k \<in> fst ` set (m_base s c) \<longleftrightarrow> (\<exists>v. mem_table s c k = Some v)" for k
    unfolding mem_table_def by (metis map_of_eq_None_iff not_None_eq)
  then show ?thesis by (auto simp: mem_rocksdb_def)
qed

lemma mem_iterate_sorted:
  "sorted (map fst (db_Iterate mem_rocksdb s c b)) \<and> distinct (map fst (db_Iterate mem_rocksdb s c b))"
  by (simp add: mem_rocksdb_def comp_def)

interpretation mem: rocksdb_healthy mem_rocksdb mem_table mem_writes
proof (unfold_locales, goal_cases)
  case (8 s t s')
  then show ?case
    by (auto simp: mem_rocksdb_def mem_table_def overlay_def mem_writes_def mem_table_apply fun_eq_iff
        split: option.splits)
next
  case (15 s c b)
  then show ?case by (rule mem_iterate_set)
next
  case (16 s c b)
  then show ?case by (rule mem_iterate_sorted)
qed (auto simp: mem_rocksdb_def mem_write_def mem_table_def mem_writes_def Let_def fun_eq_iff)

section \<open>The codec of tree nodes\<close>

record NodeCodec =
  CreateNode :: "string list \<Rightarrow> string"
  GetNode :: "string \<Rightarrow> string list option"

locale node_codec =
  fixes N :: NodeCodec
  assumes get_create: "GetNode N (CreateNode N xs) = Some xs"

text \<open>An instance: each child is written behind its length in unary.\<close>

definition unary_item :: "string \<Rightarrow> string" where
  "unary_item x = replicate (length x) (CHR ''1'') @ CHR ''0'' # x"

function unary_decode :: "string \<Rightarrow> string list" where
  "unary_decode s =
     (if s = [] then []
      else let n = length (takeWhile (\<lambda>c. c = CHR ''1'') s)
           in take n (drop (Suc n) s) # unary_decode (drop (n + Suc n) s))"
  by pat_completeness auto
termination
  by (relation "measure length") auto

declare unary_decode.simps [simp del]

definition unary_codec :: NodeCodec where
  "unary_codec = \<lparr>CreateNode = (\<lambda>xs. concat (map unary_item xs)), GetNode = (\<lambda>s. Some (unary_decode s))\<rparr>"

lemma takeWhile_replicate_end:
  "b \<noteq> a \<Longrightarrow> takeWhile (\<lambda>c. c = a) (replicate n a @ b # ys) = replicate n a"
  by (induction n) auto

lemma unary_decode_item: "unary_decode (unary_item x @ rest) = x # unary_decode rest"
proof -
  have "takeWhile (\<lambda>c. c = CHR ''1'') (unary_item x @ rest) = replicate (length x) (CHR ''1'')"
    by (simp add: unary_item_def takeWhile_replicate_end)
  then show ?thesis
    by (subst unary_decode.simps) (simp add: unary_item_def Let_def)
qed

interpretation unary: node_codec unary_codec
proof
  fix xs
  have "unary_decode (concat (map unary_item xs)) = xs"
    by (induction xs) (simp_all add: unary_decode_item unary_decode.simps [of "[]"])
  then show "GetNode unary_codec (CreateNode unary_codec xs) = Some xs"
    by (simp add: unary_codec_def)
qed

end
