(* ===== verification/Tree.thy ===== *)
theory Tree
  imports RocksDB
begin

text \<open>
  The hierarchy of keys: \<open>treeComponents\<close>, \<open>manageTree\<close>, \<open>addChild\<close>, \<open>createChild\<close>,
  \<open>removeChild\<close> and \<open>removeChildNode\<close> of \<open>src/lib/db/storage.cpp\<close>.  A node of the column
  \<open>forrest\<close> holds the names of the children of a path.
\<close>

section \<open>The operations\<close>

abbreviation slash :: char where
  "slash \<equiv> CHR ''/''"

text \<open>
  The loop of \<open>treeComponents\<close>, with the 64-bit arithmetic on positions of the source: when no
  further slash exists \<open>index\<close> becomes \<open>npos\<close> and \<open>index + 1\<close> is 0.
\<close>

function treeComponents_loop ::
  "string \<Rightarrow> nat \<Rightarrow> (string \<times> string) list \<Rightarrow> (string \<times> string) list option" where
  "treeComponents_loop key index tuples =
     (if npos \<le> index then Some tuples
      else do {
        tuples \<leftarrow> (if index = 0 then do {
            let idx = sv_find key slash (sz_add index 1);
            path \<leftarrow> sv_substr key 0 (sz_add index 1);
            child \<leftarrow> sv_substr key (sz_add index 1) (sz_sub (sz_sub idx index) 1);
            Some (tuples @ [(path, child)]) }
          else Some tuples);
        let index' = sv_find key slash (sz_add index 1);
        tuples \<leftarrow> (if sz_add index' 1 < length key then do {
            let idx = sv_find key slash (sz_add index' 1);
            sub \<leftarrow> (if idx \<noteq> npos then sv_substr key (sz_add index' 1) (sz_sub (sz_sub idx index') 1)
                    else sv_substr key (sz_add index' 1) (sz_sub (sz_sub (length key) index') 1));
            if sub \<noteq> [] then do {
              path \<leftarrow> sv_substr key 0 index';
              Some (tuples @ [(path, sub)]) }
            else Some tuples }
          else Some tuples);
        treeComponents_loop key index' tuples })"
  by pat_completeness auto
termination
proof (relation "measure (\<lambda>(key, index, tuples). npos - index)", goal_cases)
  case 1
  show ?case by simp
next
  case (2 key index tuples)
  then have "sz_add index 1 = index + 1" by (simp add: sv_simps)
  moreover have "index + 1 \<le> sv_find key slash (index + 1)"
    using 2 by (auto simp: sv_find_def split: option.splits)
  ultimately show ?case using 2 by auto
qed

declare treeComponents_loop.simps [simp del]

definition treeComponents :: "string \<Rightarrow> (string \<times> string) list option" where
  "treeComponents key = treeComponents_loop key 0 []"

definition createChild ::
  "('s, 't) RocksDB \<Rightarrow> NodeCodec \<Rightarrow> string \<Rightarrow> string \<Rightarrow> 't \<Rightarrow> 's \<Rightarrow> bool \<times> 's" where
  "createChild R N path child txn s =
     (let (st, s') = txn_Put R s txn Forrest path (CreateNode N [child]) in (ok st, s'))"

text \<open>\<open>std::set\<close> of the children: sorted and without duplicates.\<close>

definition addChild ::
  "('s, 't) RocksDB \<Rightarrow> NodeCodec \<Rightarrow> string \<Rightarrow> string \<Rightarrow> string \<Rightarrow> 't \<Rightarrow> 's \<Rightarrow> bool \<times> 's" where
  "addChild R N path child value txn s =
     (case GetNode N value of
        None \<Rightarrow> (False, s)
      | Some response \<Rightarrow>
          let children = sort (remdups response)
          in if child \<in> set children then (True, s)
             else let (st, s') = txn_Put R s txn Forrest path (CreateNode N (insort child children))
                  in (ok st, s'))"

fun manageTree_loop ::
  "('s, 't) RocksDB \<Rightarrow> NodeCodec \<Rightarrow> (string \<times> string) list \<Rightarrow> 't \<Rightarrow> 's \<Rightarrow> bool \<times> 's" where
  "manageTree_loop R N [] txn s = (True, s)"
| "manageTree_loop R N ((path, child) # tuples) txn s =
     (let (st, value) = txn_Get R s txn Forrest path
      in if ok st then
           (let (done, s') = addChild R N path child value txn s
            in if done then manageTree_loop R N tuples txn s' else (False, s'))
         else if IsNotFound st then
           (let (done, s') = createChild R N path child txn s
            in if done then manageTree_loop R N tuples txn s' else (False, s'))
         else (False, s))"

definition manageTree ::
  "('s, 't) RocksDB \<Rightarrow> NodeCodec \<Rightarrow> string \<Rightarrow> 't \<Rightarrow> 's \<Rightarrow> (bool \<times> 's) option" where
  "manageTree R N key txn s = do {
     tuples \<leftarrow> treeComponents key;
     if tuples = [] then Some (True, s) else Some (manageTree_loop R N tuples txn s) }"

text \<open>The pair of \<open>removeChildNode\<close>: success, and whether the node became empty.\<close>

definition removeChildNode ::
  "('s, 't) RocksDB \<Rightarrow> NodeCodec \<Rightarrow> string \<Rightarrow> string \<Rightarrow> string \<Rightarrow> 't \<Rightarrow> 's \<Rightarrow> (bool \<times> bool) \<times> 's" where
  "removeChildNode R N path child value txn s =
     (case GetNode N value of
        None \<Rightarrow> ((True, False), s)
      | Some response \<Rightarrow>
          let vec = filter (\<lambda>item. child \<noteq> item) response
          in if vec = [] then
               (let (st, s') = txn_Delete R s txn Forrest path
                in if ok st then ((True, True), s') else ((False, False), s'))
             else
               (let (st, s') = txn_Put R s txn Forrest path (CreateNode N vec)
                in if ok st then ((True, False), s') else ((False, False), s')))"

text \<open>The loop runs over the tuples from the last to the first.\<close>

fun removeChild_loop ::
  "('s, 't) RocksDB \<Rightarrow> NodeCodec \<Rightarrow> (string \<times> string) list \<Rightarrow> 't \<Rightarrow> 's \<Rightarrow> bool \<times> 's" where
  "removeChild_loop R N [] txn s = (True, s)"
| "removeChild_loop R N ((path, child) # tuples) txn s =
     (let (st, value) = txn_Get R s txn Forrest path
      in if ok st then
           (let ((status, is_empty), s') = removeChildNode R N path child value txn s
            in if \<not> status then (False, s')
               else if \<not> is_empty then (True, s')
               else if ok (fst (txn_Get R s' txn Data path)) then (True, s')
               else removeChild_loop R N tuples txn s')
         else if IsNotFound st then (True, s)
         else (False, s))"

definition removeChild ::
  "('s, 't) RocksDB \<Rightarrow> NodeCodec \<Rightarrow> string \<Rightarrow> 't \<Rightarrow> 's \<Rightarrow> (bool \<times> 's) option" where
  "removeChild R N key txn s = do {
     tuples \<leftarrow> treeComponents key;
     if tuples = [] then Some (True, s) else Some (removeChild_loop R N (rev tuples) txn s) }"

section \<open>Paths\<close>

text \<open>
  A well-formed key is a non-empty sequence of names, each non-empty and free of slashes, each
  written behind a slash.
\<close>

definition path_of :: "string list \<Rightarrow> string" where
  "path_of cs = concat (map (\<lambda>c. slash # c) cs)"

definition name_ok :: "string \<Rightarrow> bool" where
  "name_ok c \<longleftrightarrow> c \<noteq> [] \<and> slash \<notin> set c"

definition names_ok :: "string list \<Rightarrow> bool" where
  "names_ok cs \<longleftrightarrow> list_all name_ok cs"

text \<open>The key under which the children of a sequence of names are stored.\<close>

definition node_path :: "string list \<Rightarrow> string" where
  "node_path cs = (if cs = [] then [slash] else path_of cs)"

text \<open>The entries of the tree that a key needs: each name below the path of the names before it.\<close>

fun node_entries :: "string list \<Rightarrow> string list \<Rightarrow> (string \<times> string) list" where
  "node_entries as [] = []"
| "node_entries as (c # cs) = (node_path as, c) # node_entries (as @ [c]) cs"

lemma path_of_simps [simp]:
  "path_of [] = []" "path_of (c # cs) = slash # c @ path_of cs" "path_of (as @ bs) = path_of as @ path_of bs"
  by (simp_all add: path_of_def)

lemma names_ok_simps [simp]:
  "names_ok []" "names_ok (c # cs) \<longleftrightarrow> name_ok c \<and> names_ok cs"
  "names_ok (as @ bs) \<longleftrightarrow> names_ok as \<and> names_ok bs"
  by (auto simp: names_ok_def)

lemma path_of_eq_Nil [simp]: "path_of cs = [] \<longleftrightarrow> cs = []"
  by (cases cs) auto

lemma append_slash_eq:
  assumes "c @ p = d @ q" and "slash \<notin> set c" and "slash \<notin> set d"
    and "p = [] \<or> hd p = slash" and "q = [] \<or> hd q = slash"
  shows "c = d \<and> p = q"
  using assms
proof (induction c arbitrary: d)
  case Nil
  then show ?case by (cases d) auto
next
  case (Cons x c)
  then show ?case by (cases d) auto
qed

lemma hd_path_of: "path_of cs = [] \<or> hd (path_of cs) = slash"
  by (cases cs) auto

lemma path_of_inject:
  "names_ok cs \<Longrightarrow> names_ok ds \<Longrightarrow> path_of cs = path_of ds \<Longrightarrow> cs = ds"
proof (induction cs arbitrary: ds)
  case Nil
  then show ?case by (cases ds) auto
next
  case (Cons c cs)
  then obtain d ds' where ds: "ds = d # ds'" by (cases ds) auto
  have "c = d \<and> path_of cs = path_of ds'"
    using Cons.prems ds hd_path_of by (intro append_slash_eq) (auto simp: name_ok_def)
  with Cons ds show ?case by auto
qed

lemma node_path_inject:
  assumes "names_ok cs" and "names_ok ds" and "node_path cs = node_path ds"
  shows "cs = ds"
proof (cases "cs = [] \<or> ds = []")
  case True
  with assms show ?thesis
    by (cases cs; cases ds) (auto simp: node_path_def name_ok_def)
next
  case False
  with assms path_of_inject show ?thesis by (auto simp: node_path_def)
qed

lemma find_next_slash:
  assumes "name_ok b" and "names_ok cs"
  shows "sv_find (path_of (as @ b # cs)) slash (Suc (length (path_of as))) =
    (if cs = [] then npos else Suc (length (path_of as) + length b))"
proof (cases cs)
  case Nil
  with assms show ?thesis by (simp add: sv_find_notin name_ok_def)
next
  case (Cons c cs')
  have "sv_find ((path_of as @ [slash]) @ b @ slash # c @ path_of cs') slash (length (path_of as @ [slash])) =
      length (path_of as @ [slash]) + length b"
    using assms by (intro sv_find_append) (simp add: name_ok_def)
  with Cons show ?thesis by simp
qed

text \<open>One turn of the loop at the slash in front of the name \<open>b\<close>.\<close>

lemma treeComponents_first:
  assumes "name_ok b" and "names_ok cs" and "length (path_of (b # cs)) < npos"
  shows "sv_substr (path_of (b # cs)) (Suc 0)
    (sz_sub (sz_sub (sv_find (path_of (b # cs)) slash (Suc 0)) 0) (Suc 0)) = Some b"
proof -
  have "sv_find (path_of (b # cs)) slash (Suc 0) = (if cs = [] then npos else Suc (length b))"
    using find_next_slash [OF assms(1,2), of "[]"] by simp
  with assms(3) have "sz_sub (sz_sub (sv_find (path_of (b # cs)) slash (Suc 0)) 0) (Suc 0) =
      (if cs = [] then npos - 1 else length b)"
    by (simp add: sz_sub_small)
  then show ?thesis
    using assms(3) by (cases "cs = []") (simp_all add: sv_substr_def)
qed

lemma treeComponents_last:
  assumes "name_ok b" and "names_ok as" and "length (path_of (as @ [b])) < npos"
    and tuples1: "(if as = [] then tuples @ [([slash], b)] else tuples) = tuples1"
  shows "treeComponents_loop (path_of (as @ [b])) (length (path_of as)) tuples = Some tuples1"
proof -
  let ?key = "path_of (as @ [b])"
  have find: "sv_find ?key slash (Suc (length (path_of as))) = npos"
    using find_next_slash [OF assms(1), of "[]" as] by simp
  have next0: "sz_add (length (path_of as)) (Suc 0) = Suc (length (path_of as))"
    using assms(3) by (simp add: sz_add_small)
  have front: "sv_find ?key slash 0 = 0"
    by (cases as) (simp_all add: sv_find_def)
  have first: "as = [] \<Longrightarrow> sv_substr ?key (Suc 0) (sz_sub (sz_sub npos 0) (Suc 0)) = Some b"
    using treeComponents_first [of b "[]"] assms find by simp
  have stop: "treeComponents_loop ?key npos x = Some x" for x
    by (simp add: treeComponents_loop.simps)
  have sub: "sv_substr ?key 0 (sz_sub (sz_sub 0 npos) (Suc 0)) = Some []"
    using sz_sub_npos by (simp add: sv_substr_def)
  have wrap: "sz_add npos (Suc 0) = 0" using sz_add_npos by simp
  show ?thesis
    using assms(3) tuples1 find next0 first stop sub wrap front
    by (subst treeComponents_loop.simps) (auto simp: Let_def sv_substr_def npos_val)
qed


lemma treeComponents_more:
  assumes ok: "name_ok b" "name_ok c" "names_ok as" "names_ok cs"
    and len: "length (path_of (as @ b # c # cs)) < npos"
    and tuples1: "(if as = [] then tuples @ [([slash], b)] else tuples) = tuples1"
  shows "treeComponents_loop (path_of (as @ b # c # cs)) (length (path_of as)) tuples =
    treeComponents_loop (path_of (as @ b # c # cs)) (length (path_of (as @ [b])))
      (tuples1 @ [(path_of (as @ [b]), c)])"
proof -
  let ?key = "path_of (as @ b # c # cs)"
  let ?m = "length (path_of (as @ [b]))"
  have find: "sv_find ?key slash (Suc (length (path_of as))) = ?m"
    using find_next_slash [of b "c # cs" as] ok by simp
  have find2: "sv_find ?key slash (Suc ?m) = (if cs = [] then npos else Suc (?m + length c))"
    using find_next_slash [of c cs "as @ [b]"] ok by simp
  have next0: "sz_add (length (path_of as)) (Suc 0) = Suc (length (path_of as))"
    and next1: "sz_add ?m (Suc 0) = Suc ?m"
    using len by (simp_all add: sz_add_small)
  have below: "Suc ?m < length ?key" using ok by (simp add: name_ok_def)
  have first: "as = [] \<Longrightarrow> sv_substr ?key (Suc 0) (sz_sub (sz_sub ?m 0) (Suc 0)) = Some b"
    using treeComponents_first [of b "c # cs"] ok len find by simp
  have sub: "(if sv_find ?key slash (Suc ?m) \<noteq> npos
      then sv_substr ?key (Suc ?m) (sz_sub (sz_sub (sv_find ?key slash (Suc ?m)) ?m) (Suc 0))
      else sv_substr ?key (Suc ?m) (sz_sub (sz_sub (length ?key) ?m) (Suc 0))) = Some c"
    using len find2 by (cases "cs = []") (simp_all add: sv_substr_def sz_sub_small)
  have path: "sv_substr ?key 0 ?m = Some (path_of (as @ [b]))"
    by (simp add: sv_substr_def)
  have c: "c \<noteq> []" using ok by (simp add: name_ok_def)
  have front: "as = [] \<Longrightarrow> sv_substr ?key 0 (Suc 0) = Some [slash]"
    by (simp add: sv_substr_def)
  have lt: "\<not> npos \<le> length (path_of as)" using len by simp
  show ?thesis
  proof (cases "as = []")
    case True
    then have z: "length (path_of as) = 0" and t1: "tuples1 = tuples @ [([slash], b)]"
      using tuples1 by simp_all
    show ?thesis
      by (subst treeComponents_loop.simps)
        (use lt t1 find next0 next1 below first [OF True] sub path c front [OF True] in
          \<open>simp only: z if_True if_False Let_def One_nat_def bind.bind_lunit option.simps simp_thms\<close>)
  next
    case False
    then have z: "length (path_of as) \<noteq> 0" by simp
    show ?thesis
      by (subst treeComponents_loop.simps)
        (use lt z False tuples1 find next0 next1 below sub path c in
          \<open>simp only: if_True if_False Let_def One_nat_def bind.bind_lunit option.simps simp_thms\<close>)
  qed
qed

lemma treeComponents_loop_entries:
  assumes "name_ok b" and "names_ok as" and "names_ok cs" and "length (path_of (as @ b # cs)) < npos"
  shows "treeComponents_loop (path_of (as @ b # cs)) (length (path_of as)) tuples =
    Some (tuples @ (if as = [] then [([slash], b)] else []) @ node_entries (as @ [b]) cs)"
  using assms
proof (induction cs arbitrary: as b tuples)
  case Nil
  then show ?case using treeComponents_last [OF _ _ _ refl] by auto
next
  case (Cons c cs)
  then have "treeComponents_loop (path_of ((as @ [b]) @ c # cs)) (length (path_of (as @ [b]))) ts =
      Some (ts @ node_entries ((as @ [b]) @ [c]) cs)" for ts
    using Cons.IH [of c "as @ [b]" ts] by simp
  then show ?case
    using treeComponents_more [of b c as cs tuples, OF _ _ _ _ _ refl] Cons.prems
    by (simp add: node_path_def)
qed

lemma treeComponents_path_of:
  assumes "cs \<noteq> []" and "names_ok cs" and "length (path_of cs) < npos"
  shows "treeComponents (path_of cs) = Some (node_entries [] cs)"
  using assms treeComponents_loop_entries [of "hd cs" "[]" "tl cs" "[]"]
  by (cases cs) (simp_all add: treeComponents_def node_path_def)

text \<open>No key, well-formed or not, makes the loop read outside the key.\<close>

lemma treeComponents_loop_total:
  assumes "key \<noteq> []"
  shows "\<exists>ts. treeComponents_loop key index tuples = Some ts"
proof (induction "npos - index" arbitrary: index tuples rule: less_induct)
  case less
  have len: "Suc 0 \<le> length key" using assms by (cases key) auto
  show ?case
  proof (cases "npos \<le> index")
    case True
    then show ?thesis by (simp add: treeComponents_loop.simps)
  next
    case False
    then have add: "sz_add index (Suc 0) = Suc index" by (simp add: sz_add_small)
    have "Suc index \<le> sv_find key slash (Suc index)"
      using False by (auto simp: sv_find_def split: option.splits)
    then have ih: "\<exists>ts. treeComponents_loop key (sv_find key slash (Suc index)) us = Some ts" for us
      using False by (intro less) linarith
    obtain ts1 where first: "(if index = 0 then do {
            let idx = sv_find key slash (sz_add index 1);
            path \<leftarrow> sv_substr key 0 (sz_add index 1);
            child \<leftarrow> sv_substr key (sz_add index 1) (sz_sub (sz_sub idx index) 1);
            Some (tuples @ [(path, child)]) }
          else Some tuples) = Some ts1"
      using len add by (cases "index = 0") (simp_all add: sv_substr_def Let_def)
    show ?thesis
      by (subst treeComponents_loop.simps, subst first)
        (use False ih add in \<open>simp add: Let_def sv_substr_def\<close>)
  qed
qed

lemma treeComponents_total: "key \<noteq> [] \<Longrightarrow> \<exists>tuples. treeComponents key = Some tuples"
  using treeComponents_loop_total by (auto simp: treeComponents_def)

text \<open>
  On a well-formed key the loop of \<open>treeComponents\<close>, with its wrapping 64-bit positions,
  terminates without an out-of-range access and yields exactly the entries of the tree that the
  key needs: for every name of the key, in order, the path of the names before it and the name.
\<close>

theorem treeComponents_entries:
  assumes "cs \<noteq> []" and "names_ok cs" and "length (path_of cs) < npos"
  shows "treeComponents (path_of cs) = Some (node_entries [] cs)"
  using assms by (rule treeComponents_path_of)

theorem treeComponents_entries_witness:
  "treeComponents ''/key1/key2/key3'' =
    Some [(''/'', ''key1''), (''/key1'', ''key2''), (''/key1/key2'', ''key3'')]"
  using treeComponents_entries [of "[''key1'', ''key2'', ''key3'']"]
  by (simp add: name_ok_def node_path_def npos_val)


section \<open>The tree as a map from paths to children\<close>

text \<open>
  The abstract tree: for a path the list of its children.  \<open>kids_add\<close> is what \<open>manageTree\<close> does
  to it, \<open>kids_remove\<close> what \<open>removeChild\<close> does, where \<open>has_value\<close> tells which paths are keys
  with a value.
\<close>

type_synonym kids = "string \<Rightarrow> string list option"

fun add_kid :: "string \<Rightarrow> string list option \<Rightarrow> string list" where
  "add_kid c None = [c]"
| "add_kid c (Some ks) = (if c \<in> set ks then ks else insort c (sort (remdups ks)))"

fun kids_add :: "(string \<times> string) list \<Rightarrow> kids \<Rightarrow> kids" where
  "kids_add [] G = G"
| "kids_add ((p, c) # es) G = kids_add es (G(p \<mapsto> add_kid c (G p)))"

fun kids_remove :: "(string \<Rightarrow> bool) \<Rightarrow> (string \<times> string) list \<Rightarrow> kids \<Rightarrow> kids" where
  "kids_remove has_value [] G = G"
| "kids_remove has_value ((p, c) # es) G =
     (case G p of
        None \<Rightarrow> G
      | Some ks \<Rightarrow>
          let vec = filter (\<lambda>x. c \<noteq> x) ks
          in if vec \<noteq> [] then G(p \<mapsto> vec)
             else if has_value p then G(p := None)
             else kids_remove has_value es (G(p := None)))"

text \<open>The column \<open>forrest\<close> holds the encodings of the nodes of the abstract tree.\<close>

definition encodes :: "NodeCodec \<Rightarrow> (string \<Rightarrow> string option) \<Rightarrow> kids \<Rightarrow> bool" where
  "encodes N F G \<longleftrightarrow> (\<forall>p. F p = map_option (CreateNode N) (G p))"

lemma fun_upd_fold [simp]: "(\<lambda>a. if a = p then x else f a) = f(p := x)"
  by (simp add: fun_upd_def)

lemma encodes_upd: "encodes N F G \<Longrightarrow> encodes N (F(p \<mapsto> CreateNode N ks)) (G(p \<mapsto> ks))"
  by (simp add: encodes_def)

lemma encodes_del: "encodes N F G \<Longrightarrow> encodes N (F(p := None)) (G(p := None))"
  by (simp add: encodes_def)

locale tree_db = rocksdb R base pending + node_codec N
  for R :: "('s, 't) RocksDB" and base :: "'s \<Rightarrow> tables" and pending :: "'s \<Rightarrow> 't \<Rightarrow> writes"
    and N :: NodeCodec
begin

text \<open>
  A step inside a transaction that touches only the tree: nothing is committed, the other
  columns stay.
\<close>

definition forest_step :: "'t \<Rightarrow> 's \<Rightarrow> 's \<Rightarrow> bool" where
  "forest_step t s s' \<longleftrightarrow> base s' = base s \<and> (\<forall>c. c \<noteq> Forrest \<longrightarrow> view s' t c = view s t c)"

lemma forest_step_refl [simp]: "forest_step t s s"
  by (simp add: forest_step_def)

lemma forest_step_trans: "forest_step t s s1 \<Longrightarrow> forest_step t s1 s2 \<Longrightarrow> forest_step t s s2"
  by (simp add: forest_step_def)

lemma put_forest:
  assumes "txn_Put R s t Forrest p v = (st, s')"
  shows "forest_step t s s'" and "st = OkStatus \<Longrightarrow> view s' t Forrest = (view s t Forrest)(p \<mapsto> v)"
  using view_put [OF assms] by (simp_all add: forest_step_def tset_same_column)

lemma delete_forest:
  assumes "txn_Delete R s t Forrest p = (st, s')"
  shows "forest_step t s s'" and "st = OkStatus \<Longrightarrow> view s' t Forrest = (view s t Forrest)(p := None)"
  using view_delete [OF assms] by (simp_all add: forest_step_def tset_same_column)

lemma createChild_view:
  assumes "createChild R N p c t s = (r, s')" and "encodes N (view s t Forrest) G"
  shows "forest_step t s s'" and "r \<Longrightarrow> encodes N (view s' t Forrest) (G(p \<mapsto> [c]))"
  using assms put_forest [of s t p "CreateNode N [c]"]
  by (auto simp: createChild_def split: prod.splits intro: encodes_upd)

lemma addChild_view:
  assumes "addChild R N p c v t s = (r, s')" and "v = CreateNode N ks" and "G p = Some ks"
    and "encodes N (view s t Forrest) G"
  shows "forest_step t s s'"
    and "r \<Longrightarrow> encodes N (view s' t Forrest) (G(p \<mapsto> add_kid c (Some ks)))"
proof -
  show "forest_step t s s'"
    using assms(1) put_forest(1) by (auto simp: addChild_def assms(2) get_create Let_def
        split: if_splits prod.splits)
  show "encodes N (view s' t Forrest) (G(p \<mapsto> add_kid c (Some ks)))" if r
  proof (cases "c \<in> set ks")
    case True
    with assms show ?thesis by (auto simp: addChild_def get_create fun_upd_idem)
  next
    case False
    obtain st s1 where put: "txn_Put R s t Forrest p (CreateNode N (insort c (sort (remdups ks)))) = (st, s1)"
      by fastforce
    with assms that False have "st = OkStatus" "s' = s1"
      by (auto simp: addChild_def get_create Let_def)
    with put_forest(2) [OF put] False assms(4) show ?thesis by (simp add: encodes_upd)
  qed
qed

lemma encodes_get:
  assumes "txn_Get R s t Forrest p = (st, v)" and "encodes N (view s t Forrest) G"
  shows "st = OkStatus \<Longrightarrow> \<exists>ks. G p = Some ks \<and> v = CreateNode N ks" and "st = NotFound \<Longrightarrow> G p = None"
  using view_get [OF assms(1)] assms(2) by (auto simp: encodes_def)

text \<open>\<open>manageTree\<close> on the encoded tree is \<^term>\<open>kids_add\<close> on the abstract one.\<close>

lemma manageTree_loop_view:
  assumes "manageTree_loop R N es t s = (r, s')" and "encodes N (view s t Forrest) G"
  shows "forest_step t s s' \<and> (r \<longrightarrow> encodes N (view s' t Forrest) (kids_add es G))"
  using assms
proof (induction es arbitrary: s G)
  case Nil
  then show ?case by auto
next
  case (Cons e es)
  obtain p c where e: "e = (p, c)" by fastforce
  obtain st v where get: "txn_Get R s t Forrest p = (st, v)" by fastforce
  note node = encodes_get [OF get Cons.prems(2)]
  consider "st = OkStatus" | "st = NotFound" | "st \<noteq> OkStatus" "st \<noteq> NotFound" by blast
  then show ?case
  proof cases
    case 1
    then obtain ks where ks: "G p = Some ks" "v = CreateNode N ks" using node by auto
    obtain r1 s1 where add: "addChild R N p c v t s = (r1, s1)" by fastforce
    note one = addChild_view [OF add ks(2,1) Cons.prems(2)]
    show ?thesis
    proof (cases r1)
      case True
      then have "manageTree_loop R N es t s1 = (r, s')" using Cons.prems(1) 1 get add e by simp
      then have "forest_step t s1 s' \<and>
          (r \<longrightarrow> encodes N (view s' t Forrest) (kids_add es (G(p \<mapsto> add_kid c (Some ks)))))"
        by (rule Cons.IH) (rule one(2) [OF True])
      with one(1) ks(1) e show ?thesis
        by (auto simp del: add_kid.simps intro: forest_step_trans)
    qed (use Cons.prems(1) 1 get add e one in auto)
  next
    case 2
    then have none: "G p = None" using node by auto
    obtain r1 s1 where add: "createChild R N p c t s = (r1, s1)" by fastforce
    note one = createChild_view [OF add Cons.prems(2)]
    show ?thesis
    proof (cases r1)
      case True
      then have "manageTree_loop R N es t s1 = (r, s')" using Cons.prems(1) 2 get add e by simp
      from Cons.IH [OF this one(2) [OF True]] one(1) none e show ?thesis
        by (auto intro: forest_step_trans)
    qed (use Cons.prems(1) 2 get add e one in auto)
  next
    case 3
    then show ?thesis using Cons.prems(1) get e by simp
  qed
qed

end


context tree_db
begin

lemma removeChildNode_view:
  assumes "removeChildNode R N p c (CreateNode N ks) t s = ((r, is_empty), s')"
    and "encodes N (view s t Forrest) G"
  defines "vec \<equiv> filter (\<lambda>x. c \<noteq> x) ks"
  shows "forest_step t s s'"
    and "r \<Longrightarrow> is_empty \<longleftrightarrow> vec = []"
    and "r \<Longrightarrow> encodes N (view s' t Forrest) (G(p := (if vec = [] then None else Some vec)))"
proof -
  obtain st1 s1 where del: "txn_Delete R s t Forrest p = (st1, s1)" by fastforce
  obtain st2 s2 where put: "txn_Put R s t Forrest p (CreateNode N vec) = (st2, s2)" by fastforce
  note def = assms(1) [unfolded removeChildNode_def get_create option.case Let_def, folded vec_def]
  show "forest_step t s s'"
    using def del put delete_forest(1) [OF del] put_forest(1) [OF put]
    by (auto split: if_splits)
  show "is_empty \<longleftrightarrow> vec = []" if r
    using that def del put by (auto split: if_splits)
  show "encodes N (view s' t Forrest) (G(p := (if vec = [] then None else Some vec)))" if r
    using that def del put delete_forest(2) [OF del] put_forest(2) [OF put] assms(2)
    by (auto split: if_splits intro: encodes_del encodes_upd)
qed

text \<open>The test \<open>txn->Get(data, path)\<close> of the loop.\<close>

definition has_data :: "'t \<Rightarrow> 's \<Rightarrow> string \<Rightarrow> bool" where
  "has_data t s p \<longleftrightarrow> ok (fst (txn_Get R s t Data p))"

text \<open>
  \<open>removeChild\<close> on the encoded tree is \<^term>\<open>kids_remove\<close> on the abstract one, for a test of
  values \<open>D\<close> that agrees with what the transaction reads.
\<close>

lemma removeChild_loop_view:
  assumes "removeChild_loop R N es t s = (r, s')" and "encodes N (view s t Forrest) G"
    and "\<And>s1 p. forest_step t s s1 \<Longrightarrow> has_data t s1 p = D p"
  shows "forest_step t s s' \<and> (r \<longrightarrow> encodes N (view s' t Forrest) (kids_remove D es G))"
  using assms
proof (induction es arbitrary: s G)
  case Nil
  then show ?case by auto
next
  case (Cons e es)
  obtain p c where e: "e = (p, c)" by fastforce
  obtain st v where get: "txn_Get R s t Forrest p = (st, v)" by fastforce
  note node = encodes_get [OF get Cons.prems(2)]
  show ?case
  proof (cases "st = OkStatus")
    case False
    then show ?thesis using Cons.prems(1,2) get e node by (auto split: if_splits)
  next
    case True
    then obtain ks where ks: "G p = Some ks" "v = CreateNode N ks" using node by auto
    obtain r1 b s1 where del: "removeChildNode R N p c (CreateNode N ks) t s = ((r1, b), s1)"
      by (metis prod.exhaust)
    let ?vec = "filter (\<lambda>x. c \<noteq> x) ks"
    note one = removeChildNode_view [OF del Cons.prems(2)]
    have data: "ok (fst (txn_Get R s1 t Data p)) = D p"
      using Cons.prems(3) [OF one(1)] by (simp add: has_data_def)
    show ?thesis
    proof (cases "r1 \<and> ?vec = [] \<and> \<not> D p")
      case True
      then have "removeChild_loop R N es t s1 = (r, s')"
        using Cons.prems(1) \<open>st = OkStatus\<close> get del e ks data one(2) by simp
      then have "forest_step t s1 s' \<and>
          (r \<longrightarrow> encodes N (view s' t Forrest) (kids_remove D es (G(p := None))))"
      proof (rule Cons.IH)
        show "encodes N (view s1 t Forrest) (G(p := None))" using one(3) True by simp
        show "has_data t s2 q = D q" if "forest_step t s1 s2" for s2 q
          using Cons.prems(3) forest_step_trans [OF one(1) that] by blast
      qed
      with one(1) True ks e show ?thesis by (auto intro: forest_step_trans)
    next
      case False
      then show ?thesis
        using Cons.prems(1) \<open>st = OkStatus\<close> get del e ks data one
        by (cases r1; cases "?vec = []") auto
    qed
  qed
qed

end

text \<open>With a library that does not fail both loops succeed.\<close>

locale tree_db_healthy = rocksdb_healthy R base pending + tree_db R base pending N
  for R :: "('s, 't) RocksDB" and base :: "'s \<Rightarrow> tables" and pending :: "'s \<Rightarrow> 't \<Rightarrow> writes"
    and N :: NodeCodec
begin

lemma get_healthy_cases:
  obtains "fst (txn_Get R s t c k) = OkStatus" | "fst (txn_Get R s t c k) = NotFound"
  using txn_get_healthy [of s t c k] by auto

lemma put_ok_healthy [simp]: "txn_Put R s t c k v = (st, s') \<Longrightarrow> st = OkStatus"
  using put_healthy [of s t c k v] by simp

lemma delete_ok_healthy [simp]: "txn_Delete R s t c k = (st, s') \<Longrightarrow> st = OkStatus"
  using delete_healthy [of s t c k] by simp

lemma addChild_succeeds:
  "encodes N (view s t Forrest) G \<Longrightarrow> txn_Get R s t Forrest p = (OkStatus, v) \<Longrightarrow>
   fst (addChild R N p c v t s)"
  using encodes_get(1) [of s t p OkStatus v G]
  by (auto simp: addChild_def get_create Let_def split: prod.splits)

lemma createChild_succeeds: "fst (createChild R N p c t s)"
  by (auto simp: createChild_def split: prod.splits)

lemma manageTree_loop_succeeds:
  "encodes N (view s t Forrest) G \<Longrightarrow> fst (manageTree_loop R N es t s)"
proof (induction es arbitrary: s G)
  case Nil
  then show ?case by simp
next
  case (Cons e es)
  obtain p c where e: "e = (p, c)" by fastforce
  obtain st v where get: "txn_Get R s t Forrest p = (st, v)" by fastforce
  note node = encodes_get [OF get Cons.prems]
  have "st = OkStatus \<or> st = NotFound" using txn_get_healthy [of s t Forrest p] get by simp
  then show ?case
  proof
    assume st: "st = OkStatus"
    then obtain ks where ks: "G p = Some ks" "v = CreateNode N ks" using node by auto
    obtain r s1 where add: "addChild R N p c v t s = (r, s1)" by fastforce
    have r using addChild_succeeds [OF Cons.prems] get st add by (metis fst_conv)
    from Cons.IH [OF addChild_view(2) [OF add ks(2,1) Cons.prems this]] this st get add e
    show ?thesis by simp
  next
    assume st: "st = NotFound"
    obtain r s1 where add: "createChild R N p c t s = (r, s1)" by fastforce
    have r using createChild_succeeds add by (metis fst_conv)
    from Cons.IH [OF createChild_view(2) [OF add Cons.prems this]] this st get add e
    show ?thesis by simp
  qed
qed

lemma removeChildNode_succeeds:
  "fst (fst (removeChildNode R N p c (CreateNode N ks) t s))"
  by (auto simp: removeChildNode_def get_create Let_def split: prod.splits)

lemma removeChild_loop_succeeds:
  "encodes N (view s t Forrest) G \<Longrightarrow> fst (removeChild_loop R N es t s)"
proof (induction es arbitrary: s G)
  case Nil
  then show ?case by simp
next
  case (Cons e es)
  obtain p c where e: "e = (p, c)" by fastforce
  obtain st v where get: "txn_Get R s t Forrest p = (st, v)" by fastforce
  note node = encodes_get [OF get Cons.prems]
  have "st = OkStatus \<or> st = NotFound" using txn_get_healthy [of s t Forrest p] get by simp
  then show ?case
  proof
    assume st: "st = OkStatus"
    then obtain ks where ks: "v = CreateNode N ks" using node by auto
    obtain r b s1 where del: "removeChildNode R N p c (CreateNode N ks) t s = ((r, b), s1)"
      by (metis prod.exhaust)
    have r using removeChildNode_succeeds del by (metis fst_conv)
    from Cons.IH [OF removeChildNode_view(3) [OF del Cons.prems this]] this st get ks del e
    show ?thesis by simp
  qed (use get e in simp)
qed

lemma has_data_iff: "has_data t s p \<longleftrightarrow> view s t Data p \<noteq> None"
  using txn_get_some [of s t Data p] txn_get_none [of s t Data p]
  by (cases "view s t Data p") (auto simp: has_data_def)

end

interpretation mem_tree: tree_db_healthy mem_rocksdb mem_table mem_writes unary_codec
  by unfold_locales

end
