(* ===== verification/Tree_Exact.thy ===== *)
theory Tree_Exact
  imports Tree
begin

text \<open>
  What the tree of keys is for: the node of a path lists, in order and without repetition,
  exactly the names that follow the path in some key.  The theory shows that \<open>manageTree\<close> keeps
  the tree exact when a key is added, and that \<open>removeChild\<close> keeps it exact when a key without
  keys below it is removed.  Keys are sequences of names.
\<close>

section \<open>The exact tree of a set of keys\<close>

type_synonym key_names = "string list"

definition children_of :: "key_names set \<Rightarrow> key_names \<Rightarrow> string set" where
  "children_of K as = {c. \<exists>rest. as @ c # rest \<in> K}"

definition node_of :: "key_names set \<Rightarrow> key_names \<Rightarrow> string list option" where
  "node_of K as = (if children_of K as = {} then None else Some (sorted_list_of_set (children_of K as)))"

definition tree_exact :: "key_names set \<Rightarrow> kids \<Rightarrow> bool" where
  "tree_exact K G \<longleftrightarrow> (\<forall>as. names_ok as \<longrightarrow> G (node_path as) = node_of K as)"

definition keys_ok :: "key_names set \<Rightarrow> bool" where
  "keys_ok K \<longleftrightarrow> finite K \<and> (\<forall>ks \<in> K. ks \<noteq> [] \<and> names_ok ks)"

lemma finite_children_of: "keys_ok K \<Longrightarrow> finite (children_of K as)"
proof -
  assume "keys_ok K"
  have "children_of K as \<subseteq> (\<lambda>ks. ks ! length as) ` K"
    by (auto simp: children_of_def intro!: rev_image_eqI)
  with \<open>keys_ok K\<close> show ?thesis by (auto simp: keys_ok_def intro: finite_subset)
qed

lemma tree_exact_empty: "tree_exact {} (\<lambda>_. None)"
  by (simp add: tree_exact_def node_of_def children_of_def)

lemma children_of_insert:
  "children_of (insert ks K) as = children_of K as \<union> {c. \<exists>rest. ks = as @ c # rest}"
  by (auto simp: children_of_def)

lemma node_of_cong: "children_of K as = children_of K' as \<Longrightarrow> node_of K as = node_of K' as"
  by (simp add: node_of_def)

section \<open>Adding a key\<close>

lemma add_kid_sorted:
  assumes "finite C"
  shows "Some (add_kid c (if C = {} then None else Some (sorted_list_of_set C))) =
    Some (sorted_list_of_set (insert c C))"
proof (cases "c \<in> C")
  case True
  with assms show ?thesis by (auto simp: insert_absorb)
next
  case False
  with assms show ?thesis
    by (auto simp: sorted_list_of_set.fold_insort_key.insert distinct_remdups_id sort_key_id_if_sorted
        sorted_list_of_set.sorted_sorted_key_list_of_set)
qed

lemma kids_add_other:
  assumes "\<forall>(p, c) \<in> set es. p \<noteq> q"
  shows "kids_add es G q = G q"
  using assms
proof (induction es arbitrary: G)
  case Nil
  then show ?case by simp
next
  case (Cons e es)
  then show ?case by (cases e) auto
qed

lemma node_entries_paths:
  "(p, c) \<in> set (node_entries as cs) \<Longrightarrow> \<exists>ds rest. cs = ds @ c # rest \<and> p = node_path (as @ ds)"
proof (induction cs arbitrary: as)
  case Nil
  then show ?case by simp
next
  case (Cons x cs)
  show ?case
  proof (cases "(p, c) = (node_path as, x)")
    case True
    then show ?thesis by (intro exI [of _ "[]"] exI [of _ cs]) auto
  next
    case False
    with Cons.prems have "(p, c) \<in> set (node_entries (as @ [x]) cs)" by auto
    from Cons.IH [OF this] obtain ds rest where "cs = ds @ c # rest" "p = node_path ((as @ [x]) @ ds)"
      by auto
    then show ?thesis by (intro exI [of _ "x # ds"] exI [of _ rest]) auto
  qed
qed

text \<open>Each node on the way to the key gets the next name, the other nodes stay.\<close>

lemma kids_add_on_path:
  assumes "names_ok (as @ ds @ c # rest)"
  shows "kids_add (node_entries as (ds @ c # rest)) G (node_path (as @ ds)) =
    Some (add_kid c (G (node_path (as @ ds))))"
  using assms
proof (induction ds arbitrary: as G)
  case Nil
  have "p \<noteq> node_path as" if "(p, x) \<in> set (node_entries (as @ [c]) rest)" for p x
  proof -
    from node_entries_paths [OF that] obtain ds rest' where
      ds: "rest = ds @ x # rest'" "p = node_path ((as @ [c]) @ ds)" by auto
    show ?thesis using Nil.prems ds node_path_inject [of "(as @ [c]) @ ds" as] by auto
  qed
  then have "\<forall>(p, x) \<in> set (node_entries (as @ [c]) rest). p \<noteq> node_path as" by auto
  then show ?case by (simp add: kids_add_other)
next
  case (Cons d ds)
  have "node_path (as @ d # ds) \<noteq> node_path as"
    using Cons.prems node_path_inject [of "as @ d # ds" as] by auto
  with Cons.IH [of "as @ [d]" "G(node_path as \<mapsto> add_kid d (G (node_path as)))"] Cons.prems
  show ?case by simp
qed

lemma kids_add_off_path:
  assumes "names_ok cs" and "names_ok bs" and "\<And>c rest. cs \<noteq> bs @ c # rest"
  shows "kids_add (node_entries [] cs) G (node_path bs) = G (node_path bs)"
proof (rule kids_add_other, clarify)
  fix p c
  assume "(node_path bs, c) \<in> set (node_entries [] cs)"
  from node_entries_paths [OF this] obtain ds rest where ds: "cs = ds @ c # rest" "node_path bs = node_path ds"
    by auto
  with assms show False using node_path_inject [of ds bs] by auto
qed

lemma kids_add_exact:
  assumes exact: "tree_exact K G" and K: "keys_ok K" and cs: "names_ok cs"
  shows "tree_exact (insert cs K) (kids_add (node_entries [] cs) G)"
  unfolding tree_exact_def
proof (intro allI impI)
  fix bs
  assume bs: "names_ok bs"
  have old: "G (node_path bs) = node_of K bs" using exact bs by (simp add: tree_exact_def)
  show "kids_add (node_entries [] cs) G (node_path bs) = node_of (insert cs K) bs"
  proof (cases "\<exists>c rest. cs = bs @ c # rest")
    case True
    then obtain c rest where c: "cs = bs @ c # rest" by blast
    have "kids_add (node_entries [] cs) G (node_path bs) = Some (add_kid c (node_of K bs))"
      using kids_add_on_path [of "[]" bs c rest G] cs c old by simp
    also have "\<dots> = Some (sorted_list_of_set (insert c (children_of K bs)))"
      unfolding node_of_def by (rule add_kid_sorted [OF finite_children_of [OF K]])
    also have "insert c (children_of K bs) = children_of (insert cs K) bs"
      by (auto simp: children_of_insert c)
    finally show ?thesis by (auto simp: node_of_def children_of_insert c)
  next
    case False
    then have "children_of (insert cs K) bs = children_of K bs" by (auto simp: children_of_insert)
    with kids_add_off_path [OF cs bs] False old show ?thesis by (auto intro: node_of_cong)
  qed
qed

section \<open>Removing a key\<close>

text \<open>No key of the set lies strictly below the key.\<close>

definition leaf_in :: "key_names set \<Rightarrow> key_names \<Rightarrow> bool" where
  "leaf_in K cs \<longleftrightarrow> children_of K cs = {}"

lemma node_entries_snoc: "node_entries as (cs @ [c]) = node_entries as cs @ [(node_path (as @ cs), c)]"
  by (induction cs arbitrary: as) auto

lemma tree_exact_upd:
  assumes "tree_exact K G" and "names_ok as"
    and "\<And>bs. names_ok bs \<Longrightarrow> bs \<noteq> as \<Longrightarrow> children_of K' bs = children_of K bs"
  shows "tree_exact K' (G(node_path as := node_of K' as))"
  unfolding tree_exact_def
proof (intro allI impI)
  fix bs
  assume bs: "names_ok bs"
  show "(G(node_path as := node_of K' as)) (node_path bs) = node_of K' bs"
  proof (cases "bs = as")
    case False
    then have "node_path bs \<noteq> node_path as" using node_path_inject bs assms(2) by blast
    with assms(1) bs show ?thesis
      using node_of_cong [OF assms(3) [OF bs False]] by (simp add: tree_exact_def)
  qed simp
qed

text \<open>The names before a longer prefix of the key are justified by anything that keeps that prefix.\<close>

lemma children_of_insert_below:
  assumes "cs \<in> K \<or> children_of K cs \<noteq> {}" and "bs \<noteq> cs"
  shows "children_of (insert (cs @ [c]) K) bs = children_of K bs"
proof -
  have "x \<in> children_of K bs" if "cs @ [c] = bs @ x # rest" for x rest
  proof (cases rest rule: rev_cases)
    case (snoc ys y)
    with that have cs: "cs = bs @ x # ys" by simp
    from assms(1) show ?thesis
    proof
      assume "children_of K cs \<noteq> {}"
      then obtain d r where "cs @ d # r \<in> K" by (auto simp: children_of_def)
      with cs show ?thesis by (auto simp: children_of_def)
    qed (use cs in \<open>auto simp: children_of_def\<close>)
  qed (use that assms(2) in simp)
  then show ?thesis by (auto simp: children_of_insert)
qed

lemma children_of_insert_climb:
  assumes "bs \<noteq> cs"
  shows "children_of (insert (cs @ [c]) K) bs = children_of (insert cs K) bs"
proof -
  have "(\<exists>rest. cs @ [c] = bs @ x # rest) \<longleftrightarrow> (\<exists>rest. cs = bs @ x # rest)" for x
  proof
    assume "\<exists>rest. cs @ [c] = bs @ x # rest"
    then obtain rest where r: "cs @ [c] = bs @ x # rest" by blast
    with assms show "\<exists>rest. cs = bs @ x # rest" by (cases rest rule: rev_cases) auto
  qed auto
  then show ?thesis by (simp add: children_of_insert)
qed

lemma has_value_path:
  assumes "keys_ok K" and "names_ok cs"
  shows "node_path cs \<in> path_of ` K \<longleftrightarrow> cs \<in> K"
proof
  assume "node_path cs \<in> path_of ` K"
  then obtain ks where ks: "ks \<in> K" "node_path cs = path_of ks" by auto
  with assms(1) have "names_ok ks" "ks \<noteq> []" by (auto simp: keys_ok_def)
  then have "node_path cs = node_path ks" using ks by (simp add: node_path_def)
  with node_path_inject assms(2) \<open>names_ok ks\<close> ks(1) show "cs \<in> K" by blast
next
  assume "cs \<in> K"
  with assms(1) show "node_path cs \<in> path_of ` K" by (auto simp: keys_ok_def node_path_def)
qed

lemma filter_sorted_list_of_set:
  fixes C :: "'a :: linorder set"
  assumes "c \<notin> C" and "finite C"
  shows "filter (\<lambda>x. c \<noteq> x) (sorted_list_of_set (insert c C)) = sorted_list_of_set C"
proof (rule sorted_distinct_set_unique)
  have *: "sorted (sorted_list_of_set (insert c C))" by (rule sorted_list_of_set.sorted_sorted_key_list_of_set)
  then show "sorted (filter (\<lambda>x. c \<noteq> x) (sorted_list_of_set (insert c C)))"
    by (rule sorted_wrt_filter)
  show "distinct (filter (\<lambda>x. c \<noteq> x) (sorted_list_of_set (insert c C)))"
    using assms(2) distinct_filter sorted_list_of_set.distinct_sorted_key_list_of_set by blast
  have "set (sorted_list_of_set (insert c C)) = insert c C"
    using assms(2) by (simp only: set_sorted_list_of_set finite_insert)
  then show "set (filter (\<lambda>x. c \<noteq> x) (sorted_list_of_set (insert c C))) = set (sorted_list_of_set C)"
    unfolding set_filter using assms by auto
qed simp_all

lemma kids_remove_climb:
  assumes "tree_exact (insert cs K) G" and "keys_ok K" and "names_ok cs" and "cs \<noteq> []"
    and "cs \<notin> K" and "leaf_in K cs"
  shows "tree_exact K (kids_remove (\<lambda>p. p \<in> path_of ` K) (rev (node_entries [] cs)) G)"
  using assms
proof (induction cs arbitrary: G rule: rev_induct)
  case Nil
  then show ?case by simp
next
  case (snoc c cs)
  let ?D = "\<lambda>p. p \<in> path_of ` K" and ?C = "children_of K cs"
  have ok: "names_ok cs" using snoc.prems by simp
  have fin: "finite ?C" by (rule finite_children_of [OF snoc.prems(2)])
  have c: "c \<notin> ?C" using snoc.prems(5,6) by (auto simp: children_of_def leaf_in_def append_eq_append_conv2)
    (metis append_Cons append_Nil neq_Nil_conv)
  have kids: "children_of (insert (cs @ [c]) K) cs = insert c ?C" by (auto simp: children_of_insert)
  have node: "G (node_path cs) = Some (sorted_list_of_set (insert c ?C))"
    using snoc.prems(1) ok kids by (simp add: tree_exact_def node_of_def)
  have vec: "filter (\<lambda>x. c \<noteq> x) (sorted_list_of_set (insert c ?C)) = sorted_list_of_set ?C"
    using c fin by (rule filter_sorted_list_of_set)
  have step: "kids_remove ?D (rev (node_entries [] (cs @ [c]))) G =
    (if ?C \<noteq> {} then G(node_path cs := node_of K cs)
     else if cs \<in> K then G(node_path cs := None)
     else kids_remove ?D (rev (node_entries [] cs)) (G(node_path cs := None)))"
    using node vec fin has_value_path [OF snoc.prems(2) ok]
    by (simp add: node_entries_snoc node_of_def Let_def)
  show ?case
  proof (cases "?C \<noteq> {} \<or> cs \<in> K \<or> cs = []")
    case True
    have "tree_exact K (G(node_path cs := node_of K cs))"
    proof (rule tree_exact_upd [OF snoc.prems(1) ok])
      show "children_of K bs = children_of (insert (cs @ [c]) K) bs" if "bs \<noteq> cs" for bs
        using True that children_of_insert_below [of cs K bs c]
        by (cases "cs = []"; cases bs) (auto simp: children_of_insert)
    qed
    with True show ?thesis by (auto simp: step node_of_def split: if_splits)
  next
    case False
    have "tree_exact (insert cs K) (G(node_path cs := node_of (insert cs K) cs))"
      by (rule tree_exact_upd [OF snoc.prems(1) ok])
        (simp add: children_of_insert_climb)
    moreover have "node_of (insert cs K) cs = None"
      using False by (simp add: node_of_def children_of_insert)
    ultimately have "tree_exact K (kids_remove ?D (rev (node_entries [] cs)) (G(node_path cs := None)))"
      using snoc.IH [of "G(node_path cs := None)"] snoc.prems False ok by (simp add: leaf_in_def)
    with False show ?thesis by (simp add: step)
  qed
qed


lemma kids_remove_absent:
  assumes "tree_exact K G" and "keys_ok K" and "names_ok cs" and "cs \<notin> K" and "leaf_in K cs"
  shows "kids_remove D (rev (node_entries [] cs)) G = G"
proof (cases cs rule: rev_cases)
  case Nil
  then show ?thesis by simp
next
  case (snoc ds c)
  have c: "c \<notin> children_of K ds"
  proof
    assume "c \<in> children_of K ds"
    then obtain rest where "ds @ c # rest \<in> K" by (auto simp: children_of_def)
    with assms(4,5) snoc show False by (cases rest) (auto simp: leaf_in_def children_of_def)
  qed
  have node: "G (node_path ds) = node_of K ds"
    using assms(1,3) snoc by (simp add: tree_exact_def)
  have fin: "finite (children_of K ds)" by (rule finite_children_of [OF assms(2)])
  show ?thesis
  proof (cases "children_of K ds = {}")
    case True
    with node snoc show ?thesis by (simp add: node_entries_snoc node_of_def)
  next
    case False
    then have "filter (\<lambda>x. c \<noteq> x) (sorted_list_of_set (children_of K ds)) =
        sorted_list_of_set (children_of K ds)"
      using fin c by (intro filter_True) auto
    with False node snoc fin show ?thesis
      by (auto simp: node_entries_snoc node_of_def Let_def fun_upd_idem)
  qed
qed

lemma kids_remove_exact:
  assumes "tree_exact K G" and "keys_ok K" and "names_ok cs" and "cs \<noteq> []" and "leaf_in K cs"
  shows "tree_exact (K - {cs})
    (kids_remove (\<lambda>p. p \<in> path_of ` (K - {cs})) (rev (node_entries [] cs)) G)"
proof (cases "cs \<in> K")
  case True
  have "keys_ok (K - {cs})" using assms(2) by (auto simp: keys_ok_def)
  moreover have "leaf_in (K - {cs}) cs" using assms(5) by (auto simp: leaf_in_def children_of_def)
  moreover have "insert cs (K - {cs}) = K" using True by auto
  ultimately show ?thesis using kids_remove_climb [of cs "K - {cs}" G] assms by simp
next
  case False
  with assms show ?thesis by (simp add: kids_remove_absent)
qed

section \<open>The transaction steps keep the tree exact\<close>

context tree_db_healthy
begin

lemma manageTree_exact:
  assumes "tree_exact K G" and "keys_ok K" and "encodes N (view s t Forrest) G"
    and "cs \<noteq> []" and "names_ok cs" and "length (path_of cs) < npos"
    and entries: "treeComponents (path_of cs) = Some (node_entries [] cs)"
  shows "\<exists>s' G'. manageTree R N (path_of cs) t s = Some (True, s') \<and> forest_step t s s' \<and>
    encodes N (view s' t Forrest) G' \<and> tree_exact (insert cs K) G'"
proof -
  obtain r s' where loop: "manageTree_loop R N (node_entries [] cs) t s = (r, s')" by fastforce
  have r using manageTree_loop_succeeds [OF assms(3)] loop by (metis fst_conv)
  have "node_entries [] cs \<noteq> []" using assms(4) by (cases cs) auto
  then have "manageTree R N (path_of cs) t s = Some (True, s')"
    using entries loop \<open>r\<close> by (simp add: manageTree_def)
  with manageTree_loop_view [OF loop assms(3)] \<open>r\<close> kids_add_exact [OF assms(1,2,5)]
  show ?thesis by blast
qed

lemma removeChild_exact:
  assumes "tree_exact K G" and "keys_ok K" and "encodes N (view s t Forrest) G"
    and "cs \<noteq> []" and "names_ok cs" and "leaf_in K cs"
    and entries: "treeComponents (path_of cs) = Some (node_entries [] cs)"
    and data: "\<And>p. view s t Data p \<noteq> None \<longleftrightarrow> p \<in> path_of ` (K - {cs})"
  shows "\<exists>s' G'. removeChild R N (path_of cs) t s = Some (True, s') \<and> forest_step t s s' \<and>
    encodes N (view s' t Forrest) G' \<and> tree_exact (K - {cs}) G'"
proof -
  let ?D = "\<lambda>p. p \<in> path_of ` (K - {cs})"
  obtain r s' where loop: "removeChild_loop R N (rev (node_entries [] cs)) t s = (r, s')" by fastforce
  have r using removeChild_loop_succeeds [OF assms(3)] loop by (metis fst_conv)
  have "node_entries [] cs \<noteq> []" using assms(4) by (cases cs) auto
  then have result: "removeChild R N (path_of cs) t s = Some (True, s')"
    using entries loop \<open>r\<close> by (simp add: removeChild_def)
  have "has_data t s1 p = ?D p" if "forest_step t s s1" for s1 p
    using that data by (simp add: has_data_iff forest_step_def)
  from removeChild_loop_view [OF loop assms(3) this] \<open>r\<close> kids_remove_exact [OF assms(1,2,5,4,6)] result
  show ?thesis by blast
qed

end

end
