(* ===== verification/Database.thy ===== *)
theory Database
  imports Configuration Pool Value_Cache Encrypter Tree_Exact
begin

text \<open>
  The storage engine: the class \<open>Database\<close> of \<open>src/lib/db/storage.cpp\<close>.  Its state holds the
  RocksDB database, the pools of transaction handles and of ciphers and the value cache; each
  method takes the state and returns its result with the new state, or \<^term>\<open>None\<close> when the call
  throws or is undefined.  RocksDB, OpenSSL, the codec of tree nodes, the clock (in nanoseconds
  since the epoch, as the sequence of its readings) and the current configuration are the record
  \<open>Ext\<close>.  A proxy of a pool gives its object back when it goes out of scope; the mutex of the
  class only serialises the methods, each of which is one function here.
\<close>

section \<open>State\<close>

record ('s, 't, 'x) Ext =
  rocks :: "('s, 't) RocksDB"
  evp :: "'x EVP"
  nodes :: NodeCodec
  clock :: "nat \<Rightarrow> int"
  conf :: Configuration

record ('s, 't, 'x) Database =
  store :: 's
  transactions :: "'t option Pool"
  encrypters :: "'x Encrypter Pool"
  valueCache :: "(string, string) ExpirationCache"
  reads :: nat

definition poolConfig :: "Configuration \<Rightarrow> PoolConfiguration" where
  "poolConfig c = \<lparr>initialSize = encrypterInitialPoolSize (storage c), maxPoolSize = 2147483647,
     maxConnections = 2147483647, maxIdleTime = 2147483647 * 86400\<rparr>"

definition now :: "('s, 't, 'x) Ext \<Rightarrow> ('s, 't, 'x) Database \<Rightarrow> int \<times> ('s, 't, 'x) Database" where
  "now E d = (clock E (reads d), d\<lparr>reads := Suc (reads d)\<rparr>)"

section \<open>Objects of the pools\<close>

definition Encrypter_create :: "('s, 't, 'x) Ext \<Rightarrow> 'x Encrypter option" where
  "Encrypter_create E = Encrypter_new (evp E) (encryption (conf E))"

text \<open>\<open>pool.acquire()\<close>; making a new cipher may throw.\<close>

definition acquire_encrypter ::
  "('s, 't, 'x) Ext \<Rightarrow> ('s, 't, 'x) Database \<Rightarrow>
   ('x Encrypter ConnectionWrapper option \<times> ('s, 't, 'x) Database) option" where
  "acquire_encrypter E d =
     (if Encrypter_create E = None \<and> acquire_check (encrypters d) \<and> available (encrypters d) = [] then None
      else let (t, d) = now E d; (w, p) = acquire (Encrypter_create E) t (encrypters d)
           in Some (w, d\<lparr>encrypters := p\<rparr>))"

definition release_encrypter ::
  "('s, 't, 'x) Ext \<Rightarrow> 'x Encrypter ConnectionWrapper \<Rightarrow> ('s, 't, 'x) Database \<Rightarrow> ('s, 't, 'x) Database" where
  "release_encrypter E w d =
     (let (t, d) = now E d in d\<lparr>encrypters := Proxy_destroy Encrypter_valid t w (encrypters d)\<rparr>)"

definition encrypt_with ::
  "('s, 't, 'x) Ext \<Rightarrow> string \<Rightarrow> 'x Encrypter ConnectionWrapper \<Rightarrow>
   (string \<times> 'x Encrypter ConnectionWrapper) option" where
  "encrypt_with E v w = do {
     e \<leftarrow> con w;
     (r, e) \<leftarrow> encrypt (evp E) v e;
     Some (r, w\<lparr>con := Some e\<rparr>) }"

definition decrypt_with ::
  "('s, 't, 'x) Ext \<Rightarrow> string \<Rightarrow> 'x Encrypter ConnectionWrapper \<Rightarrow>
   (string \<times> 'x Encrypter ConnectionWrapper) option" where
  "decrypt_with E v w = do {
     e \<leftarrow> con w;
     (r, e) \<leftarrow> decrypt (evp E) v e;
     Some (r, w\<lparr>con := Some e\<rparr>) }"

text \<open>
  The macro \<open>TXN\<close>: a pooled handle is used again, otherwise a new transaction is stored in the
  holder.  An empty proxy is dereferenced without a test.
\<close>

definition acquire_txn ::
  "('s, 't, 'x) Ext \<Rightarrow> ('s, 't, 'x) Database \<Rightarrow>
   ('t \<times> 't option ConnectionWrapper \<times> ('s, 't, 'x) Database) option" where
  "acquire_txn E d = (
     let (t, d) = now E d; (proxy, p) = acquire (Some None) t (transactions d) in do {
       w \<leftarrow> proxy;
       holder \<leftarrow> con w;
       let (txn, s) = BeginTransaction (rocks E) (store d) holder;
       let w = (if holder = None then w\<lparr>con := Some (Some txn)\<rparr> else w);
       Some (txn, w, d\<lparr>transactions := p, store := s\<rparr>) })"

definition TransactionHolder_valid :: "'t option \<Rightarrow> bool" where
  "TransactionHolder_valid h \<longleftrightarrow> h \<noteq> None"

definition release_txn ::
  "('s, 't, 'x) Ext \<Rightarrow> 't option ConnectionWrapper \<Rightarrow> ('s, 't, 'x) Database \<Rightarrow> ('s, 't, 'x) Database" where
  "release_txn E w d =
     (let (t, d) = now E d
      in d\<lparr>transactions := Proxy_destroy TransactionHolder_valid t w (transactions d)\<rparr>)"

definition with_txn ::
  "('s, 't, 'x) Ext \<Rightarrow> ('t \<Rightarrow> ('s, 't, 'x) Database \<Rightarrow> ('r \<times> ('s, 't, 'x) Database) option) \<Rightarrow>
   ('s, 't, 'x) Database \<Rightarrow> ('r \<times> ('s, 't, 'x) Database) option" where
  "with_txn E body d = do {
     (txn, w, d) \<leftarrow> acquire_txn E d;
     (r, d) \<leftarrow> body txn d;
     Some (r, release_txn E w d) }"

section \<open>Steps on the database\<close>

definition put ::
  "('s, 't, 'x) Ext \<Rightarrow> 't \<Rightarrow> column \<Rightarrow> string \<Rightarrow> string \<Rightarrow> ('s, 't, 'x) Database \<Rightarrow>
   Status \<times> ('s, 't, 'x) Database" where
  "put E txn c k v d = (let (st, s) = txn_Put (rocks E) (store d) txn c k v in (st, d\<lparr>store := s\<rparr>))"

definition delete ::
  "('s, 't, 'x) Ext \<Rightarrow> 't \<Rightarrow> column \<Rightarrow> string \<Rightarrow> ('s, 't, 'x) Database \<Rightarrow> Status \<times> ('s, 't, 'x) Database" where
  "delete E txn c k d = (let (st, s) = txn_Delete (rocks E) (store d) txn c k in (st, d\<lparr>store := s\<rparr>))"

definition commit ::
  "('s, 't, 'x) Ext \<Rightarrow> 't \<Rightarrow> ('s, 't, 'x) Database \<Rightarrow> bool \<times> ('s, 't, 'x) Database" where
  "commit E txn d = (let (st, s) = txn_Commit (rocks E) (store d) txn in (ok st, d\<lparr>store := s\<rparr>))"

text \<open>The lambda \<open>rollback\<close>: the status is only logged, and the result is false.\<close>

definition rollback ::
  "('s, 't, 'x) Ext \<Rightarrow> 't \<Rightarrow> ('s, 't, 'x) Database \<Rightarrow> bool \<times> ('s, 't, 'x) Database" where
  "rollback E txn d = (False, d\<lparr>store := snd (txn_Rollback (rocks E) (store d) txn)\<rparr>)"

definition rollback_if ::
  "('s, 't, 'x) Ext \<Rightarrow> bool \<Rightarrow> 't \<Rightarrow> ('s, 't, 'x) Database \<Rightarrow> bool \<times> ('s, 't, 'x) Database" where
  "rollback_if E rollbackOnError txn d = (if \<not> rollbackOnError then (False, d) else rollback E txn d)"

text \<open>The value cache is used only when the configuration enables it.\<close>

definition cache_store :: "('s, 't, 'x) Ext \<Rightarrow> string \<Rightarrow> string \<Rightarrow> ('s, 't, 'x) Database \<Rightarrow> ('s, 't, 'x) Database" where
  "cache_store E ks v d =
     (if enableCache (conf E) then d\<lparr>valueCache := cache_put ks v (valueCache d)\<rparr> else d)"

definition cache_forget :: "('s, 't, 'x) Ext \<Rightarrow> string \<Rightarrow> ('s, 't, 'x) Database \<Rightarrow> ('s, 't, 'x) Database" where
  "cache_forget E ks d =
     (if enableCache (conf E) then d\<lparr>valueCache := cache_erase ks (valueCache d)\<rparr> else d)"

definition cache_lookup :: "('s, 't, 'x) Ext \<Rightarrow> string \<Rightarrow> ('s, 't, 'x) Database \<Rightarrow> string option" where
  "cache_lookup E ks d = (if enableCache (conf E) then cache_find ks (valueCache d) else None)"

definition getKey :: "string \<Rightarrow> string" where
  "getKey key = (if key = [] then [slash] else if hd key = slash then key else slash # key)"

text \<open>
  \<open>parseTTL\<close>: the stored number of nanoseconds becomes a signed 64-bit duration.
\<close>

definition parseTTL :: "('s, 't, 'x) Ext \<Rightarrow> string \<Rightarrow> ('s, 't, 'x) Database \<Rightarrow> int \<times> ('s, 't, 'x) Database" where
  "parseTTL E value d =
     (case from_chars_unsigned 64 value of
        None \<Rightarrow> (0, d)
      | Some v \<Rightarrow>
          let ns = sint (word_of_nat v :: u64); (cns, d) = now E d
          in if ns > cns then (to_seconds (ns - cns), d) else (0, d))"


section \<open>Setting a key inside a transaction\<close>

definition manageTree_in ::
  "('s, 't, 'x) Ext \<Rightarrow> string \<Rightarrow> 't \<Rightarrow> ('s, 't, 'x) Database \<Rightarrow> (bool \<times> ('s, 't, 'x) Database) option" where
  "manageTree_in E ks txn d = do {
     (done, s) \<leftarrow> manageTree (rocks E) (nodes E) ks txn (store d);
     Some (done, d\<lparr>store := s\<rparr>) }"

definition removeChild_in ::
  "('s, 't, 'x) Ext \<Rightarrow> string \<Rightarrow> 't \<Rightarrow> ('s, 't, 'x) Database \<Rightarrow> (bool \<times> ('s, 't, 'x) Database) option" where
  "removeChild_in E ks txn d = do {
     (done, s) \<leftarrow> removeChild (rocks E) (nodes E) ks txn (store d);
     Some (done, d\<lparr>store := s\<rparr>) }"

text \<open>
  The expiration: the time stamp of the expiry under the key, and the key under the time stamp
  followed by a second reading of the clock.  An expiry beyond the range of a signed 64-bit
  number of nanoseconds is an overflow.
\<close>

definition set_expiration ::
  "('s, 't, 'x) Ext \<Rightarrow> string \<Rightarrow> u32 \<Rightarrow> 't \<Rightarrow> ('s, 't, 'x) Database \<Rightarrow> (bool \<times> ('s, 't, 'x) Database) option" where
  "set_expiration E ks seconds txn d = (
     let (t, d) = now E d; ns = t + 1000000000 * uint seconds in
     if ns \<ge> 2 ^ 63 then None
     else
       let ts = int_to_string ns; (st, d) = put E txn Expiration ks ts d in
       if \<not> ok st then Some (rollback E txn d)
       else
         let (ns1, d) = now E d; ts = ts @ int_to_string ns1; (st, d) = put E txn Expiring ts ks d in
         if \<not> ok st then Some (rollback E txn d) else Some (True, d))"

text \<open>The part of \<open>set\<close> after the test of \<open>ifNotExists\<close>; \<open>v\<close> is the encrypted value.\<close>

definition set_write ::
  "('s, 't, 'x) Ext \<Rightarrow> string \<Rightarrow> string \<Rightarrow> string \<Rightarrow> Options \<Rightarrow> 't \<Rightarrow> ('s, 't, 'x) Database \<Rightarrow>
   (bool \<times> ('s, 't, 'x) Database) option" where
  "set_write E ks value v opts txn d = (
     let (st, d) = put E txn Data ks v d in
     if \<not> ok st then Some (rollback E txn d)
     else do {
       (done, d) \<leftarrow> (if cacheEntry opts
          then (let (st, d) = put E txn CacheColumn ks ''1'' d in Some (ok st, d))
          else manageTree_in E ks txn d);
       if \<not> done then Some (rollback E txn d)
       else do {
         (done, d) \<leftarrow> (if expirationInSeconds opts > 0
            then set_expiration E ks (expirationInSeconds opts) txn d else Some (True, d));
         if \<not> done then Some (False, d) else Some (True, cache_store E ks value d) } })"

definition set_txn ::
  "('s, 't, 'x) Ext \<Rightarrow> string \<Rightarrow> string \<Rightarrow> Options \<Rightarrow> 't \<Rightarrow> ('s, 't, 'x) Database \<Rightarrow>
   (bool \<times> ('s, 't, 'x) Database) option" where
  "set_txn E key value opts txn d = do {
     (encrypter, d) \<leftarrow> acquire_encrypter E d;
     case encrypter of
       None \<Rightarrow> Some (False, d)
     | Some w \<Rightarrow> do {
         (v, w) \<leftarrow> encrypt_with E value w;
         let ks = getKey key;
         (r, d) \<leftarrow> (if ifNotExists opts \<and> fst (txn_Get (rocks E) (store d) txn Data ks) \<noteq> NotFound
           then Some (False, d)
           else set_write E ks value v opts txn d);
         Some (r, release_encrypter E w d) } }"

section \<open>Removing a key inside a transaction\<close>

text \<open>
  Whether the key is in the cache column is read from the database, not from the transaction,
  and the status of the deletion there is not tested.
\<close>

definition remove_txn ::
  "('s, 't, 'x) Ext \<Rightarrow> string \<Rightarrow> 't \<Rightarrow> bool \<Rightarrow> ('s, 't, 'x) Database \<Rightarrow>
   (bool \<times> ('s, 't, 'x) Database) option" where
  "remove_txn E key txn rollbackOnError d = (
     let ks = getKey key; (st, d) = delete E txn Data ks d in
     if \<not> ok st then Some (rollback_if E rollbackOnError txn d)
     else
       let (st, d) = delete E txn Expiration ks d in
       if \<not> ok st then Some (rollback_if E rollbackOnError txn d)
       else do {
         (done, d) \<leftarrow> (if ok (fst (db_Get (rocks E) (store d) CacheColumn ks))
            then Some (True, snd (delete E txn CacheColumn ks d))
            else removeChild_in E ks txn d);
         if \<not> done then Some (rollback_if E rollbackOnError txn d)
         else Some (True, cache_forget E ks d) })"

section \<open>Moving a key inside a transaction\<close>

text \<open>The time to live that the destination gets.\<close>

definition move_expiration ::
  "('s, 't, 'x) Ext \<Rightarrow> string \<Rightarrow> Options \<Rightarrow> 't \<Rightarrow> ('s, 't, 'x) Database \<Rightarrow> int \<times> ('s, 't, 'x) Database" where
  "move_expiration E ks opts txn d =
     (if expirationInSeconds opts \<noteq> 0 then (uint (expirationInSeconds opts), d)
      else let (st, nsv) = txn_Get (rocks E) (store d) txn Expiration ks
           in if ok st then parseTTL E nsv d else (0, d))"

definition move_write ::
  "('s, 't, 'x) Ext \<Rightarrow> string \<Rightarrow> string \<Rightarrow> string \<Rightarrow> string \<Rightarrow> Options \<Rightarrow> 't \<Rightarrow> ('s, 't, 'x) Database \<Rightarrow>
   (bool \<times> ('s, 't, 'x) Database) option" where
  "move_write E ks ds value cvalue opts txn d = (
     let (exp, d) = move_expiration E ks opts txn d in do {
       (s, d) \<leftarrow> remove_txn E ks txn True d;
       if \<not> s then Some (rollback E txn d)
       else do {
         let nopts = \<lparr>expirationInSeconds = word_of_int exp, ifNotExists = ifNotExists opts,
           cacheEntry = (if cvalue = [] then cacheEntry opts else True)\<rparr>;
         (s, d) \<leftarrow> set_txn E ds value nopts txn d;
         if \<not> s then Some (rollback E txn d) else Some (True, d) } })"

text \<open>A failed read of the cache column leaves \<open>cvalue\<close> empty.\<close>

definition move_body ::
  "('s, 't, 'x) Ext \<Rightarrow> string \<Rightarrow> string \<Rightarrow> Options \<Rightarrow> 't \<Rightarrow> 'x Encrypter ConnectionWrapper \<Rightarrow>
   ('s, 't, 'x) Database \<Rightarrow> ((bool \<times> 'x Encrypter ConnectionWrapper) \<times> ('s, 't, 'x) Database) option" where
  "move_body E ks ds opts txn w d =
     (if ifNotExists opts \<and> fst (txn_Get (rocks E) (store d) txn Data ds) \<noteq> NotFound
      then Some ((False, w), d)
      else
        let (st, stored) = txn_Get (rocks E) (store d) txn Data ks in
        if \<not> ok st then Some ((False, w), d)
        else do {
          (value, w) \<leftarrow> decrypt_with E stored w;
          let (st, c) = txn_Get (rocks E) (store d) txn CacheColumn ks;
          (r, d) \<leftarrow> move_write E ks ds value (if ok st then c else []) opts txn d;
          Some ((r, w), d) })"

definition move_txn ::
  "('s, 't, 'x) Ext \<Rightarrow> string \<Rightarrow> string \<Rightarrow> Options \<Rightarrow> 't \<Rightarrow> ('s, 't, 'x) Database \<Rightarrow>
   (bool \<times> ('s, 't, 'x) Database) option" where
  "move_txn E key dest opts txn d = do {
     (encrypter, d) \<leftarrow> acquire_encrypter E d;
     case encrypter of
       None \<Rightarrow> Some (False, d)
     | Some w \<Rightarrow> do {
         ((r, w), d) \<leftarrow> move_body E (getKey key) (getKey dest) opts txn w d;
         Some (r, release_encrypter E w d) } }"

section \<open>The methods on one key\<close>

definition Database_get ::
  "('s, 't, 'x) Ext \<Rightarrow> string \<Rightarrow> ('s, 't, 'x) Database \<Rightarrow> (string option \<times> ('s, 't, 'x) Database) option" where
  "Database_get E key d =
     (if key = [] then Some (None, d)
      else
        let ks = getKey key in
        case cache_lookup E ks d of
          Some v \<Rightarrow> Some (Some v, d)
        | None \<Rightarrow>
            let (st, value) = db_Get (rocks E) (store d) Data ks in
            if \<not> ok st then Some (None, d)
            else do {
              (encrypter, d) \<leftarrow> acquire_encrypter E d;
              case encrypter of
                None \<Rightarrow> Some (None, d)
              | Some w \<Rightarrow> do {
                  (ret, w) \<leftarrow> decrypt_with E value w;
                  Some (Some ret, release_encrypter E w (cache_store E ks ret d)) } })"

definition Database_set ::
  "('s, 't, 'x) Ext \<Rightarrow> RequestData \<Rightarrow> ('s, 't, 'x) Database \<Rightarrow> (bool \<times> ('s, 't, 'x) Database) option" where
  "Database_set E data d =
     (if rd_key data = [] then Some (False, d)
      else if cacheEntry (rd_options data) \<and> expirationInSeconds (rd_options data) = 0 then Some (False, d)
      else with_txn E (\<lambda>txn d. do {
        (saved, d) \<leftarrow> set_txn E (rd_key data) (rd_value data) (rd_options data) txn d;
        if \<not> saved then Some (False, d) else Some (commit E txn d) }) d)"

definition Database_remove ::
  "('s, 't, 'x) Ext \<Rightarrow> string \<Rightarrow> ('s, 't, 'x) Database \<Rightarrow> (bool \<times> ('s, 't, 'x) Database) option" where
  "Database_remove E key d =
     (if key = [] then Some (False, d)
      else with_txn E (\<lambda>txn d. do {
        (s, d) \<leftarrow> remove_txn E key txn True d;
        if \<not> s then Some (False, d) else Some (commit E txn d) }) d)"

definition Database_move ::
  "('s, 't, 'x) Ext \<Rightarrow> RequestData \<Rightarrow> ('s, 't, 'x) Database \<Rightarrow> (bool \<times> ('s, 't, 'x) Database) option" where
  "Database_move E data d =
     (if rd_key data = [] then Some (False, d)
      else if rd_value data = [] then Some (False, d)
      else with_txn E (\<lambda>txn d. do {
        (s, d) \<leftarrow> move_txn E (rd_key data) (rd_value data) (rd_options data) txn d;
        if \<not> s then Some (False, d) else Some (commit E txn d) }) d)"

definition Database_ttl ::
  "('s, 't, 'x) Ext \<Rightarrow> string \<Rightarrow> ('s, 't, 'x) Database \<Rightarrow> int \<times> ('s, 't, 'x) Database" where
  "Database_ttl E key d =
     (let (st, value) = db_Get (rocks E) (store d) Expiration (getKey key)
      in if ok st then parseTTL E value d else (0, d))"

definition Database_list :: "('s, 't, 'x) Ext \<Rightarrow> string \<Rightarrow> ('s, 't, 'x) Database \<Rightarrow> string list option" where
  "Database_list E key d =
     (if key = [] then None
      else let (st, value) = db_Get (rocks E) (store d) Forrest (getKey key)
           in if ok st then GetNode (nodes E) value else None)"

section \<open>The methods on several keys\<close>

text \<open>Keys found in the cache come first in the result.\<close>

definition get_hits :: "('s, 't, 'x) Ext \<Rightarrow> string list \<Rightarrow> ('s, 't, 'x) Database \<Rightarrow> (string \<times> string option) list" where
  "get_hits E skeys d =
     List.map_filter (\<lambda>ks. map_option (\<lambda>v. (ks, Some v)) (cache_lookup E ks d)) skeys"

definition get_misses :: "('s, 't, 'x) Ext \<Rightarrow> string list \<Rightarrow> ('s, 't, 'x) Database \<Rightarrow> string list" where
  "get_misses E skeys d = filter (\<lambda>ks. cache_lookup E ks d = None) skeys"

fun get_batch_loop ::
  "('s, 't, 'x) Ext \<Rightarrow> (string \<times> Status \<times> string) list \<Rightarrow> 'x Encrypter ConnectionWrapper \<Rightarrow>
   ('s, 't, 'x) Database \<Rightarrow>
   ((string \<times> string option) list \<times> 'x Encrypter ConnectionWrapper \<times> ('s, 't, 'x) Database) option" where
  "get_batch_loop E [] w d = Some ([], w, d)"
| "get_batch_loop E ((k, st, v) # rest) w d =
     (if ok st then do {
        (ret, w) \<leftarrow> decrypt_with E v w;
        (rs, w, d) \<leftarrow> get_batch_loop E rest w (cache_store E k ret d);
        Some ((k, Some ret) # rs, w, d) }
      else do {
        (rs, w, d) \<leftarrow> get_batch_loop E rest w d;
        Some ((k, None) # rs, w, d) })"

definition Database_get_batch ::
  "('s, 't, 'x) Ext \<Rightarrow> string list \<Rightarrow> ('s, 't, 'x) Database \<Rightarrow>
   ((string \<times> string option) list \<times> ('s, 't, 'x) Database) option" where
  "Database_get_batch E vec d = do {
     (encrypter, d) \<leftarrow> acquire_encrypter E d;
     case encrypter of
       None \<Rightarrow> Some ([], d)
     | Some w \<Rightarrow> do {
         let skeys = map getKey vec;
         let result = get_hits E skeys d;
         let keys = get_misses E skeys d;
         if keys = [] then Some (result, release_encrypter E w d)
         else do {
           (rs, w, d) \<leftarrow> get_batch_loop E (zip keys (db_MultiGet (rocks E) (store d) Data keys)) w d;
           Some (result @ rs, release_encrypter E w d) } } }"

text \<open>The loops of the batch methods stop at the first failure.\<close>

fun txn_loop ::
  "('a \<Rightarrow> 't \<Rightarrow> ('s, 't, 'x) Database \<Rightarrow> (bool \<times> ('s, 't, 'x) Database) option) \<Rightarrow> 'a list \<Rightarrow> 't \<Rightarrow>
   ('s, 't, 'x) Database \<Rightarrow> (bool \<times> ('s, 't, 'x) Database) option" where
  "txn_loop f [] txn d = Some (True, d)"
| "txn_loop f (x # xs) txn d = do {
     (s, d) \<leftarrow> f x txn d;
     if \<not> s then Some (False, d) else txn_loop f xs txn d }"

definition Database_set_batch ::
  "('s, 't, 'x) Ext \<Rightarrow> RequestData list \<Rightarrow> ('s, 't, 'x) Database \<Rightarrow> (bool \<times> ('s, 't, 'x) Database) option" where
  "Database_set_batch E kvs = with_txn E (\<lambda>txn d. do {
     (s, d) \<leftarrow> txn_loop (\<lambda>data. set_txn E (rd_key data) (rd_value data) (rd_options data)) kvs txn d;
     if \<not> s then Some (False, d) else Some (commit E txn d) })"

definition Database_remove_batch ::
  "('s, 't, 'x) Ext \<Rightarrow> string list \<Rightarrow> ('s, 't, 'x) Database \<Rightarrow> (bool \<times> ('s, 't, 'x) Database) option" where
  "Database_remove_batch E keys = with_txn E (\<lambda>txn d. do {
     (s, d) \<leftarrow> txn_loop (\<lambda>key txn. remove_txn E key txn True) keys txn d;
     if \<not> s then Some (False, d) else Some (commit E txn d) })"

definition Database_move_batch ::
  "('s, 't, 'x) Ext \<Rightarrow> RequestData list \<Rightarrow> ('s, 't, 'x) Database \<Rightarrow> (bool \<times> ('s, 't, 'x) Database) option" where
  "Database_move_batch E kvs = with_txn E (\<lambda>txn d. do {
     (s, d) \<leftarrow> txn_loop (\<lambda>data. move_txn E (rd_key data) (rd_value data) (rd_options data)) kvs txn d;
     if \<not> s then Some (False, d) else Some (commit E txn d) })"

text \<open>The batch forms of \<open>ttl\<close> and \<open>list\<close> use the keys as they are given.\<close>

fun ttl_batch_loop ::
  "('s, 't, 'x) Ext \<Rightarrow> (string \<times> Status \<times> string) list \<Rightarrow> ('s, 't, 'x) Database \<Rightarrow>
   (string \<times> int) list \<times> ('s, 't, 'x) Database" where
  "ttl_batch_loop E [] d = ([], d)"
| "ttl_batch_loop E ((ks, st, value) # rest) d =
     (let (ttl, d) = (if ok st then parseTTL E value d else (0, d));
          (rs, d) = ttl_batch_loop E rest d
      in ((ks, ttl) # rs, d))"

definition Database_ttl_batch ::
  "('s, 't, 'x) Ext \<Rightarrow> string list \<Rightarrow> ('s, 't, 'x) Database \<Rightarrow> (string \<times> int) list \<times> ('s, 't, 'x) Database" where
  "Database_ttl_batch E vec d =
     ttl_batch_loop E (zip vec (db_MultiGet (rocks E) (store d) Expiration vec)) d"

definition Database_list_batch ::
  "('s, 't, 'x) Ext \<Rightarrow> string list \<Rightarrow> ('s, 't, 'x) Database \<Rightarrow> (string \<times> string list option) list" where
  "Database_list_batch E vec d =
     map (\<lambda>(ks, st, value). (ks, if ok st then GetNode (nodes E) value else None))
       (zip vec (db_MultiGet (rocks E) (store d) Forrest vec))"

section \<open>Opening and closing\<close>

text \<open>\<open>init\<close> throws when the database cannot be opened.\<close>

definition Database_init :: "('s, 't, 'x) Ext \<Rightarrow> ('s, 't, 'x) Database \<Rightarrow> ('s, 't, 'x) Database option" where
  "Database_init E d = (
     let (st, s) = db_Open (rocks E) (store d) in
     if \<not> ok st then None
     else Some (d\<lparr>store := s,
       transactions := Pool_new (Some None) (poolConfig (conf E)) (\<lambda>i. clock E (reads d + i)),
       reads := reads d + unat (initialSize (poolConfig (conf E)))\<rparr>))"

definition Database_close :: "('s, 't, 'x) Ext \<Rightarrow> ('s, 't, 'x) Database \<Rightarrow> ('s, 't, 'x) Database" where
  "Database_close E d = d\<lparr>store := db_Close (rocks E) (store d)\<rparr>"

definition Database_reopen :: "('s, 't, 'x) Ext \<Rightarrow> ('s, 't, 'x) Database \<Rightarrow> ('s, 't, 'x) Database option" where
  "Database_reopen E d = do {
     d \<leftarrow> Database_init E (Database_close E d);
     Some (d\<lparr>valueCache := cache_clearAll (valueCache d)\<rparr>) }"

text \<open>
  The constructor: the members first (the pool of ciphers makes its initial objects), then
  \<open>init\<close> between two readings of the clock.
\<close>

definition Database_new :: "('s, 't, 'x) Ext \<Rightarrow> 's \<Rightarrow> (string, string) ExpirationCache \<Rightarrow> ('s, 't, 'x) Database option" where
  "Database_new E s vc = (
     let pc = poolConfig (conf E); n = unat (initialSize pc) in
     if Encrypter_create E = None \<and> 0 < n then None
     else do {
       d \<leftarrow> Database_init E
         \<lparr>store = s, transactions = Pool_new (Some None) pc (clock E),
          encrypters = Pool_new (Encrypter_create E) pc (clock E), valueCache = vc, reads = Suc n\<rparr>;
       Some (snd (now E d)) })"


section \<open>A concrete database\<close>

text \<open>
  The instances in memory of the libraries, with which the theorems are applied to concrete
  inputs; \<open>on\<close> enables the value cache.
\<close>

definition sample_ext :: "bool \<Rightarrow> (mem, nat, string) Ext" where
  "sample_ext on = \<lparr>rocks = mem_rocksdb, evp = rev_evp, nodes = unary_codec,
     clock = (\<lambda>n. 1700000000000000000 + int (min n 1000000)), conf = (Configuration_init 1)\<lparr>enableCache := on\<rparr>\<rparr>"

definition sample_pool_config :: PoolConfiguration where
  "sample_pool_config = \<lparr>initialSize = 0, maxPoolSize = 2147483647, maxConnections = 2147483647,
     maxIdleTime = 2147483647 * 86400\<rparr>"

definition sample_db :: "(mem, nat, string) Database" where
  "sample_db = \<lparr>store = mem_empty, transactions = Pool_new (Some None) sample_pool_config (\<lambda>_. 0),
     encrypters = Pool_new (Encrypter_create (sample_ext False)) sample_pool_config (\<lambda>_. 0),
     valueCache = ExpirationCache_new, reads = 0\<rparr>"

text \<open>The pools start empty here; a run that must not throw is unwrapped by \<open>after\<close>.\<close>

definition after :: "('r \<times> 'd) option \<Rightarrow> 'd" where
  "after r = snd (the r)"

end
