(* ===== verification/Atomicity.thy ===== *)
theory Atomicity
  imports Database
begin

text \<open>
  Atomicity of the methods of the storage, whatever fails in RocksDB and at whatever point:
  inside a transaction nothing reaches the committed tables, and a method that reports failure
  leaves them as they were.
\<close>

locale database_lib = rocksdb "rocks E" base pending
  for E :: "('s, 't, 'x) Ext" and base :: "'s \<Rightarrow> tables" and pending :: "'s \<Rightarrow> 't \<Rightarrow> writes"
begin

abbreviation committed :: "('s, 't, 'x) Database \<Rightarrow> tables" where
  "committed d \<equiv> base (store d)"

subsection \<open>Steps of a transaction\<close>

lemma committed_put: "put E t c k v d = (st, d') \<Longrightarrow> committed d' = committed d"
  using view_put(1) by (auto simp: put_def split: prod.splits)

lemma committed_delete: "delete E t c k d = (st, d') \<Longrightarrow> committed d' = committed d"
  using view_delete(1) by (auto simp: delete_def split: prod.splits)

lemma committed_snd_delete [simp]: "committed (snd (delete E t c k d)) = committed d"
  by (metis committed_delete prod.collapse)

lemma committed_rollback: "rollback E t d = (r, d') \<Longrightarrow> committed d' = committed d"
  by (auto simp: rollback_def)

lemma committed_rollback_if: "rollback_if E b t d = (r, d') \<Longrightarrow> committed d' = committed d"
  by (auto simp: rollback_if_def dest: committed_rollback split: if_splits)

lemma committed_now: "now E d = (n, d') \<Longrightarrow> committed d' = committed d"
  by (auto simp: now_def)

lemma committed_cache [simp]:
  "committed (cache_store E ks v d) = committed d" "committed (cache_forget E ks d) = committed d"
  by (simp_all add: cache_store_def cache_forget_def)

lemma committed_release [simp]:
  "committed (release_encrypter E w d) = committed d" "committed (release_txn E h d) = committed d"
  by (simp_all add: release_encrypter_def release_txn_def now_def)

lemma committed_acquire_encrypter: "acquire_encrypter E d = Some (w, d') \<Longrightarrow> committed d' = committed d"
  by (auto simp: acquire_encrypter_def now_def Let_def split: prod.splits if_splits)

lemma committed_commit: "commit E t d = (False, d') \<Longrightarrow> committed d' = committed d"
  using base_commit [of "store d" t] by (auto simp: commit_def split: prod.splits)

lemma committed_acquire_txn: "acquire_txn E d = Some (t, w, d') \<Longrightarrow> committed d' = committed d"
  using begin_txn by (fastforce simp: acquire_txn_def now_def Let_def split: prod.splits bind_splits)

lemma committed_parseTTL: "parseTTL E v d = (r, d') \<Longrightarrow> committed d' = committed d"
  by (auto simp: parseTTL_def now_def Let_def split: option.splits if_splits)

lemma committed_move_expiration:
  "move_expiration E ks opts t d = (r, d') \<Longrightarrow> committed d' = committed d"
  by (auto simp: move_expiration_def dest: committed_parseTTL split: if_splits prod.splits)

subsection \<open>The tree\<close>

lemma base_addChild: "addChild (rocks E) N p c v t s = (r, s') \<Longrightarrow> base s' = base s"
  using view_put(1) by (fastforce simp: addChild_def Let_def split: option.splits if_splits prod.splits)

lemma base_createChild: "createChild (rocks E) N p c t s = (r, s') \<Longrightarrow> base s' = base s"
  using view_put(1) by (fastforce simp: createChild_def split: prod.splits)

lemma base_removeChildNode:
  assumes "removeChildNode (rocks E) N p c v t s = (r, s')"
  shows "base s' = base s"
  using assms view_put(1) [of s t Forrest p] view_delete(1) [of s t Forrest p]
  by (fastforce simp: removeChildNode_def Let_def split: option.splits if_splits prod.splits)

lemma base_manageTree_loop: "manageTree_loop (rocks E) N es t s = (r, s') \<Longrightarrow> base s' = base s"
proof (induction es arbitrary: s)
  case Nil
  then show ?case by simp
next
  case (Cons e es)
  then show ?case
    by (cases e) (auto split: prod.splits if_splits dest!: base_addChild base_createChild)
qed

lemma base_removeChild_loop: "removeChild_loop (rocks E) N es t s = (r, s') \<Longrightarrow> base s' = base s"
proof (induction es arbitrary: s)
  case Nil
  then show ?case by simp
next
  case (Cons e es)
  then show ?case
    by (cases e) (auto split: prod.splits if_splits dest!: base_removeChildNode)
qed

lemma committed_manageTree_in: "manageTree_in E ks t d = Some (r, d') \<Longrightarrow> committed d' = committed d"
  by (auto simp: manageTree_in_def manageTree_def dest!: base_manageTree_loop
      split: bind_splits if_splits prod.splits)

lemma committed_removeChild_in: "removeChild_in E ks t d = Some (r, d') \<Longrightarrow> committed d' = committed d"
  by (auto simp: removeChild_in_def removeChild_def dest!: base_removeChild_loop
      split: bind_splits if_splits prod.splits)

lemmas committed_steps = committed_put committed_delete committed_rollback committed_rollback_if
  committed_now committed_acquire_encrypter committed_parseTTL committed_move_expiration
  committed_manageTree_in committed_removeChild_in

subsection \<open>The operations inside a transaction\<close>

lemma committed_set_expiration: "set_expiration E ks e t d = Some (r, d') \<Longrightarrow> committed d' = committed d"
  by (auto simp: set_expiration_def Let_def dest!: committed_steps split: prod.splits if_splits)

lemma committed_set_write: "set_write E ks value v opts t d = Some (r, d') \<Longrightarrow> committed d' = committed d"
  by (auto simp: set_write_def Let_def dest!: committed_steps committed_set_expiration
      split: prod.splits if_splits bind_splits)

lemma committed_set_txn: "set_txn E key value opts t d = Some (r, d') \<Longrightarrow> committed d' = committed d"
  by (auto simp: set_txn_def Let_def dest!: committed_steps committed_set_write
      split: prod.splits if_splits bind_splits option.splits)

lemma committed_remove_txn: "remove_txn E key t b d = Some (r, d') \<Longrightarrow> committed d' = committed d"
  by (auto simp: remove_txn_def Let_def dest!: committed_steps
      split: prod.splits if_splits bind_splits)

lemma committed_move_write:
  "move_write E ks ds value cvalue opts t d = Some (r, d') \<Longrightarrow> committed d' = committed d"
  by (auto simp: move_write_def Let_def dest!: committed_steps committed_remove_txn committed_set_txn
      split: prod.splits if_splits bind_splits)

lemma committed_move_txn: "move_txn E key dest opts t d = Some (r, d') \<Longrightarrow> committed d' = committed d"
  by (auto simp: move_txn_def move_body_def Let_def dest!: committed_steps committed_move_write
      split: prod.splits if_splits bind_splits option.splits)

lemma committed_txn_loop:
  assumes "\<And>x d r d'. f x t d = Some (r, d') \<Longrightarrow> committed d' = committed d"
  shows "txn_loop f xs t d = Some (r, d') \<Longrightarrow> committed d' = committed d"
proof (induction xs arbitrary: d)
  case Nil
  then show ?case by simp
next
  case (Cons x xs)
  then show ?case by (fastforce dest: assms split: bind_splits if_splits)
qed

text \<open>A method that runs steps in a transaction and then commits.\<close>

lemma with_txn_failed:
  assumes "with_txn E (\<lambda>t d. do { (s, d) \<leftarrow> f t d; if \<not> s then Some (False, d) else Some (commit E t d) }) d =
      Some (False, d')"
    and "\<And>t d r d'. f t d = Some (r, d') \<Longrightarrow> committed d' = committed d"
  shows "committed d' = committed d"
  using assms(1)
  by (auto simp: with_txn_def dest!: committed_acquire_txn assms(2) committed_commit
      split: bind_splits prod.splits if_splits)

end

interpretation mem_lib: database_lib "sample_ext on" mem_table mem_writes
  by (simp add: database_lib_def sample_ext_def mem.rocksdb_axioms)

section \<open>Claims\<close>

lemma database_libI: "rocksdb (rocks E) base pending \<Longrightarrow> database_lib E base pending"
  by (simp add: database_lib_def)

text \<open>
  When \<open>set\<close>, \<open>remove\<close> or \<open>move\<close> of one key returns false, for whatever reason (a guard, an
  existing key, an error status of RocksDB at any step, a failed commit or a failed rollback),
  the committed tables of the database are the ones from before.
\<close>

theorem failed_update_changes_nothing:
  assumes "rocksdb (rocks E) base pending"
    and "Database_set E data d = Some (False, d') \<or> Database_remove E key d = Some (False, d') \<or>
      Database_move E data d = Some (False, d')"
  shows "base (store d') = base (store d)"
proof -
  note lib = database_libI [OF assms(1)]
  from assms(2) show ?thesis
    by (auto simp: Database_set_def Database_remove_def Database_move_def split: if_splits
        dest: database_lib.with_txn_failed [OF lib] database_lib.committed_set_txn [OF lib]
          database_lib.committed_remove_txn [OF lib] database_lib.committed_move_txn [OF lib])
qed

text \<open>
  C15: a batch \<open>set\<close>, \<open>remove\<close> or \<open>move\<close> that returns false has changed nothing that is committed,
  however many of its items had already been processed when it failed.
\<close>

theorem failed_batch_changes_nothing:
  assumes "rocksdb (rocks E) base pending"
    and "Database_set_batch E kvs d = Some (False, d') \<or> Database_remove_batch E keys d = Some (False, d') \<or>
      Database_move_batch E kvs d = Some (False, d')"
  shows "base (store d') = base (store d)"
proof -
  note lib = database_libI [OF assms(1)]
  note steps = database_lib.committed_set_txn [OF lib] database_lib.committed_remove_txn [OF lib]
    database_lib.committed_move_txn [OF lib]
  from assms(2) show ?thesis
    unfolding Database_set_batch_def Database_remove_batch_def Database_move_batch_def
    by (elim disjE) (erule database_lib.with_txn_failed [OF lib], erule database_lib.committed_txn_loop [OF lib, rotated],
        erule steps)+
qed

definition one_key_db :: "(mem, nat, string) Database" where
  "one_key_db = after (Database_set (sample_ext False) (RequestData_kv ''/k'' ''v'') sample_db)"

definition no_overwrite :: "string \<Rightarrow> string \<Rightarrow> RequestData" where
  "no_overwrite k v = RequestData_opts k v (Options_ifNotExists True)"

lemma one_key_db_runs:
  "map_option fst (Database_set (sample_ext False) (no_overwrite ''/k'' ''w'') one_key_db) = Some False"
  "map_option fst (Database_set_batch (sample_ext False)
     [RequestData_kv ''/x'' ''1'', no_overwrite ''/k'' ''w''] one_key_db) = Some False"
  by code_simp+

theorem failed_update_changes_nothing_witness:
  "\<exists>d'. Database_set (sample_ext False) (no_overwrite ''/k'' ''w'') one_key_db = Some (False, d') \<and>
     mem_table (store d') = mem_table (store one_key_db)"
proof -
  from one_key_db_runs(1) obtain d' where
    run: "Database_set (sample_ext False) (no_overwrite ''/k'' ''w'') one_key_db = Some (False, d')"
    by auto
  with failed_update_changes_nothing [OF mem_lib.rocksdb_axioms, of False _ one_key_db d'] show ?thesis
    by blast
qed

theorem failed_batch_changes_nothing_witness:
  "\<exists>d'. Database_set_batch (sample_ext False) [RequestData_kv ''/x'' ''1'', no_overwrite ''/k'' ''w'']
       one_key_db = Some (False, d') \<and>
     mem_table (store d') = mem_table (store one_key_db)"
proof -
  from one_key_db_runs(2) obtain d' where
    run: "Database_set_batch (sample_ext False) [RequestData_kv ''/x'' ''1'', no_overwrite ''/k'' ''w'']
      one_key_db = Some (False, d')"
    by auto
  with failed_batch_changes_nothing [OF mem_lib.rocksdb_axioms, of False _ one_key_db d'] show ?thesis
    by blast
qed

end
