(* ===== verification/Store.thy ===== *)
theory Store
  imports Tree_Exact Messages
begin

text \<open>
  The abstract specification of the storage: what the column families mean and what setting,
  removing and moving a key do to that meaning.  A store maps normalised keys to plain values,
  paths to the names of their children, keys to the time stamp of their expiry, time stamps to
  the key that expires, and holds the marks of cache entries.
\<close>

record Store =
  vals :: "string \<Rightarrow> string option"
  children :: kids
  expiration :: "string \<Rightarrow> string option"
  expiring :: "string \<Rightarrow> string option"
  cached :: "string \<Rightarrow> string option"

definition empty_store :: Store where
  "empty_store = \<lparr>vals = Map.empty, children = Map.empty, expiration = Map.empty,
     expiring = Map.empty, cached = Map.empty\<rparr>"

section \<open>The operations\<close>

definition entries :: "string \<Rightarrow> (string \<times> string) list" where
  "entries ks = (case treeComponents ks of None \<Rightarrow> [] | Some tuples \<Rightarrow> tuples)"

text \<open>\<open>t\<close> and \<open>t1\<close> are the two readings of the clock of a set with an expiration.\<close>

definition expiry_stamp :: "int \<Rightarrow> u32 \<Rightarrow> string" where
  "expiry_stamp t seconds = int_to_string (t + 1000000000 * uint seconds)"

definition store_value :: "string \<Rightarrow> string \<Rightarrow> Store \<Rightarrow> Store" where
  "store_value ks v a = a\<lparr>vals := (vals a)(ks \<mapsto> v)\<rparr>"

definition store_place :: "string \<Rightarrow> bool \<Rightarrow> Store \<Rightarrow> Store" where
  "store_place ks is_cache a =
     (if is_cache then a\<lparr>cached := (cached a)(ks \<mapsto> ''1'')\<rparr>
      else a\<lparr>children := kids_add (entries ks) (children a)\<rparr>)"

definition store_expire :: "string \<Rightarrow> u32 \<Rightarrow> int \<Rightarrow> int \<Rightarrow> Store \<Rightarrow> Store" where
  "store_expire ks seconds t t1 a =
     (if seconds = 0 then a
      else a\<lparr>expiration := (expiration a)(ks \<mapsto> expiry_stamp t seconds),
             expiring := (expiring a)(expiry_stamp t seconds @ int_to_string t1 \<mapsto> ks)\<rparr>)"

definition store_set :: "string \<Rightarrow> string \<Rightarrow> Options \<Rightarrow> int \<Rightarrow> int \<Rightarrow> Store \<Rightarrow> Store" where
  "store_set ks v opts t t1 a =
     store_expire ks (expirationInSeconds opts) t t1 (store_place ks (cacheEntry opts) (store_value ks v a))"

definition store_delete :: "string \<Rightarrow> Store \<Rightarrow> Store" where
  "store_delete ks a = a\<lparr>vals := (vals a)(ks := None), expiration := (expiration a)(ks := None)\<rparr>"

definition store_unplace :: "string \<Rightarrow> bool \<Rightarrow> Store \<Rightarrow> Store" where
  "store_unplace ks is_cache a =
     (if is_cache then a\<lparr>cached := (cached a)(ks := None)\<rparr>
      else a\<lparr>children := kids_remove (\<lambda>p. vals a p \<noteq> None) (rev (entries ks)) (children a)\<rparr>)"

definition store_remove :: "string \<Rightarrow> bool \<Rightarrow> Store \<Rightarrow> Store" where
  "store_remove ks is_cache a = store_unplace ks is_cache (store_delete ks a)"

lemma values_store [simp]:
  "vals (store_value ks v a) = (vals a)(ks \<mapsto> v)"
  "vals (store_place ks b a) = vals a"
  "vals (store_expire ks e t t1 a) = vals a"
  "vals (store_set ks v opts t t1 a) = (vals a)(ks \<mapsto> v)"
  "vals (store_delete ks a) = (vals a)(ks := None)"
  "vals (store_unplace ks b a) = vals a"
  "vals (store_remove ks b a) = (vals a)(ks := None)"
  by (simp_all add: store_value_def store_place_def store_expire_def store_set_def store_delete_def
      store_unplace_def store_remove_def)

section \<open>What the column families hold\<close>

definition represents :: "NodeCodec \<Rightarrow> (string \<Rightarrow> string) \<Rightarrow> tables \<Rightarrow> Store \<Rightarrow> bool" where
  "represents N ct T a \<longleftrightarrow>
     (\<forall>k. T Data k = map_option ct (vals a k)) \<and> encodes N (T Forrest) (children a) \<and>
     T Expiration = expiration a \<and> T Expiring = expiring a \<and> T CacheColumn = cached a"

lemma represents_data: "represents N ct T a \<Longrightarrow> T Data k = map_option ct (vals a k)"
  by (simp add: represents_def)

lemma represents_forest: "represents N ct T a \<Longrightarrow> encodes N (T Forrest) (children a)"
  by (simp add: represents_def)

lemma represents_value:
  "represents N ct T a \<Longrightarrow> represents N ct (tset Data ks (Some (ct v)) T) (store_value ks v a)"
  by (simp add: represents_def store_value_def)

lemma represents_mark:
  "represents N ct T a \<Longrightarrow> represents N ct (tset CacheColumn ks (Some ''1'') T) (store_place ks True a)"
  by (simp add: represents_def store_place_def tset_same_column)

lemma represents_expire:
  "represents N ct T a \<Longrightarrow> seconds \<noteq> 0 \<Longrightarrow>
   represents N ct (tset Expiring (expiry_stamp t seconds @ int_to_string t1) (Some ks)
     (tset Expiration ks (Some (expiry_stamp t seconds)) T)) (store_expire ks seconds t t1 a)"
  by (simp add: represents_def store_expire_def tset_same_column)

lemma represents_delete:
  "represents N ct T a \<Longrightarrow>
   represents N ct (tset Expiration ks None (tset Data ks None T)) (store_delete ks a)"
  by (simp add: represents_def store_delete_def tset_same_column)

lemma represents_unmark:
  "represents N ct T a \<Longrightarrow> represents N ct (tset CacheColumn ks None T) (store_unplace ks True a)"
  by (simp add: represents_def store_unplace_def tset_same_column)

text \<open>A step that changes only the tree.\<close>

lemma represents_forest_step:
  assumes "represents N ct T a" and "\<forall>c. c \<noteq> Forrest \<longrightarrow> T' c = T c" and "encodes N (T' Forrest) G"
  shows "represents N ct T' (a\<lparr>children := G\<rparr>)"
  using assms by (simp add: represents_def)

section \<open>The tree of a store without cache entries\<close>

definition store_keys :: "Store \<Rightarrow> key_names set" where
  "store_keys a = {ks. ks \<noteq> [] \<and> names_ok ks \<and> vals a (path_of ks) \<noteq> None}"

text \<open>Every key is a well-formed path, no entry is a cache entry, and the tree is exact.\<close>

definition tree_inv :: "Store \<Rightarrow> bool" where
  "tree_inv a \<longleftrightarrow> finite (store_keys a) \<and> dom (vals a) = path_of ` store_keys a \<and>
     cached a = Map.empty \<and> tree_exact (store_keys a) (children a)"

lemma keys_ok_store: "tree_inv a \<Longrightarrow> keys_ok (store_keys a)"
  by (auto simp: tree_inv_def keys_ok_def store_keys_def)

lemma tree_inv_empty: "tree_inv empty_store"
proof -
  have "store_keys empty_store = {}" by (simp add: store_keys_def empty_store_def)
  then show ?thesis by (simp add: tree_inv_def empty_store_def tree_exact_empty)
qed

lemma store_keys_upd:
  assumes "cs \<noteq> []" and "names_ok cs"
  shows "vals b = (vals a)(path_of cs \<mapsto> v) \<Longrightarrow> store_keys b = insert cs (store_keys a)"
    and "vals b = (vals a)(path_of cs := None) \<Longrightarrow> store_keys b = store_keys a - {cs}"
  using assms path_of_inject by (auto simp: store_keys_def)

lemma entries_path_of:
  "cs \<noteq> [] \<Longrightarrow> names_ok cs \<Longrightarrow> length (path_of cs) < npos \<Longrightarrow> entries (path_of cs) = node_entries [] cs"
  by (simp add: entries_def treeComponents_path_of)

text \<open>Setting a key keeps the tree exact.\<close>

lemma tree_inv_set:
  assumes inv: "tree_inv a" and cs: "cs \<noteq> []" "names_ok cs" "length (path_of cs) < npos"
    and plain: "\<not> cacheEntry opts"
  shows "tree_inv (store_set (path_of cs) v opts t t1 a)"
proof -
  let ?b = "store_set (path_of cs) v opts t t1 a"
  have keys: "store_keys ?b = insert cs (store_keys a)"
    by (rule store_keys_upd(1) [OF cs(1,2)]) simp
  have "children ?b = kids_add (node_entries [] cs) (children a)" and "cached ?b = cached a"
    using plain entries_path_of [OF cs]
    by (simp_all add: store_set_def store_expire_def store_place_def store_value_def)
  with inv keys kids_add_exact [OF _ keys_ok_store [OF inv] cs(2)] show ?thesis
    by (auto simp: tree_inv_def)
qed

text \<open>So does removing a key with no key below it.\<close>

lemma tree_inv_remove:
  assumes inv: "tree_inv a" and cs: "cs \<noteq> []" "names_ok cs" "length (path_of cs) < npos"
    and leaf: "leaf_in (store_keys a) cs"
  shows "tree_inv (store_remove (path_of cs) False a)"
proof -
  let ?b = "store_remove (path_of cs) False a"
  have keys: "store_keys ?b = store_keys a - {cs}"
    by (rule store_keys_upd(2) [OF cs(1,2)]) simp
  have dom: "dom (vals ?b) = path_of ` (store_keys a - {cs})"
  proof -
    have "inj_on path_of (insert cs (store_keys a))"
      using path_of_inject cs by (auto simp: inj_on_def store_keys_def)
    then have "path_of ` (store_keys a - {cs}) = path_of ` store_keys a - {path_of cs}"
      by (auto simp: inj_on_def)
    with inv show ?thesis by (auto simp: tree_inv_def)
  qed
  then have "(\<lambda>p. vals ?b p \<noteq> None) = (\<lambda>p. p \<in> path_of ` (store_keys a - {cs}))"
    unfolding domIff [symmetric] by (simp only:)
  moreover have "children ?b =
      kids_remove (\<lambda>p. vals ?b p \<noteq> None) (rev (node_entries [] cs)) (children a)"
    and "cached ?b = cached a"
    using entries_path_of [OF cs]
    by (simp_all add: store_remove_def store_unplace_def store_delete_def)
  ultimately show ?thesis
    using inv keys dom kids_remove_exact [OF _ keys_ok_store [OF inv] cs(2,1) leaf]
    by (auto simp: tree_inv_def)
qed

end
