(* ===== verification/Refinement.thy ===== *)
theory Refinement
  imports Atomicity Store
begin

text \<open>
  The storage refines its abstract specification: with libraries that behave as documented and
  do not fail, each operation of the class \<open>Database\<close> returns, reports what the specification
  says, and takes tables that represent a store to tables that represent the store the
  specification computes.
\<close>

section \<open>The libraries together\<close>

locale database = rocksdb_healthy "rocks E" base pending + node_codec "nodes E"
    + cipher "evp E" ciph enc_ready enc_used dec_ready dec_used
  for E :: "('s, 't, 'x) Ext" and base :: "'s \<Rightarrow> tables" and pending :: "'s \<Rightarrow> 't \<Rightarrow> writes"
    and ciph :: "string \<Rightarrow> string" and enc_ready enc_used dec_ready dec_used :: "'x \<Rightarrow> bool" +
  assumes create_encrypter: "\<exists>e. Encrypter_create E = Some e \<and> encrypter_ok e"
begin

sublocale tree_db_healthy "rocks E" base pending "nodes E" ..

sublocale database_lib E base pending ..

abbreviation meaning :: "tables \<Rightarrow> Store \<Rightarrow> bool" where
  "meaning T a \<equiv> represents (nodes E) cipher_text T a"

text \<open>The pool of ciphers with \<open>u\<close> objects in use, the pool of transactions with \<open>u\<close> in use.\<close>

definition enc_at :: "nat \<Rightarrow> ('s, 't, 'x) Database \<Rightarrow> bool" where
  "enc_at u d \<longleftrightarrow> pool_holds encrypter_ok (encrypters d) \<and> pool_in_use (encrypters d) = u \<and>
     pool_limit (encrypters d) = 2147483647"

definition txn_at :: "nat \<Rightarrow> ('s, 't, 'x) Database \<Rightarrow> bool" where
  "txn_at u d \<longleftrightarrow> pool_holds (\<lambda>_. True) (transactions d) \<and> pool_in_use (transactions d) = u \<and>
     pool_limit (transactions d) = 2147483647"

text \<open>What a step inside a transaction leaves alone.\<close>

definition frame :: "('s, 't, 'x) Database \<Rightarrow> ('s, 't, 'x) Database \<Rightarrow> bool" where
  "frame d d' \<longleftrightarrow> transactions d' = transactions d \<and> committed d' = committed d \<and> reads d \<le> reads d'"

lemma frame_refl [simp]: "frame d d"
  by (simp add: frame_def)

lemma frame_trans: "frame d d1 \<Longrightarrow> frame d1 d2 \<Longrightarrow> frame d d2"
  by (simp add: frame_def)

text \<open>Inside the transaction \<open>t\<close> the tables represent \<open>a\<close>.\<close>

definition inside :: "'t \<Rightarrow> nat \<Rightarrow> Store \<Rightarrow> ('s, 't, 'x) Database \<Rightarrow> bool" where
  "inside t u a d \<longleftrightarrow> meaning (view (store d) t) a \<and> enc_at u d"

section \<open>Ciphers\<close>

lemma acquire_encrypter_ok:
  assumes "enc_at u d" and "u < 2147483647"
  shows "\<exists>w d' e. acquire_encrypter E d = Some (Some w, d') \<and> con w = Some e \<and> encrypter_ok e \<and>
    enc_at (Suc u) d' \<and> store d' = store d \<and> transactions d' = transactions d \<and>
    valueCache d' = valueCache d \<and> reads d \<le> reads d'"
proof -
  obtain e0 where e0: "Encrypter_create E = Some e0" "encrypter_ok e0" using create_encrypter by blast
  obtain w p e where acq: "acquire (Some e0) (fst (now E d)) (encrypters d) = (Some w, p)" "con w = Some e"
    "encrypter_ok e" "pool_holds encrypter_ok p" "pool_in_use p = Suc u" "pool_limit p = 2147483647"
    using pool.acq_below [of "encrypters d" encrypter_ok "Some e0" e0 "fst (now E d)"] assms e0
    by (auto simp: enc_at_def)
  then show ?thesis
    by (intro exI [of _ w] exI [of _ "d\<lparr>reads := Suc (reads d), encrypters := p\<rparr>"] exI [of _ e])
      (simp add: acquire_encrypter_def e0 now_def enc_at_def)
qed

lemma release_encrypter_ok:
  assumes "enc_at (Suc u) d" and "con w = Some e" and "encrypter_ok e"
  shows "enc_at u (release_encrypter E w d)"
  using assms pool.rel_holds [of encrypter_ok "encrypters d" w e] pool.rel_in_use [of w e "encrypters d"]
  by (simp add: enc_at_def release_encrypter_def now_def)

lemma release_encrypter_frame [simp]:
  "store (release_encrypter E w d) = store d" "transactions (release_encrypter E w d) = transactions d"
  "valueCache (release_encrypter E w d) = valueCache d" "reads (release_encrypter E w d) = Suc (reads d)"
  by (simp_all add: release_encrypter_def now_def)

lemma encrypt_with_ok:
  assumes "con w = Some e" and "encrypter_ok e" and "length v < 2 ^ 31"
  shows "\<exists>w' e'. encrypt_with E v w = Some (cipher_text v, w') \<and> con w' = Some e' \<and> encrypter_ok e'"
  using encrypt_ok [OF assms(2,3)] assms(1) by (auto simp: encrypt_with_def)

lemma decrypt_with_ok:
  assumes "con w = Some e" and "encrypter_ok e" and "length v + 16 < 2 ^ 31"
  shows "\<exists>w' e'. decrypt_with E (cipher_text v) w = Some (v, w') \<and> con w' = Some e' \<and> encrypter_ok e'"
  using decrypt_ok [OF assms(2,3)] assms(1) by (auto simp: decrypt_with_def)

section \<open>Steps inside a transaction\<close>

lemma inside_put:
  assumes "inside t u a d"
  shows "\<exists>d'. put E t c k v d = (OkStatus, d') \<and> frame d d' \<and> enc_at u d' \<and> valueCache d' = valueCache d \<and>
    view (store d') t = tset c k (Some v) (view (store d) t) \<and> reads d' = reads d"
proof -
  obtain st s where p: "txn_Put (rocks E) (store d) t c k v = (st, s)" by fastforce
  moreover have "st = OkStatus" using put_ok_healthy [OF p] .
  ultimately show ?thesis
    using view_put [OF p] assms by (simp add: put_def frame_def inside_def enc_at_def)
qed

lemma inside_delete:
  assumes "inside t u a d"
  shows "\<exists>d'. delete E t c k d = (OkStatus, d') \<and> frame d d' \<and> enc_at u d' \<and> valueCache d' = valueCache d \<and>
    view (store d') t = tset c k None (view (store d) t) \<and> reads d' = reads d"
proof -
  obtain st s where p: "txn_Delete (rocks E) (store d) t c k = (st, s)" by fastforce
  moreover have "st = OkStatus" using delete_ok_healthy [OF p] .
  ultimately show ?thesis
    using view_delete [OF p] assms by (simp add: delete_def frame_def inside_def enc_at_def)
qed

lemma manageTree_in_ok:
  assumes "inside t u a d" and "ks \<noteq> []"
  shows "\<exists>d'. manageTree_in E ks t d = Some (True, d') \<and> frame d d' \<and> valueCache d' = valueCache d \<and>
    reads d' = reads d \<and> inside t u (store_place ks False a) d'"
proof -
  from assms(2) obtain es where es: "treeComponents ks = Some es" using treeComponents_total by blast
  have enc: "encodes (nodes E) (view (store d) t Forrest) (children a)"
    using assms(1) represents_forest by (auto simp: inside_def)
  obtain r s where loop: "manageTree_loop (rocks E) (nodes E) es t (store d) = (r, s)" by fastforce
  have r using manageTree_loop_succeeds [OF enc] loop by (metis fst_conv)
  with manageTree_loop_view [OF loop enc] have step: "forest_step t (store d) s"
    "encodes (nodes E) (view s t Forrest) (kids_add es (children a))" by auto
  have "manageTree_in E ks t d = Some (True, d\<lparr>store := s\<rparr>)"
    using loop \<open>r\<close> by (auto simp: manageTree_in_def manageTree_def es)
  moreover have "meaning (view s t) (store_place ks False a)"
    using represents_forest_step [of "nodes E" cipher_text "view (store d) t" a "view s t"
        "kids_add es (children a)"] step assms(1)
    by (simp add: inside_def forest_step_def store_place_def entries_def es)
  ultimately show ?thesis
    using step(1) assms(1) by (simp add: frame_def inside_def enc_at_def forest_step_def)
qed

lemma removeChild_in_ok:
  assumes "inside t u a d" and "ks \<noteq> []"
  shows "\<exists>d'. removeChild_in E ks t d = Some (True, d') \<and> frame d d' \<and> valueCache d' = valueCache d \<and>
    reads d' = reads d \<and> inside t u (store_unplace ks False a) d'"
proof -
  from assms(2) obtain es where es: "treeComponents ks = Some es" using treeComponents_total by blast
  let ?D = "\<lambda>p. vals a p \<noteq> None"
  have enc: "encodes (nodes E) (view (store d) t Forrest) (children a)"
    using assms(1) represents_forest by (auto simp: inside_def)
  have data: "has_data t s1 p = ?D p" if "forest_step t (store d) s1" for s1 p
    using that represents_data [of "nodes E" cipher_text "view (store d) t" a p] assms(1)
    by (simp add: has_data_iff forest_step_def inside_def)
  obtain r s where loop: "removeChild_loop (rocks E) (nodes E) (rev es) t (store d) = (r, s)" by fastforce
  have r using removeChild_loop_succeeds [OF enc] loop by (metis fst_conv)
  with removeChild_loop_view [OF loop enc data] have step: "forest_step t (store d) s"
    "encodes (nodes E) (view s t Forrest) (kids_remove ?D (rev es) (children a))" by auto
  have "removeChild_in E ks t d = Some (True, d\<lparr>store := s\<rparr>)"
    using loop \<open>r\<close> by (auto simp: removeChild_in_def removeChild_def es)
  moreover have "meaning (view s t) (store_unplace ks False a)"
    using represents_forest_step [of "nodes E" cipher_text "view (store d) t" a "view s t"
        "kids_remove ?D (rev es) (children a)"] step assms(1)
    by (simp add: inside_def forest_step_def store_unplace_def entries_def es)
  ultimately show ?thesis
    using step(1) assms(1) by (simp add: frame_def inside_def enc_at_def forest_step_def)
qed

end

context database
begin

section \<open>Setting a key\<close>

text \<open>The readings of the clock leave room for the longest expiration (until the year 2126).\<close>

definition clock_ok :: bool where
  "clock_ok \<longleftrightarrow> (\<forall>i. 0 \<le> clock E i \<and> clock E i + 4294967296000000000 < 2 ^ 63)"

lemma expiry_in_range: "clock_ok \<Longrightarrow> clock E i + 1000000000 * uint (e :: u32) < 2 ^ 63"
proof -
  assume "clock_ok"
  then have "clock E i + 4294967296000000000 < 2 ^ 63" by (simp add: clock_ok_def)
  moreover have "uint e < 4294967296" using uint_lt2p [of e] by simp
  ultimately show ?thesis by linarith
qed

lemma set_expiration_ok:
  assumes "inside t u a d" and "seconds \<noteq> 0" and "clock_ok"
  shows "\<exists>d'. set_expiration E ks seconds t d = Some (True, d') \<and> frame d d' \<and> valueCache d' = valueCache d \<and>
    inside t u (store_expire ks seconds (clock E (reads d)) (clock E (Suc (reads d))) a) d'"
proof -
  let ?n = "clock E (reads d)" and ?m = "clock E (Suc (reads d))"
  let ?ts = "expiry_stamp ?n seconds"
  have in0: "inside t u a (d\<lparr>reads := Suc (reads d)\<rparr>)"
    using assms(1) by (simp add: inside_def enc_at_def)
  from inside_put [OF in0, of Expiration ks ?ts] obtain d1 where
    p1: "put E t Expiration ks ?ts (d\<lparr>reads := Suc (reads d)\<rparr>) = (OkStatus, d1)"
    "frame (d\<lparr>reads := Suc (reads d)\<rparr>) d1" "enc_at u d1" "valueCache d1 = valueCache d"
    "view (store d1) t = tset Expiration ks (Some ?ts) (view (store d) t)" "reads d1 = Suc (reads d)"
    by auto
  have in1: "inside t u (a\<lparr>expiration := (expiration a)(ks \<mapsto> ?ts)\<rparr>) (d1\<lparr>reads := Suc (reads d1)\<rparr>)"
    using p1 assms(1) by (simp add: inside_def enc_at_def represents_def tset_same_column)
  from inside_put [OF in1, of Expiring "?ts @ int_to_string ?m" ks] obtain d2 where
    p2: "put E t Expiring (?ts @ int_to_string ?m) ks (d1\<lparr>reads := Suc (reads d1)\<rparr>) = (OkStatus, d2)"
    "frame (d1\<lparr>reads := Suc (reads d1)\<rparr>) d2" "enc_at u d2" "valueCache d2 = valueCache d"
    "view (store d2) t = tset Expiring (?ts @ int_to_string ?m) (Some ks) (view (store d1) t)"
    using p1(4) by auto
  have "set_expiration E ks seconds t d = Some (True, d2)"
    using p1 p2 expiry_in_range [OF assms(3), of "reads d" seconds]
    by (simp add: set_expiration_def now_def Let_def expiry_stamp_def not_le)
  moreover have "frame d d2" using p1(2,6) p2(2) by (simp add: frame_def)
  moreover have "inside t u (store_expire ks seconds ?n ?m a) d2"
    using p1(5) p2(3,5) assms(1,2) represents_expire by (simp add: inside_def)
  ultimately show ?thesis using p2(4) by blast
qed

lemma set_write_ok:
  assumes "inside t u a d" and "ks \<noteq> []" and "clock_ok"
  shows "\<exists>d' i j. set_write E ks value (cipher_text value) opts t d = Some (True, d') \<and> frame d d' \<and>
    valueCache d' = valueCache (cache_store E ks value d) \<and> reads d \<le> i \<and> i < j \<and>
    inside t u (store_set ks value opts (clock E i) (clock E j) a) d'"
proof -
  let ?a1 = "store_value ks value a"
  let ?a2 = "store_place ks (cacheEntry opts) ?a1"
  from inside_put [OF assms(1), of Data ks "cipher_text value"] obtain d1 where
    p1: "put E t Data ks (cipher_text value) d = (OkStatus, d1)" "frame d d1" "enc_at u d1"
    "valueCache d1 = valueCache d" "reads d1 = reads d"
    "view (store d1) t = tset Data ks (Some (cipher_text value)) (view (store d) t)" by auto
  have in1: "inside t u ?a1 d1" using p1(3,6) assms(1) represents_value by (simp add: inside_def)
  have "\<exists>d2. (if cacheEntry opts then (let (st, d) = put E t CacheColumn ks ''1'' d1 in Some (ok st, d))
      else manageTree_in E ks t d1) = Some (True, d2) \<and> frame d1 d2 \<and> valueCache d2 = valueCache d1 \<and>
      reads d2 = reads d1 \<and> inside t u ?a2 d2"
  proof (cases "cacheEntry opts")
    case True
    with inside_put [OF in1, of CacheColumn ks "''1''"] in1 represents_mark show ?thesis
      by (auto simp: inside_def)
  next
    case False
    with manageTree_in_ok [OF in1 assms(2)] show ?thesis by simp
  qed
  then obtain d2 where p2: "(if cacheEntry opts then (let (st, d) = put E t CacheColumn ks ''1'' d1 in Some (ok st, d))
      else manageTree_in E ks t d1) = Some (True, d2)" "frame d1 d2" "valueCache d2 = valueCache d1"
    "reads d2 = reads d1" "inside t u ?a2 d2" by blast
  have "\<exists>d3. (if expirationInSeconds opts > 0 then set_expiration E ks (expirationInSeconds opts) t d2
      else Some (True, d2)) = Some (True, d3) \<and> frame d2 d3 \<and> valueCache d3 = valueCache d2 \<and>
      inside t u (store_set ks value opts (clock E (reads d2)) (clock E (Suc (reads d2))) a) d3"
    using set_expiration_ok [OF p2(5), of "expirationInSeconds opts" ks] assms(3) p2(5)
    by (cases "expirationInSeconds opts = 0") (auto simp: store_set_def store_expire_def word_neq_0_conv)
  then obtain d3 where p3: "(if expirationInSeconds opts > 0 then set_expiration E ks (expirationInSeconds opts) t d2
      else Some (True, d2)) = Some (True, d3)" "frame d2 d3" "valueCache d3 = valueCache d2"
      "inside t u (store_set ks value opts (clock E (reads d2)) (clock E (Suc (reads d2))) a) d3" by blast
  have "set_write E ks value (cipher_text value) opts t d = Some (True, cache_store E ks value d3)"
    unfolding set_write_def p1(1) Let_def prod.case p2(1) [unfolded Let_def]
    by (simp add: p3(1) split del: if_split)
  moreover have "frame d (cache_store E ks value d3)"
    using p1(2) p2(2) p3(2) by (auto simp: frame_def cache_store_def)
  moreover have "inside t u (store_set ks value opts (clock E (reads d2)) (clock E (Suc (reads d2))) a)
      (cache_store E ks value d3)"
    using p3(4) by (simp add: inside_def enc_at_def cache_store_def)
  ultimately show ?thesis
    using p1(4,5) p2(3,4) p3(3)
    by (intro exI [of _ "cache_store E ks value d3"] exI [of _ "reads d2"] exI [of _ "Suc (reads d2)"])
      (simp add: cache_store_def)
qed

end


section \<open>The time to live of a stamp\<close>

definition stamp_ttl :: "string \<Rightarrow> int \<Rightarrow> int" where
  "stamp_ttl value t =
     (case from_chars_unsigned 64 value of
        None \<Rightarrow> 0
      | Some v \<Rightarrow> (let ns = sint (word_of_nat v :: u64) in if ns > t then to_seconds (ns - t) else 0))"

lemma parseTTL_stamp:
  "\<exists>d'. parseTTL E value d = (stamp_ttl value (clock E (reads d)), d') \<and> store d' = store d \<and>
     transactions d' = transactions d \<and> encrypters d' = encrypters d \<and> valueCache d' = valueCache d \<and>
     reads d \<le> reads d'"
  by (auto simp: parseTTL_def stamp_ttl_def now_def Let_def split: option.splits)

text \<open>The options with which \<open>move\<close> sets the destination.\<close>

definition move_options :: "Options \<Rightarrow> string \<Rightarrow> int \<Rightarrow> Store \<Rightarrow> Options" where
  "move_options opts ks t a =
     \<lparr>expirationInSeconds = word_of_int
        (if expirationInSeconds opts \<noteq> 0 then uint (expirationInSeconds opts)
         else case expiration a ks of None \<Rightarrow> 0 | Some nsv \<Rightarrow> stamp_ttl nsv t),
      ifNotExists = ifNotExists opts,
      cacheEntry = (case cached a ks of None \<Rightarrow> cacheEntry opts
        | Some c \<Rightarrow> if c = [] then cacheEntry opts else True)\<rparr>"

lemma getKey_nonempty [simp]: "getKey key \<noteq> []"
  by (simp add: getKey_def)

lemma getKey_idem [simp]: "getKey (getKey key) = getKey key"
  by (auto simp: getKey_def)

context database
begin

lemma txn_data_found:
  assumes "inside t u a d"
  shows "fst (txn_Get (rocks E) (store d) t Data k) \<noteq> NotFound \<longleftrightarrow> vals a k \<noteq> None"
    and "vals a k = Some v \<Longrightarrow> txn_Get (rocks E) (store d) t Data k = (OkStatus, cipher_text v)"
    and "vals a k = None \<Longrightarrow> fst (txn_Get (rocks E) (store d) t Data k) = NotFound"
proof -
  have data: "view (store d) t Data k = map_option cipher_text (vals a k)"
    using assms represents_data by (auto simp: inside_def)
  show found: "vals a k = Some v \<Longrightarrow> txn_Get (rocks E) (store d) t Data k = (OkStatus, cipher_text v)" for v
    using txn_get_some data by simp
  show none: "vals a k = None \<Longrightarrow> fst (txn_Get (rocks E) (store d) t Data k) = NotFound"
    using txn_get_none data by simp
  show "fst (txn_Get (rocks E) (store d) t Data k) \<noteq> NotFound \<longleftrightarrow> vals a k \<noteq> None"
    using found none by (cases "vals a k") auto
qed

lemma inside_cong:
  "inside t u a d \<Longrightarrow> store d' = store d \<Longrightarrow> enc_at u' d' \<Longrightarrow> inside t u' a d'"
  by (simp add: inside_def)

lemma set_txn_exists:
  assumes "inside t u a d" and "u < 2147483647" and "length value < 2 ^ 31"
    and "ifNotExists opts" and "vals a (getKey key) \<noteq> None"
  shows "\<exists>d'. set_txn E key value opts t d = Some (False, d') \<and> frame d d' \<and> inside t u a d' \<and>
    valueCache d' = valueCache d"
proof -
  from acquire_encrypter_ok [of u d] assms obtain w d1 e where
    acq: "acquire_encrypter E d = Some (Some w, d1)" "con w = Some e" "encrypter_ok e" "enc_at (Suc u) d1"
    "store d1 = store d" "transactions d1 = transactions d" "valueCache d1 = valueCache d" "reads d \<le> reads d1"
    by (auto simp: inside_def)
  from encrypt_with_ok [OF acq(2,3) assms(3)] obtain w1 e1 where
    enc: "encrypt_with E value w = Some (cipher_text value, w1)" "con w1 = Some e1" "encrypter_ok e1" by blast
  have "fst (txn_Get (rocks E) (store d1) t Data (getKey key)) \<noteq> NotFound"
    using txn_data_found(1) [OF assms(1)] assms(5) acq(5) by simp
  then have "set_txn E key value opts t d = Some (False, release_encrypter E w1 d1)"
    using acq(1) enc(1) assms(4) by (simp add: set_txn_def Let_def)
  with release_encrypter_ok [OF acq(4) enc(2,3)] acq assms(1) show ?thesis
    by (auto simp: frame_def intro!: inside_cong [OF assms(1)])
qed

lemma set_txn_ok:
  assumes "inside t u a d" and "u < 2147483647" and "length value < 2 ^ 31" and "clock_ok"
    and "ifNotExists opts \<Longrightarrow> vals a (getKey key) = None"
  shows "\<exists>d' i j. set_txn E key value opts t d = Some (True, d') \<and> frame d d' \<and> reads d \<le> i \<and> i < j \<and>
    inside t u (store_set (getKey key) value opts (clock E i) (clock E j) a) d' \<and>
    valueCache d' = valueCache (cache_store E (getKey key) value d)"
proof -
  let ?ks = "getKey key"
  from acquire_encrypter_ok [of u d] assms obtain w d1 e where
    acq: "acquire_encrypter E d = Some (Some w, d1)" "con w = Some e" "encrypter_ok e" "enc_at (Suc u) d1"
    "store d1 = store d" "transactions d1 = transactions d" "valueCache d1 = valueCache d" "reads d \<le> reads d1"
    by (auto simp: inside_def)
  from encrypt_with_ok [OF acq(2,3) assms(3)] obtain w1 e1 where
    enc: "encrypt_with E value w = Some (cipher_text value, w1)" "con w1 = Some e1" "encrypter_ok e1" by blast
  have in1: "inside t (Suc u) a d1" by (rule inside_cong [OF assms(1) acq(5) acq(4)])
  from set_write_ok [OF in1 getKey_nonempty [of key] assms(4), of "value" opts] obtain d2 i j where
    wrt: "set_write E ?ks value (cipher_text value) opts t d1 = Some (True, d2)" "frame d1 d2"
    "valueCache d2 = valueCache (cache_store E ?ks value d1)" "reads d1 \<le> i" "i < j"
    "inside t (Suc u) (store_set ?ks value opts (clock E i) (clock E j) a) d2" by blast
  have "ifNotExists opts \<Longrightarrow> fst (txn_Get (rocks E) (store d1) t Data ?ks) = NotFound"
    using txn_data_found(3) [OF in1] assms(5) by simp
  then have "set_txn E key value opts t d = Some (True, release_encrypter E w1 d2)"
    using acq(1) enc(1) wrt(1) by (simp add: set_txn_def Let_def)
  moreover have "frame d (release_encrypter E w1 d2)"
    using wrt(2) acq(5,6,8) by (simp add: frame_def)
  moreover have "enc_at u (release_encrypter E w1 d2)"
    using release_encrypter_ok [OF _ enc(2,3)] wrt(6) by (simp add: inside_def)
  then have "inside t u (store_set ?ks value opts (clock E i) (clock E j) a) (release_encrypter E w1 d2)"
    using inside_cong [OF wrt(6)] by simp
  ultimately show ?thesis
    using wrt(3,4,5) acq(7,8)
    by (intro exI [of _ "release_encrypter E w1 d2"] exI [of _ i] exI [of _ j]) (simp add: cache_store_def)
qed

section \<open>Removing a key\<close>

lemma remove_txn_ok:
  assumes "inside t u a d"
  shows "\<exists>d'. remove_txn E key t b d = Some (True, d') \<and> frame d d' \<and>
    inside t u (store_remove (getKey key) (committed d CacheColumn (getKey key) \<noteq> None) a) d' \<and>
    valueCache d' = valueCache (cache_forget E (getKey key) d)"
proof -
  let ?ks = "getKey key"
  let ?c = "committed d CacheColumn ?ks \<noteq> None"
  from inside_delete [OF assms, of Data ?ks] obtain d1 where
    p1: "delete E t Data ?ks d = (OkStatus, d1)" "frame d d1" "enc_at u d1" "valueCache d1 = valueCache d"
    "view (store d1) t = tset Data ?ks None (view (store d) t)" by auto
  have in1: "inside t u (a\<lparr>vals := (vals a)(?ks := None)\<rparr>) d1"
    using p1(3,5) assms by (simp add: inside_def represents_def)
  from inside_delete [OF in1, of Expiration ?ks] obtain d2 where
    p2: "delete E t Expiration ?ks d1 = (OkStatus, d2)" "frame d1 d2" "enc_at u d2" "valueCache d2 = valueCache d"
    "view (store d2) t = tset Expiration ?ks None (view (store d1) t)" using p1(4) by auto
  have in2: "inside t u (store_delete ?ks a) d2"
    using p1(5) p2(3,5) assms represents_delete by (simp add: inside_def)
  have same: "committed d2 = committed d" using p1(2) p2(2) by (simp add: frame_def)
  have got: "ok (fst (db_Get (rocks E) (store d2) CacheColumn ?ks)) \<longleftrightarrow> ?c"
    using get_some [of "store d2" CacheColumn ?ks] get_none [of "store d2" CacheColumn ?ks]
    by (cases "committed d CacheColumn ?ks") (auto simp: same)
  have "\<exists>d3. (if ok (fst (db_Get (rocks E) (store d2) CacheColumn ?ks))
      then Some (True, snd (delete E t CacheColumn ?ks d2)) else removeChild_in E ?ks t d2) = Some (True, d3) \<and>
      frame d2 d3 \<and> valueCache d3 = valueCache d2 \<and> inside t u (store_remove ?ks ?c a) d3"
  proof (cases ?c)
    case True
    from inside_delete [OF in2, of CacheColumn ?ks] obtain d3 where
      "delete E t CacheColumn ?ks d2 = (OkStatus, d3)" "frame d2 d3" "enc_at u d3" "valueCache d3 = valueCache d2"
      "view (store d3) t = tset CacheColumn ?ks None (view (store d2) t)" by auto
    with True got in2 represents_unmark show ?thesis
      by (auto simp: store_remove_def inside_def)
  next
    case False
    with removeChild_in_ok [OF in2 getKey_nonempty [of key]] got show ?thesis
      by (auto simp: store_remove_def)
  qed
  then obtain d3 where p3: "(if ok (fst (db_Get (rocks E) (store d2) CacheColumn ?ks))
      then Some (True, snd (delete E t CacheColumn ?ks d2)) else removeChild_in E ?ks t d2) = Some (True, d3)"
    "frame d2 d3" "valueCache d3 = valueCache d2" "inside t u (store_remove ?ks ?c a) d3" by blast
  have "remove_txn E key t b d = Some (True, cache_forget E ?ks d3)"
    unfolding remove_txn_def Let_def p1(1) p2(1) prod.case p3(1) by simp
  moreover have "frame d (cache_forget E ?ks d3)"
    using p1(2) p2(2) p3(2) by (auto simp: frame_def cache_forget_def)
  moreover have "inside t u (store_remove ?ks ?c a) (cache_forget E ?ks d3)"
    using p3(4) by (simp add: inside_def enc_at_def cache_forget_def)
  ultimately show ?thesis using p2(4) p3(3) by (auto simp: cache_forget_def)
qed

end


context database
begin

section \<open>Moving a key\<close>

lemma move_expiration_ok:
  assumes "inside t u a d"
  shows "\<exists>exp d'. move_expiration E ks opts t d = (exp, d') \<and>
    word_of_int exp = expirationInSeconds (move_options opts ks (clock E (reads d)) a) \<and>
    frame d d' \<and> inside t u a d' \<and> valueCache d' = valueCache d"
proof -
  have exp: "view (store d) t Expiration ks = expiration a ks"
    using assms by (simp add: inside_def represents_def)
  show ?thesis
  proof (cases "expirationInSeconds opts \<noteq> 0")
    case True
    with assms show ?thesis by (simp add: move_expiration_def move_options_def)
  next
    case False
    show ?thesis
    proof (cases "expiration a ks")
      case None
      with False assms txn_get_none [of "store d" t Expiration ks] exp show ?thesis
        by (auto simp: move_expiration_def move_options_def split: prod.splits)
    next
      case (Some nsv)
      obtain d' where "parseTTL E nsv d = (stamp_ttl nsv (clock E (reads d)), d')" "store d' = store d"
        "transactions d' = transactions d" "encrypters d' = encrypters d" "valueCache d' = valueCache d"
        "reads d \<le> reads d'" using parseTTL_stamp [of E nsv d] by blast
      with False Some assms txn_get_some [of "store d" t Expiration ks nsv] exp show ?thesis
        by (auto simp: move_expiration_def move_options_def frame_def inside_def enc_at_def)
    qed
  qed
qed

lemma move_write_ok:
  assumes "inside t u a d" and "u < 2147483647" and "length v < 2 ^ 31" and "clock_ok"
    and "ifNotExists opts \<Longrightarrow> vals a ds = None" and "getKey ks = ks" and "getKey ds = ds"
    and cv: "cv = (case cached a ks of None \<Rightarrow> [] | Some c \<Rightarrow> c)"
  defines "b \<equiv> committed d CacheColumn ks \<noteq> None"
  shows "\<exists>d' n i j. move_write E ks ds v cv opts t d = Some (True, d') \<and> frame d d' \<and> reads d \<le> n \<and>
    inside t u (store_set ds v (move_options opts ks (clock E n) a) (clock E i) (clock E j)
      (store_remove ks b a)) d' \<and>
    valueCache d' = valueCache (cache_store E ds v (cache_forget E ks d))"
proof -
  let ?n = "clock E (reads d)"
  from move_expiration_ok [OF assms(1), of ks opts] obtain exp d1 where
    m: "move_expiration E ks opts t d = (exp, d1)"
    "word_of_int exp = expirationInSeconds (move_options opts ks ?n a)" "frame d d1" "inside t u a d1"
    "valueCache d1 = valueCache d" by blast
  have b: "(committed d1 CacheColumn ks \<noteq> None) = b" using m(3) by (simp add: b_def frame_def)
  from remove_txn_ok [OF m(4), of ks True] obtain d2 where
    r: "remove_txn E ks t True d1 = Some (True, d2)" "frame d1 d2" "inside t u (store_remove ks b a) d2"
    "valueCache d2 = valueCache (cache_forget E ks d1)" using assms(6) b by auto
  have opts: "\<lparr>expirationInSeconds = word_of_int exp, ifNotExists = ifNotExists opts,
      cacheEntry = (if cv = [] then cacheEntry opts else True)\<rparr> = move_options opts ks ?n a"
    using m(2) by (auto simp: move_options_def cv split: option.splits)
  have "ifNotExists (move_options opts ks ?n a) \<Longrightarrow> vals (store_remove ks b a) (getKey ds) = None"
    using assms(5,7) by (simp add: move_options_def)
  from set_txn_ok [where opts = "move_options opts ks ?n a" and key = ds, OF r(3) assms(2-4) this] obtain d3 i j where
    s: "set_txn E ds v (move_options opts ks ?n a) t d2 = Some (True, d3)" "frame d2 d3"
    "inside t u (store_set ds v (move_options opts ks ?n a) (clock E i) (clock E j) (store_remove ks b a)) d3"
    "valueCache d3 = valueCache (cache_store E ds v d2)" using assms(7) by auto
  have "move_write E ks ds v cv opts t d = Some (True, d3)"
    by (simp add: move_write_def m(1) r(1) opts s(1))
  moreover have "frame d d3" by (intro frame_trans [OF m(3)] frame_trans [OF r(2)] s(2))
  ultimately show ?thesis
    using s(3,4) r(4) m(5)
    by (intro exI [of _ d3] exI [of _ "reads d"] exI [of _ i] exI [of _ j])
      (simp add: cache_store_def cache_forget_def)
qed

lemma move_txn_ok:
  fixes key dest
  defines "ks \<equiv> getKey key" and "ds \<equiv> getKey dest"
  assumes "inside t u a d" and "Suc u < 2147483647" and "vals a ks = Some v" and "length v + 16 < 2 ^ 31"
    and "clock_ok" and "ifNotExists opts \<Longrightarrow> vals a ds = None"
  shows "\<exists>d' n i j. move_txn E key dest opts t d = Some (True, d') \<and> frame d d' \<and> reads d \<le> n \<and>
    inside t u (store_set ds v (move_options opts ks (clock E n) a) (clock E i) (clock E j)
      (store_remove ks (committed d CacheColumn ks \<noteq> None) a)) d' \<and>
    valueCache d' = valueCache (cache_store E ds v (cache_forget E ks d))"
proof -
  from acquire_encrypter_ok [of u d] assms(3,4) obtain w d1 e where
    acq: "acquire_encrypter E d = Some (Some w, d1)" "con w = Some e" "encrypter_ok e" "enc_at (Suc u) d1"
    "store d1 = store d" "transactions d1 = transactions d" "valueCache d1 = valueCache d" "reads d \<le> reads d1"
    by (auto simp: inside_def)
  have in1: "inside t (Suc u) a d1" by (rule inside_cong [OF assms(3) acq(5) acq(4)])
  from decrypt_with_ok [OF acq(2,3) assms(6)] obtain w1 e1 where
    dec: "decrypt_with E (cipher_text v) w = Some (v, w1)" "con w1 = Some e1" "encrypter_ok e1" by blast
  define cv where "cv = (case cached a ks of None \<Rightarrow> [] | Some c \<Rightarrow> c)"
  have col: "view (store d1) t CacheColumn ks = cached a ks"
    using in1 by (simp add: inside_def represents_def)
  have cvalue: "(case txn_Get (rocks E) (store d1) t CacheColumn ks of (st, c) \<Rightarrow> if ok st then c else []) = cv"
    using txn_get_some [of "store d1" t CacheColumn ks] txn_get_none [of "store d1" t CacheColumn ks]
    by (cases "cached a ks") (auto simp: cv_def col split: prod.splits)
  have len: "length v < 2 ^ 31" using assms(6) by simp
  from move_write_ok [where opts = opts and ds = ds, OF in1 assms(4) len assms(7,8) _ _ cv_def] obtain d2 n i j where
    m: "move_write E ks ds v cv opts t d1 = Some (True, d2)" "frame d1 d2" "reads d1 \<le> n"
    "inside t (Suc u) (store_set ds v (move_options opts ks (clock E n) a) (clock E i) (clock E j)
      (store_remove ks (committed d CacheColumn ks \<noteq> None) a)) d2"
    "valueCache d2 = valueCache (cache_store E ds v (cache_forget E ks d1))"
    using acq(5) by (auto simp: ks_def ds_def)
  have "\<not> (ifNotExists opts \<and> fst (txn_Get (rocks E) (store d1) t Data ds) \<noteq> NotFound)"
    using txn_data_found(1) [OF in1] assms(8) by auto
  then have "move_body E ks ds opts t w d1 = Some ((True, w1), d2)"
    using txn_data_found(2) [OF in1 assms(5)] dec(1) cvalue m(1)
    by (auto simp: move_body_def Let_def split: prod.splits)
  then have "move_txn E key dest opts t d = Some (True, release_encrypter E w1 d2)"
    using acq(1) by (simp add: move_txn_def ks_def ds_def)
  moreover have "frame d (release_encrypter E w1 d2)" using m(2) acq(5,6,8) by (simp add: frame_def)
  moreover have "enc_at u (release_encrypter E w1 d2)"
    using release_encrypter_ok [OF _ dec(2,3)] m(4) by (simp add: inside_def)
  ultimately show ?thesis
    using m(3,4,5) acq(7,8)
    by (intro exI [of _ "release_encrypter E w1 d2"] exI [of _ n] exI [of _ i] exI [of _ j])
      (simp add: cache_store_def cache_forget_def inside_def)
qed

lemma move_txn_refused:
  assumes "inside t u a d" and "u < 2147483647"
    and "vals a (getKey key) = None \<or> ifNotExists opts \<and> vals a (getKey dest) \<noteq> None"
  shows "\<exists>d'. move_txn E key dest opts t d = Some (False, d') \<and> frame d d' \<and> inside t u a d' \<and>
    valueCache d' = valueCache d"
proof -
  from acquire_encrypter_ok [of u d] assms(1,2) obtain w d1 e where
    acq: "acquire_encrypter E d = Some (Some w, d1)" "con w = Some e" "encrypter_ok e" "enc_at (Suc u) d1"
    "store d1 = store d" "transactions d1 = transactions d" "valueCache d1 = valueCache d" "reads d \<le> reads d1"
    by (auto simp: inside_def)
  have in1: "inside t (Suc u) a d1" by (rule inside_cong [OF assms(1) acq(5) acq(4)])
  have "move_body E (getKey key) (getKey dest) opts t w d1 = Some ((False, w), d1)"
    using txn_data_found(1) [OF in1, of "getKey dest"] txn_data_found(3) [OF in1, of "getKey key"] assms(3)
    by (cases "txn_Get (rocks E) (store d1) t Data (getKey key)") (auto simp: move_body_def Let_def)
  then have "move_txn E key dest opts t d = Some (False, release_encrypter E w d1)"
    using acq(1) by (simp add: move_txn_def)
  with release_encrypter_ok [OF acq(4) acq(2,3)] acq show ?thesis
    by (auto simp: frame_def intro!: inside_cong [OF assms(1)])
qed

end


context database
begin

section \<open>Transactions\<close>

text \<open>The state between two operations represents the store \<open>a\<close>.\<close>

definition db_inv :: "Store \<Rightarrow> ('s, 't, 'x) Database \<Rightarrow> bool" where
  "db_inv a d \<longleftrightarrow> meaning (committed d) a \<and> enc_at 0 d \<and> txn_at 0 d \<and>
     (enableCache (conf E) \<longrightarrow> vc.coherent (vals a) (valueCache d)) \<and>
     (\<forall>k v. vals a k = Some v \<longrightarrow> length v + 16 < 2 ^ 31)"

lemma acquire_txn_ok:
  assumes "txn_at u d" and "u < 2147483647"
  shows "\<exists>t w d' h. acquire_txn E d = Some (t, w, d') \<and> con w = Some h \<and> txn_at (Suc u) d' \<and>
    encrypters d' = encrypters d \<and> valueCache d' = valueCache d \<and> committed d' = committed d \<and>
    view (store d') t = committed d \<and> reads d \<le> reads d'"
proof -
  obtain w p h where acq: "acquire (Some None) (fst (now E d)) (transactions d) = (Some w, p)"
    "con w = Some h" "pool_holds (\<lambda>_. True) p" "pool_in_use p = Suc u" "pool_limit p = 2147483647"
    using pool.acq_below [of "transactions d" "\<lambda>_. True" "Some None" None "fst (now E d)"] assms
    by (auto simp: txn_at_def)
  obtain t s where bt: "BeginTransaction (rocks E) (store d) h = (t, s)" by fastforce
  let ?w = "if h = None then w\<lparr>con := Some (Some t)\<rparr> else w"
  let ?d = "d\<lparr>reads := Suc (reads d), transactions := p, store := s\<rparr>"
  have "acquire_txn E d = Some (t, ?w, ?d)"
    using acq(1,2) bt by (simp add: acquire_txn_def now_def Let_def)
  moreover have "\<exists>h'. con ?w = Some h'" using acq(2) by simp
  ultimately show ?thesis
    using acq(3-5) view_begin [OF bt] by (auto simp: txn_at_def)
qed

lemma release_txn_ok:
  assumes "txn_at (Suc u) d" and "con w = Some h"
  shows "txn_at u (release_txn E w d)"
  using assms pool.rel_holds [of "\<lambda>_. True" "transactions d" w h] pool.rel_in_use [of w h "transactions d"]
  by (simp add: txn_at_def release_txn_def now_def)

lemma release_txn_frame [simp]:
  "store (release_txn E w d) = store d" "encrypters (release_txn E w d) = encrypters d"
  "valueCache (release_txn E w d) = valueCache d" "reads (release_txn E w d) = Suc (reads d)"
  by (simp_all add: release_txn_def now_def)

lemma commit_ok_healthy:
  "\<exists>s. commit E t d = (True, d\<lparr>store := s\<rparr>) \<and> base s = view (store d) t"
proof -
  obtain st s where c: "txn_Commit (rocks E) (store d) t = (st, s)" by fastforce
  moreover have "st = OkStatus" using commit_healthy [of "store d" t] c by simp
  ultimately show ?thesis using base_commit [OF c] by (auto simp: commit_def)
qed

text \<open>A method whose steps succeed commits what they did.\<close>

lemma with_txn_committed:
  assumes "db_inv a d"
    and body: "\<And>t d1. inside t 0 a d1 \<Longrightarrow> committed d1 = committed d \<Longrightarrow> reads d \<le> reads d1 \<Longrightarrow>
      valueCache d1 = valueCache d \<Longrightarrow>
      \<exists>d2 b. f t d1 = Some (True, d2) \<and> frame d1 d2 \<and> inside t 0 b d2 \<and> P b (valueCache d2)"
  shows "\<exists>d' b. with_txn E (\<lambda>t d. do { (s, d) \<leftarrow> f t d; if \<not> s then Some (False, d) else Some (commit E t d) }) d =
      Some (True, d') \<and> meaning (committed d') b \<and> enc_at 0 d' \<and> txn_at 0 d' \<and> P b (valueCache d')"
proof -
  from acquire_txn_ok [of 0 d] assms(1) obtain t w d1 h where
    acq: "acquire_txn E d = Some (t, w, d1)" "con w = Some h" "txn_at (Suc 0) d1" "encrypters d1 = encrypters d"
    "valueCache d1 = valueCache d" "committed d1 = committed d" "view (store d1) t = committed d"
    "reads d \<le> reads d1"
    by (auto simp: db_inv_def)
  have "inside t 0 a d1" using assms(1) acq(4,7) by (simp add: db_inv_def inside_def enc_at_def)
  from body [OF this acq(6,8,5)] obtain d2 b where
    f: "f t d1 = Some (True, d2)" "frame d1 d2" "inside t 0 b d2" "P b (valueCache d2)" by blast
  obtain s where c: "commit E t d2 = (True, d2\<lparr>store := s\<rparr>)" "base s = view (store d2) t"
    using commit_ok_healthy by blast
  let ?d = "release_txn E w (d2\<lparr>store := s\<rparr>)"
  have "txn_at 0 ?d"
    by (rule release_txn_ok [OF _ acq(2)]) (use acq(3) f(2) in \<open>simp add: frame_def txn_at_def\<close>)
  moreover have "with_txn E (\<lambda>t d. do { (s, d) \<leftarrow> f t d; if \<not> s then Some (False, d) else Some (commit E t d) }) d =
      Some (True, ?d)"
    by (simp add: with_txn_def acq(1) f(1) c(1))
  moreover have "meaning (committed ?d) b" "enc_at 0 ?d"
    using f(3) c(2) by (simp_all add: inside_def enc_at_def)
  ultimately show ?thesis using f(4) by (intro exI [of _ ?d] exI [of _ b]) simp
qed

lemma with_txn_refused:
  assumes "db_inv a d"
    and body: "\<And>t d1. inside t 0 a d1 \<Longrightarrow> committed d1 = committed d \<Longrightarrow> valueCache d1 = valueCache d \<Longrightarrow>
      \<exists>d2. f t d1 = Some (False, d2) \<and> frame d1 d2 \<and> inside t 0 a d2 \<and> valueCache d2 = valueCache d1"
  shows "\<exists>d'. with_txn E (\<lambda>t d. do { (s, d) \<leftarrow> f t d; if \<not> s then Some (False, d) else Some (commit E t d) }) d =
      Some (False, d') \<and> db_inv a d'"
proof -
  from acquire_txn_ok [of 0 d] assms(1) obtain t w d1 h where
    acq: "acquire_txn E d = Some (t, w, d1)" "con w = Some h" "txn_at (Suc 0) d1" "encrypters d1 = encrypters d"
    "valueCache d1 = valueCache d" "committed d1 = committed d" "view (store d1) t = committed d"
    by (auto simp: db_inv_def)
  have "inside t 0 a d1" using assms(1) acq(4,7) by (simp add: db_inv_def inside_def enc_at_def)
  from body [OF this acq(6,5)] obtain d2 where
    f: "f t d1 = Some (False, d2)" "frame d1 d2" "inside t 0 a d2" "valueCache d2 = valueCache d1" by blast
  have "txn_at 0 (release_txn E w d2)"
    by (rule release_txn_ok [OF _ acq(2)]) (use acq(3) f(2) in \<open>simp add: frame_def txn_at_def\<close>)
  moreover have "enc_at 0 (release_txn E w d2)" using f(3) by (simp add: inside_def enc_at_def)
  moreover have "committed d2 = committed d" using f(2) acq(6) by (simp add: frame_def)
  moreover have "with_txn E (\<lambda>t d. do { (s, d) \<leftarrow> f t d; if \<not> s then Some (False, d) else Some (commit E t d) }) d =
      Some (False, release_txn E w d2)"
    by (simp add: with_txn_def acq(1) f(1))
  ultimately show ?thesis using assms(1) f(4) acq(5) by (auto simp: db_inv_def)
qed

end


context database
begin

section \<open>The methods on one key\<close>

lemma db_inv_stored:
  assumes "db_inv a d" and "meaning (committed d') b" "enc_at 0 d'" "txn_at 0 d'"
    and "vals b = (vals a)(ks \<mapsto> v)" and "length v + 16 < 2 ^ 31"
    and "valueCache d' = valueCache (cache_store E ks v d)"
  shows "db_inv b d'"
proof -
  have "enableCache (conf E) \<longrightarrow> vc.coherent (vals b) (valueCache d')"
    unfolding assms(5,7) using assms(1) by (auto simp: db_inv_def cache_store_def intro: vc.coherent_put)
  with assms(1-6) show ?thesis unfolding db_inv_def by auto
qed

lemma db_inv_forgotten:
  assumes "db_inv a d" and "meaning (committed d') b" "enc_at 0 d'" "txn_at 0 d'"
    and "vals b = (vals a)(ks := None)" and "valueCache d' = valueCache (cache_forget E ks d)"
  shows "db_inv b d'"
proof -
  have "enableCache (conf E) \<longrightarrow> vc.coherent (vals b) (valueCache d')"
    unfolding assms(5,6) using assms(1) by (auto simp: db_inv_def cache_forget_def intro: vc.coherent_erase)
  with assms(1-5) show ?thesis unfolding db_inv_def by auto
qed

lemma db_inv_moved:
  assumes "db_inv a d" and "meaning (committed d') b" "enc_at 0 d'" "txn_at 0 d'"
    and "vals b = (vals a)(ks := None, ds \<mapsto> v)" and "length v + 16 < 2 ^ 31"
    and "valueCache d' = valueCache (cache_store E ds v (cache_forget E ks d))"
  shows "db_inv b d'"
proof -
  have "enableCache (conf E) \<longrightarrow> vc.coherent (vals b) (valueCache d')"
    unfolding assms(5,7) using assms(1)
    by (auto simp: db_inv_def cache_forget_def cache_store_def intro!: vc.coherent_erase vc.coherent_put)
  with assms(1-6) show ?thesis unfolding db_inv_def by auto
qed

lemma Database_get_ok:
  assumes inv: "db_inv a d" and "key \<noteq> []"
  shows "\<exists>d'. Database_get E key d = Some (vals a (getKey key), d') \<and> db_inv a d'"
proof (cases "cache_lookup E (getKey key) d")
  case (Some v)
  then have "vals a (getKey key) = Some v"
    using inv vc.coherent_lookup by (fastforce simp: db_inv_def cache_lookup_def split: if_splits)
  with Some assms show ?thesis by (simp add: Database_get_def)
next
  case miss: None
  let ?ks = "getKey key"
  have data: "committed d Data ?ks = map_option cipher_text (vals a ?ks)"
    using inv represents_data by (auto simp: db_inv_def)
  show ?thesis
  proof (cases "vals a ?ks")
    case None
    with get_none [of "store d" Data ?ks] data miss assms show ?thesis
      by (cases "db_Get (rocks E) (store d) Data ?ks") (auto simp: Database_get_def)
  next
    case (Some v)
    then have read: "db_Get (rocks E) (store d) Data ?ks = (OkStatus, cipher_text v)"
      using get_some data by simp
    have len: "length v + 16 < 2 ^ 31" using inv Some by (simp add: db_inv_def)
    from acquire_encrypter_ok [of 0 d] inv obtain w d1 e where
      acq: "acquire_encrypter E d = Some (Some w, d1)" "con w = Some e" "encrypter_ok e" "enc_at (Suc 0) d1"
      "store d1 = store d" "transactions d1 = transactions d" "valueCache d1 = valueCache d"
      by (auto simp: db_inv_def)
    from decrypt_with_ok [OF acq(2,3) len] obtain w1 e1 where
      dec: "decrypt_with E (cipher_text v) w = Some (v, w1)" "con w1 = Some e1" "encrypter_ok e1" by blast
    let ?d = "release_encrypter E w1 (cache_store E ?ks v d1)"
    have "Database_get E key d = Some (Some v, ?d)"
      using assms(2) miss read acq(1) dec(1) by (simp add: Database_get_def)
    moreover have "enc_at 0 ?d"
      by (rule release_encrypter_ok [OF _ dec(2,3)]) (use acq(4) in \<open>simp add: enc_at_def cache_store_def\<close>)
    moreover have "enableCache (conf E) \<longrightarrow> vc.coherent (vals a) (valueCache ?d)"
      using inv acq(7) Some by (auto simp: db_inv_def cache_store_def intro: vc.coherent_read)
    ultimately show ?thesis
      using inv acq(5,6) Some by (auto simp: db_inv_def txn_at_def cache_store_def)
  qed
qed

lemma Database_set_ok:
  fixes data
  defines "ks \<equiv> getKey (rd_key data)" and "opts \<equiv> rd_options data"
  assumes inv: "db_inv a d" and "rd_key data \<noteq> []"
    and "\<not> (cacheEntry opts \<and> expirationInSeconds opts = 0)"
    and len: "length (rd_value data) + 16 < 2 ^ 31" and "clock_ok"
    and "ifNotExists opts \<Longrightarrow> vals a ks = None"
  shows "\<exists>d' i j. Database_set E data d = Some (True, d') \<and> reads d \<le> i \<and> i < j \<and>
    db_inv (store_set ks (rd_value data) opts (clock E i) (clock E j) a) d'"
proof -
  let ?v = "rd_value data"
  let ?P = "\<lambda>b vc. \<exists>i j. reads d \<le> i \<and> i < j \<and> b = store_set ks ?v opts (clock E i) (clock E j) a \<and>
    vc = valueCache (cache_store E ks ?v d)"
  have "\<exists>d2 b. set_txn E (rd_key data) ?v opts t d1 = Some (True, d2) \<and> frame d1 d2 \<and> inside t 0 b d2 \<and>
      ?P b (valueCache d2)"
    if "inside t 0 a d1" "reads d \<le> reads d1" "valueCache d1 = valueCache d" for t d1
  proof -
    have lt: "length ?v < 2 ^ 31" using len by simp
    have key: "ifNotExists opts \<Longrightarrow> vals a (getKey (rd_key data)) = None" using assms(8) by (simp add: ks_def)
    from set_txn_ok [where opts = opts and key = "rd_key data", OF that(1) _ lt assms(7) key, folded ks_def]
    obtain d2 i j where "set_txn E (rd_key data) ?v opts t d1 = Some (True, d2)" "frame d1 d2" "reads d1 \<le> i"
      "i < j" "inside t 0 (store_set ks ?v opts (clock E i) (clock E j) a) d2"
      "valueCache d2 = valueCache (cache_store E ks ?v d1)"
      by auto
    with that(2,3) show ?thesis
      by (intro exI [of _ d2] exI [of _ "store_set ks ?v opts (clock E i) (clock E j) a"] conjI
          exI [of _ i] exI [of _ j]) (simp_all add: cache_store_def)
  qed
  from with_txn_committed [where P = ?P and f = "set_txn E (rd_key data) ?v opts", OF inv this]
  obtain d' b where run: "with_txn E (\<lambda>t d. do { (s, d) \<leftarrow> set_txn E (rd_key data) ?v opts t d;
        if \<not> s then Some (False, d) else Some (commit E t d) }) d = Some (True, d')"
    and after: "meaning (committed d') b" "enc_at 0 d'" "txn_at 0 d'" and P: "?P b (valueCache d')" by blast
  from P obtain i j where ij: "reads d \<le> i" "i < j" and b: "b = store_set ks ?v opts (clock E i) (clock E j) a"
    and vc: "valueCache d' = valueCache (cache_store E ks ?v d)" by blast
  have "Database_set E data d = Some (True, d')"
    using run assms(4,5) by (simp add: Database_set_def opts_def)
  moreover have "db_inv (store_set ks ?v opts (clock E i) (clock E j) a) d'"
    by (rule db_inv_stored [OF inv after(1-3) [unfolded b] _ len vc]) simp
  ultimately show ?thesis using ij by blast
qed

lemma Database_set_exists:
  assumes inv: "db_inv a d" and "length (rd_value data) < 2 ^ 31"
    and "ifNotExists (rd_options data)" and "vals a (getKey (rd_key data)) \<noteq> None"
  shows "\<exists>d'. Database_set E data d = Some (False, d') \<and> db_inv a d'"
proof -
  have "\<exists>d2. set_txn E (rd_key data) (rd_value data) (rd_options data) t d1 = Some (False, d2) \<and> frame d1 d2 \<and>
      inside t 0 a d2 \<and> valueCache d2 = valueCache d1" if "inside t 0 a d1" for t d1
    using set_txn_exists [OF that _ assms(2-4)] by simp
  from with_txn_refused [where f = "set_txn E (rd_key data) (rd_value data) (rd_options data)", OF inv this] inv
  show ?thesis by (simp add: Database_set_def)
qed

lemma Database_remove_ok:
  fixes key
  defines "ks \<equiv> getKey key"
  assumes inv: "db_inv a d" and "key \<noteq> []"
  shows "\<exists>d'. Database_remove E key d = Some (True, d') \<and>
    db_inv (store_remove ks (cached a ks \<noteq> None) a) d'"
proof -
  let ?b = "store_remove ks (cached a ks \<noteq> None) a"
  let ?P = "\<lambda>b vc. b = ?b \<and> vc = valueCache (cache_forget E ks d)"
  have col: "committed d CacheColumn = cached a" using inv by (simp add: db_inv_def represents_def)
  have "\<exists>d2 b. remove_txn E key t True d1 = Some (True, d2) \<and> frame d1 d2 \<and> inside t 0 b d2 \<and> ?P b (valueCache d2)"
    if "inside t 0 a d1" "committed d1 = committed d" "valueCache d1 = valueCache d" for t d1
    using remove_txn_ok [OF that(1), of key True] that(2,3) by (auto simp: ks_def col cache_forget_def)
  from with_txn_committed [where P = ?P and f = "\<lambda>t. remove_txn E key t True", OF inv this]
  obtain d' b where run: "with_txn E (\<lambda>t d. do { (s, d) \<leftarrow> remove_txn E key t True d;
        if \<not> s then Some (False, d) else Some (commit E t d) }) d = Some (True, d')"
    and after: "meaning (committed d') b" "enc_at 0 d'" "txn_at 0 d'" and P: "?P b (valueCache d')" by blast
  have "Database_remove E key d = Some (True, d')" using run assms(3) by (simp add: Database_remove_def)
  moreover have "db_inv ?b d'"
    by (rule db_inv_forgotten [OF inv _ after(2,3)]) (use after(1) P in auto)
  ultimately show ?thesis by blast
qed

end


context database
begin

lemma Database_move_ok:
  fixes data
  defines "ks \<equiv> getKey (rd_key data)" and "ds \<equiv> getKey (rd_value data)" and "opts \<equiv> rd_options data"
  assumes inv: "db_inv a d" and "rd_key data \<noteq> []" and "rd_value data \<noteq> []"
    and v: "vals a ks = Some v" and "clock_ok" and "ifNotExists opts \<Longrightarrow> vals a ds = None"
  shows "\<exists>d' n i j. Database_move E data d = Some (True, d') \<and> reads d \<le> n \<and>
    db_inv (store_set ds v (move_options opts ks (clock E n) a) (clock E i) (clock E j)
      (store_remove ks (cached a ks \<noteq> None) a)) d'"
proof -
  let ?b = "\<lambda>n i j. store_set ds v (move_options opts ks (clock E n) a) (clock E i) (clock E j)
    (store_remove ks (cached a ks \<noteq> None) a)"
  let ?P = "\<lambda>b vc. \<exists>n i j. reads d \<le> n \<and> b = ?b n i j \<and>
    vc = valueCache (cache_store E ds v (cache_forget E ks d))"
  have col: "committed d CacheColumn = cached a" using inv by (simp add: db_inv_def represents_def)
  have len: "length v + 16 < 2 ^ 31" using inv v by (simp add: db_inv_def)
  have "\<exists>d2 b. move_txn E (rd_key data) (rd_value data) opts t d1 = Some (True, d2) \<and> frame d1 d2 \<and>
      inside t 0 b d2 \<and> ?P b (valueCache d2)"
    if "inside t 0 a d1" "committed d1 = committed d" "reads d \<le> reads d1" "valueCache d1 = valueCache d" for t d1
  proof -
    have same: "committed d1 CacheColumn = cached a" using that(2) col by simp
    from move_txn_ok [where opts = opts and key = "rd_key data" and dest = "rd_value data", folded ks_def ds_def,
        OF that(1) _ v len assms(8,9)]
    obtain d2 n i j where "move_txn E (rd_key data) (rd_value data) opts t d1 = Some (True, d2)" "frame d1 d2"
      "reads d1 \<le> n" "inside t 0 (?b n i j) d2"
      "valueCache d2 = valueCache (cache_store E ds v (cache_forget E ks d1))"
      by (auto simp: same)
    with that(3,4) show ?thesis
      by (intro exI [of _ d2] exI [of _ "?b n i j"] conjI exI [of _ n] exI [of _ i] exI [of _ j])
        (simp_all add: cache_store_def cache_forget_def)
  qed
  from with_txn_committed [where P = ?P and f = "move_txn E (rd_key data) (rd_value data) opts", OF inv this]
  obtain d' b where run: "with_txn E (\<lambda>t d. do { (s, d) \<leftarrow> move_txn E (rd_key data) (rd_value data) opts t d;
        if \<not> s then Some (False, d) else Some (commit E t d) }) d = Some (True, d')"
    and after: "meaning (committed d') b" "enc_at 0 d'" "txn_at 0 d'" and P: "?P b (valueCache d')" by blast
  from P obtain n i j where n: "reads d \<le> n" and b: "b = ?b n i j"
    and vc: "valueCache d' = valueCache (cache_store E ds v (cache_forget E ks d))" by blast
  have "Database_move E data d = Some (True, d')"
    using run assms(5,6) by (simp add: Database_move_def opts_def)
  moreover have "db_inv (?b n i j) d'"
    by (rule db_inv_moved [OF inv after(1-3) [unfolded b] _ len vc]) simp
  ultimately show ?thesis using n by blast
qed

lemma Database_move_refused:
  assumes inv: "db_inv a d"
    and "vals a (getKey (rd_key data)) = None \<or> ifNotExists (rd_options data) \<and> vals a (getKey (rd_value data)) \<noteq> None"
  shows "\<exists>d'. Database_move E data d = Some (False, d') \<and> db_inv a d'"
proof -
  have "\<exists>d2. move_txn E (rd_key data) (rd_value data) (rd_options data) t d1 = Some (False, d2) \<and> frame d1 d2 \<and>
      inside t 0 a d2 \<and> valueCache d2 = valueCache d1" if "inside t 0 a d1" for t d1
    using move_txn_refused [OF that _ assms(2)] by simp
  from with_txn_refused [where f = "move_txn E (rd_key data) (rd_value data) (rd_options data)", OF inv this] inv
  show ?thesis by (simp add: Database_move_def)
qed

lemma Database_list_ok:
  assumes inv: "db_inv a d" and "key \<noteq> []"
  shows "Database_list E key d = children a (getKey key)"
proof -
  have "committed d Forrest (getKey key) = map_option (CreateNode (nodes E)) (children a (getKey key))"
    using inv by (simp add: db_inv_def represents_def encodes_def)
  then show ?thesis
    using assms(2) get_none [of "store d" Forrest "getKey key"] get_some [of "store d" Forrest "getKey key"]
    by (cases "children a (getKey key)"; cases "db_Get (rocks E) (store d) Forrest (getKey key)")
      (auto simp: Database_list_def get_create)
qed

lemma Database_ttl_ok:
  assumes inv: "db_inv a d"
  shows "fst (Database_ttl E key d) =
      (case expiration a (getKey key) of None \<Rightarrow> 0 | Some nsv \<Rightarrow> stamp_ttl nsv (clock E (reads d)))"
    and "db_inv a (snd (Database_ttl E key d))"
proof -
  have exp: "committed d Expiration (getKey key) = expiration a (getKey key)"
    using inv by (simp add: db_inv_def represents_def)
  obtain st v where g: "db_Get (rocks E) (store d) Expiration (getKey key) = (st, v)" by fastforce
  have st: "ok st \<longleftrightarrow> expiration a (getKey key) = Some v"
    using get_none [of "store d" Expiration "getKey key"] g exp
      get_some [of "store d" Expiration "getKey key"]
    by (cases "expiration a (getKey key)") auto
  obtain d' where p: "parseTTL E v d = (stamp_ttl v (clock E (reads d)), d')" "store d' = store d"
    "transactions d' = transactions d" "encrypters d' = encrypters d" "valueCache d' = valueCache d"
    using parseTTL_stamp [of E v d] by blast
  have "\<not> ok st \<Longrightarrow> expiration a (getKey key) = None"
    using g exp get_some [of "store d" Expiration "getKey key"]
    by (cases "expiration a (getKey key)") auto
  then show "fst (Database_ttl E key d) =
      (case expiration a (getKey key) of None \<Rightarrow> 0 | Some nsv \<Rightarrow> stamp_ttl nsv (clock E (reads d)))"
    using st p(1) by (cases "ok st") (simp_all add: Database_ttl_def g)
  have "db_inv a d'" using inv p(2-5) by (simp add: db_inv_def enc_at_def txn_at_def)
  then show "db_inv a (snd (Database_ttl E key d))"
    using inv p(1) by (cases "ok st") (simp_all add: Database_ttl_def g)
qed

lemma Database_reopen_ok:
  assumes inv: "db_inv a d" and "Database_reopen E d = Some d'"
  shows "db_inv a d'" and "cmap (valueCache d') = []"
proof -
  from assms(2) obtain s where s: "db_Open (rocks E) (db_Close (rocks E) (store d)) = (OkStatus, s)"
    and d': "d' = d\<lparr>store := s,
       transactions := Pool_new (Some None) (poolConfig (conf E)) (\<lambda>i. clock E (reads d + i)),
       reads := reads d + unat (initialSize (poolConfig (conf E))),
       valueCache := cache_clearAll (valueCache d)\<rparr>"
    by (auto simp: Database_reopen_def Database_init_def Database_close_def Let_def
        split: bind_splits prod.splits if_splits)
  have "base s = committed d" using open_base [OF s] close_base by simp
  then show "db_inv a d'"
    using inv
    by (simp add: vc.coherent_clear db_inv_def d' enc_at_def txn_at_def Pool_new_def pool_holds_def pool_in_use_def
        pool_limit_def poolConfig_def ConnectionWrapper_new_def)
  show "cmap (valueCache d') = []" by (simp add: d' cache_clearAll_def)
qed

end

end
