(* ===== verification/Storage.thy ===== *)
theory Storage
  imports Refinement "HOL-Library.Multiset"
begin

text \<open>
  The promises of the storage to its clients, as theorems about the methods of
  \<open>src/lib/db/storage.cpp\<close>: it behaves like a map from normalised keys to values under any
  sequence of requests, the tree lists exactly the children of a path, expirations are reported
  as set, batches commit as a whole, and the contents survive closing and opening.
\<close>

section \<open>Instances of the locales\<close>

lemma rev_evp_simps:
  "evp_get_cipherbyname rev_evp n \<longleftrightarrow> n = ''aes-256-cbc''" "evp_bytes_to_key rev_evp s k r = (k, s)"
  "evp_encrypt_init_key rev_evp k i = []" "evp_decrypt_init_key rev_evp k i = []"
  by (simp_all add: rev_evp_def)

text \<open>Whatever the clock and the configuration, the instances in memory are libraries of the kind required.\<close>

lemma memory_database:
  assumes "rocks E = mem_rocksdb" and "evp E = rev_evp" and "nodes E = unary_codec"
  shows "database E mem_table mem_writes (\<lambda>v. CHR ''#'' # rev v)
    (\<lambda>x. x = []) (\<lambda>x. True) (\<lambda>x. x = []) (\<lambda>x. True)"
  using assms
  by (simp add: database_def database_axioms_def Encrypter_create_def Encrypter_new_def
      cipher.encrypter_ok_def [OF rev_cipher.cipher_axioms] rev_evp_simps Let_def
      mem.rocksdb_healthy_axioms unary.node_codec_axioms rev_cipher.cipher_axioms)

interpretation sample: database "sample_ext on" mem_table mem_writes "\<lambda>v. CHR ''#'' # rev v"
  "\<lambda>x. x = []" "\<lambda>x. True" "\<lambda>x. x = []" "\<lambda>x. True"
  by (rule memory_database) (simp_all add: sample_ext_def)

lemma sample_clock_ok: "sample.clock_ok on"
  unfolding sample.clock_ok_def by (auto simp: sample_ext_def min_def)

lemma sample_db_inv: "sample.db_inv on empty_store sample_db"
  unfolding sample.db_inv_def sample.enc_at_def sample.txn_at_def
  by (simp add: sample_db_def represents_def empty_store_def mem_empty_def mem_table_def encodes_def
      Pool_new_def pool_holds_def pool_in_use_def pool_limit_def sample_pool_config_def
      vc.coherent_def cache_find_def ExpirationCache_new_def fun_eq_iff)


section \<open>A map from keys to values\<close>

text \<open>
  The requests on one key, as the free functions \<open>spt::configdb::db::get\<close>, \<open>set\<close>, \<open>remove\<close> and
  \<open>move\<close> forward them to the instance of the class.
\<close>

datatype request = GetReq string | SetReq RequestData | RemoveReq string | MoveReq RequestData

datatype reply = Found "string option" | Done bool

definition run_request ::
  "('s, 't, 'x) Ext \<Rightarrow> request \<Rightarrow> ('s, 't, 'x) Database \<Rightarrow> (reply \<times> ('s, 't, 'x) Database) option" where
  "run_request E r d =
     (case r of
        GetReq key \<Rightarrow> map_option (apfst Found) (Database_get E key d)
      | SetReq data \<Rightarrow> map_option (apfst Done) (Database_set E data d)
      | RemoveReq key \<Rightarrow> map_option (apfst Done) (Database_remove E key d)
      | MoveReq data \<Rightarrow> map_option (apfst Done) (Database_move E data d))"

fun run_requests ::
  "('s, 't, 'x) Ext \<Rightarrow> request list \<Rightarrow> ('s, 't, 'x) Database \<Rightarrow> (reply list \<times> ('s, 't, 'x) Database) option" where
  "run_requests E [] d = Some ([], d)"
| "run_requests E (r # rs) d = do {
     (x, d) \<leftarrow> run_request E r d;
     (xs, d) \<leftarrow> run_requests E rs d;
     Some (x # xs, d) }"

text \<open>The same requests on a map.\<close>

definition map_set :: "RequestData \<Rightarrow> (string \<Rightarrow> string option) \<Rightarrow> reply \<times> (string \<Rightarrow> string option)" where
  "map_set data m =
     (let ks = getKey (rd_key data); opts = rd_options data in
      if rd_key data = [] \<or> cacheEntry opts \<and> expirationInSeconds opts = 0 \<or> ifNotExists opts \<and> m ks \<noteq> None
      then (Done False, m) else (Done True, m(ks \<mapsto> rd_value data)))"

definition map_move :: "RequestData \<Rightarrow> (string \<Rightarrow> string option) \<Rightarrow> reply \<times> (string \<Rightarrow> string option)" where
  "map_move data m =
     (let ks = getKey (rd_key data); ds = getKey (rd_value data) in
      if rd_key data = [] \<or> rd_value data = [] \<or> m ks = None \<or> ifNotExists (rd_options data) \<and> m ds \<noteq> None
      then (Done False, m) else (Done True, m(ks := None, ds := m ks)))"

definition map_request :: "request \<Rightarrow> (string \<Rightarrow> string option) \<Rightarrow> reply \<times> (string \<Rightarrow> string option)" where
  "map_request r m =
     (case r of
        GetReq key \<Rightarrow> (Found (if key = [] then None else m (getKey key)), m)
      | SetReq data \<Rightarrow> map_set data m
      | RemoveReq key \<Rightarrow> if key = [] then (Done False, m) else (Done True, m(getKey key := None))
      | MoveReq data \<Rightarrow> map_move data m)"

fun map_requests :: "request list \<Rightarrow> (string \<Rightarrow> string option) \<Rightarrow> reply list \<times> (string \<Rightarrow> string option)" where
  "map_requests [] m = ([], m)"
| "map_requests (r # rs) m =
     (let (x, m) = map_request r m; (xs, m) = map_requests rs m in (x # xs, m))"

definition request_small :: "request \<Rightarrow> bool" where
  "request_small r = (case r of SetReq data \<Rightarrow> length (rd_value data) + 16 < 2 ^ 31 | _ \<Rightarrow> True)"

context database
begin

lemma run_request_refines:
  assumes inv: "db_inv a d" and small: "request_small r" and clk: "clock_ok"
  shows "\<exists>d' b. run_request E r d = Some (fst (map_request r (vals a)), d') \<and> db_inv b d' \<and>
    vals b = snd (map_request r (vals a))"
proof (cases r)
  case (GetReq key)
  show ?thesis
  proof (cases "key = []")
    case False
    with Database_get_ok [OF inv] GetReq show ?thesis by (fastforce simp: run_request_def map_request_def)
  qed (use GetReq inv in \<open>auto simp: run_request_def map_request_def Database_get_def\<close>)
next
  case (SetReq data)
  let ?ks = "getKey (rd_key data)" and ?opts = "rd_options data"
  have len: "length (rd_value data) + 16 < 2 ^ 31" using small SetReq by (simp add: request_small_def)
  consider (guard) "rd_key data = [] \<or> cacheEntry ?opts \<and> expirationInSeconds ?opts = 0"
    | (exists) "ifNotExists ?opts" "vals a ?ks \<noteq> None"
    | (go) "rd_key data \<noteq> []" "\<not> (cacheEntry ?opts \<and> expirationInSeconds ?opts = 0)"
        "ifNotExists ?opts \<longrightarrow> vals a ?ks = None"
    by argo
  then show ?thesis
  proof cases
    case guard
    then show ?thesis using SetReq inv
      by (auto simp: run_request_def map_request_def map_set_def Database_set_def)
  next
    case exists
    with Database_set_exists [OF inv _ exists] len SetReq show ?thesis
      by (fastforce simp: run_request_def map_request_def map_set_def)
  next
    case go
    from Database_set_ok [OF inv go(1,2) len clk mp [OF go(3)]] obtain d' i j where
      "Database_set E data d = Some (True, d')"
      "db_inv (store_set ?ks (rd_value data) ?opts (clock E i) (clock E j) a) d'" by blast
    moreover have "map_set data (vals a) = (Done True, (vals a)(?ks \<mapsto> rd_value data))"
      using go by (auto simp: map_set_def Let_def)
    ultimately show ?thesis using SetReq
      by (intro exI [of _ d'] exI [of _ "store_set ?ks (rd_value data) ?opts (clock E i) (clock E j) a"])
        (simp add: run_request_def map_request_def)
  qed
next
  case (RemoveReq key)
  show ?thesis
  proof (cases "key = []")
    case False
    from Database_remove_ok [OF inv False] RemoveReq False show ?thesis
      by (fastforce simp: run_request_def map_request_def)
  qed (use RemoveReq inv in \<open>auto simp: run_request_def map_request_def Database_remove_def\<close>)
next
  case (MoveReq data)
  let ?ks = "getKey (rd_key data)" and ?ds = "getKey (rd_value data)" and ?opts = "rd_options data"
  consider (guard) "rd_key data = [] \<or> rd_value data = []"
    | (refuse) "rd_key data \<noteq> []" "rd_value data \<noteq> []"
        "vals a ?ks = None \<or> ifNotExists ?opts \<and> vals a ?ds \<noteq> None"
    | (go) v where "rd_key data \<noteq> []" "rd_value data \<noteq> []" "vals a ?ks = Some v"
        "ifNotExists ?opts \<longrightarrow> vals a ?ds = None"
    by (metis option.exhaust)
  then show ?thesis
  proof cases
    case guard
    then show ?thesis using MoveReq inv
      by (auto simp: run_request_def map_request_def map_move_def Database_move_def)
  next
    case refuse
    with Database_move_refused [OF inv refuse(3)] MoveReq show ?thesis
      by (fastforce simp: run_request_def map_request_def map_move_def)
  next
    case (go v)
    from Database_move_ok [OF inv go(1-3) clk mp [OF go(4)]] obtain d' n i j where
      "Database_move E data d = Some (True, d')"
      "db_inv (store_set ?ds v (move_options ?opts ?ks (clock E n) a) (clock E i) (clock E j)
        (store_remove ?ks (cached a ?ks \<noteq> None) a)) d'" by blast
    moreover have "map_move data (vals a) = (Done True, (vals a)(?ks := None, ?ds \<mapsto> v))"
      using go by (auto simp: map_move_def Let_def)
    ultimately show ?thesis using MoveReq
      by (intro exI [of _ d'] exI [of _ "store_set ?ds v (move_options ?opts ?ks (clock E n) a) (clock E i) (clock E j)
        (store_remove ?ks (cached a ?ks \<noteq> None) a)"])
        (simp add: run_request_def map_request_def)
  qed
qed

lemma run_requests_refine:
  assumes "db_inv a d" and "\<forall>r \<in> set rs. request_small r" and clk: "clock_ok"
  shows "\<exists>d' b. run_requests E rs d = Some (fst (map_requests rs (vals a)), d') \<and> db_inv b d' \<and>
    vals b = snd (map_requests rs (vals a))"
  using assms(1,2)
proof (induction rs arbitrary: a d)
  case Nil
  then show ?case by auto
next
  case (Cons r rs)
  from run_request_refines [OF Cons.prems(1) _ clk, of r] Cons.prems(2) obtain d1 b1 where
    one: "run_request E r d = Some (fst (map_request r (vals a)), d1)" "db_inv b1 d1"
    "vals b1 = snd (map_request r (vals a))" by auto
  from Cons.IH [OF one(2)] Cons.prems(2) obtain d2 b2 where
    "run_requests E rs d1 = Some (fst (map_requests rs (vals b1)), d2)" "db_inv b2 d2"
    "vals b2 = snd (map_requests rs (vals b1))" by auto
  with one show ?case by (auto simp: case_prod_beta)
qed

end


text \<open>
  C4: the storage is a map.  With libraries that do what they document and do not fail, and
  whatever the value cache, the pools, the tree and the expirations do in between, every sequence
  of \<open>get\<close>, \<open>set\<close>, \<open>remove\<close> and \<open>move\<close> requests is answered, and answered as a map from
  normalised keys to values would answer it: the guards of the methods, \<open>ifNotExists\<close>, moving onto
  an existing key and reading back what was written included.
\<close>

theorem storage_refines_map:
  assumes "database E base pending ciph enc_ready enc_used dec_ready dec_used"
    and "database.db_inv E base ciph enc_ready enc_used dec_ready dec_used a d"
    and "database.clock_ok E" and "\<forall>r \<in> set rs. request_small r"
  shows "map_option fst (run_requests E rs d) = Some (fst (map_requests rs (vals a)))"
  using database.run_requests_refine [OF assms(1,2,4,3)] by auto

definition sample_requests :: "request list" where
  "sample_requests = [SetReq (RequestData_kv ''/a/b'' ''x''), GetReq ''a/b'',
     MoveReq (RequestData_kv ''a/b'' ''/c''), GetReq ''/a/b'', GetReq ''c'', RemoveReq ''/c'', GetReq ''/c'']"

theorem storage_refines_map_witness:
  "map_option fst (run_requests (sample_ext True) sample_requests sample_db) =
     Some [Done True, Found (Some ''x''), Done True, Found None, Found (Some ''x''), Done True, Found None]"
proof -
  have "\<forall>r \<in> set sample_requests. request_small r"
    by (simp add: sample_requests_def request_small_def RequestData_kv_def)
  then have "map_option fst (run_requests (sample_ext True) sample_requests sample_db) =
      Some (fst (map_requests sample_requests (vals empty_store)))"
    by (rule storage_refines_map [OF sample.database_axioms sample_db_inv sample_clock_ok])
  then show ?thesis
    by (simp add: sample_requests_def map_request_def map_set_def map_move_def empty_store_def
        RequestData_kv_def Options_default_def getKey_def Let_def)
qed


section \<open>The tree\<close>

lemma getKey_path: "cs \<noteq> [] \<Longrightarrow> getKey (path_of cs) = path_of cs"
  by (cases cs) (simp_all add: getKey_def)

lemma getKey_node_path [simp]: "getKey (node_path as) = node_path as" "node_path as \<noteq> []"
  using getKey_path [of as] by (auto simp: node_path_def getKey_def)

context database
begin

lemma list_exact:
  assumes "db_inv a d" and "tree_inv a" and "names_ok as"
  shows "Database_list E (node_path as) d = node_of (store_keys a) as"
  using Database_list_ok [OF assms(1), of "node_path as"] assms(2,3)
  by (simp add: tree_inv_def tree_exact_def)

end

text \<open>
  C17: setting a well-formed key that is not a cache entry keeps the tree exact: afterwards \<open>list\<close>
  of any path returns the sorted names, without repetition, that follow the path in the keys of
  the database with the new key, and nothing when there are none.
\<close>

theorem list_after_set:
  assumes lib: "database E base pending ciph enc_ready enc_used dec_ready dec_used"
    and inv: "database.db_inv E base ciph enc_ready enc_used dec_ready dec_used a d"
    and clk: "database.clock_ok E" and tree: "tree_inv a"
    and cs: "cs \<noteq> []" "names_ok cs" "length (path_of cs) < npos" and len: "length v + 16 < 2 ^ 31"
    and opts: "\<not> cacheEntry opts" "ifNotExists opts \<Longrightarrow> vals a (path_of cs) = None"
  shows "\<exists>d' b. Database_set E (RequestData_opts (path_of cs) v opts) d = Some (True, d') \<and>
    database.db_inv E base ciph enc_ready enc_used dec_ready dec_used b d' \<and> tree_inv b \<and>
    (\<forall>as. names_ok as \<longrightarrow> Database_list E (node_path as) d' = node_of (insert cs (store_keys a)) as)"
proof -
  let ?data = "RequestData_opts (path_of cs) v opts"
  have data: "rd_key ?data \<noteq> []" "\<not> (cacheEntry (rd_options ?data) \<and> expirationInSeconds (rd_options ?data) = 0)"
    "length (rd_value ?data) + 16 < 2 ^ 31" "ifNotExists (rd_options ?data) \<Longrightarrow> vals a (getKey (rd_key ?data)) = None"
    using cs(1) len opts by (simp_all add: RequestData_opts_def getKey_path)
  from database.Database_set_ok [OF lib inv data(1-3) clk data(4)] obtain d' i j where
    run: "Database_set E ?data d = Some (True, d')"
    "database.db_inv E base ciph enc_ready enc_used dec_ready dec_used
      (store_set (getKey (rd_key ?data)) (rd_value ?data) (rd_options ?data) (clock E i) (clock E j) a) d'"
    by blast
  define b where "b = store_set (path_of cs) v opts (clock E i) (clock E j) a"
  have inv': "database.db_inv E base ciph enc_ready enc_used dec_ready dec_used b d'"
    using run(2) getKey_path [OF cs(1)] by (simp add: RequestData_opts_def b_def)
  moreover have tree': "tree_inv b" unfolding b_def by (rule tree_inv_set [OF tree cs opts(1)])
  moreover have "store_keys b = insert cs (store_keys a)"
    unfolding b_def by (rule store_keys_upd(1) [OF cs(1,2)]) simp
  ultimately show ?thesis
    using run(1) database.list_exact [OF lib inv' tree'] by auto
qed

theorem list_after_set_witness:
  "\<exists>d'. Database_set (sample_ext False) (RequestData_kv ''/a/b'' ''x'') sample_db = Some (True, d') \<and>
     Database_list (sample_ext False) ''/'' d' = Some [''a''] \<and>
     Database_list (sample_ext False) ''/a'' d' = Some [''b''] \<and>
     Database_list (sample_ext False) ''/a/b'' d' = None"
proof -
  have no_keys: "store_keys empty_store = {}" by (simp add: store_keys_def empty_store_def)
  have data: "RequestData_opts (path_of [''a'', ''b'']) ''x'' Options_default = RequestData_kv ''/a/b'' ''x''"
    by (simp add: RequestData_opts_def RequestData_kv_def)
  have nodes: "node_of (insert [''a'', ''b''] {}) [] = Some [''a'']"
    "node_of (insert [''a'', ''b''] {}) [''a''] = Some [''b'']"
    "node_of (insert [''a'', ''b''] {}) [''a'', ''b''] = None"
    by (simp_all add: node_of_def children_of_def)
  obtain d' where run: "Database_set (sample_ext False) (RequestData_kv ''/a/b'' ''x'') sample_db = Some (True, d')"
    and list: "\<And>as. names_ok as \<Longrightarrow>
      Database_list (sample_ext False) (node_path as) d' = node_of (insert [''a'', ''b''] {}) as"
    using list_after_set [OF sample.database_axioms [of False] sample_db_inv sample_clock_ok tree_inv_empty,
        of "[''a'', ''b'']" "''x''" Options_default] data no_keys
    by (auto simp: name_ok_def npos_val Options_default_def)
  have "Database_list (sample_ext False) ''/'' d' = Some [''a'']"
    "Database_list (sample_ext False) ''/a'' d' = Some [''b'']"
    "Database_list (sample_ext False) ''/a/b'' d' = None"
    using list [of "[]"] list [of "[''a'']"] list [of "[''a'', ''b'']"] nodes
    by (simp_all add: node_path_def name_ok_def)
  with run show ?thesis by blast
qed

text \<open>
  C18: removing a well-formed key below which there is no other key keeps the tree exact: \<open>list\<close> of
  every path returns exactly the names that follow the path in the remaining keys; the nodes that
  became empty are gone, up to the first one that has a value or another child.
\<close>

theorem list_after_remove:
  assumes lib: "database E base pending ciph enc_ready enc_used dec_ready dec_used"
    and inv: "database.db_inv E base ciph enc_ready enc_used dec_ready dec_used a d"
    and tree: "tree_inv a" and cs: "cs \<noteq> []" "names_ok cs" "length (path_of cs) < npos"
    and leaf: "leaf_in (store_keys a) cs"
  shows "\<exists>d' b. Database_remove E (path_of cs) d = Some (True, d') \<and>
    database.db_inv E base ciph enc_ready enc_used dec_ready dec_used b d' \<and> tree_inv b \<and>
    (\<forall>as. names_ok as \<longrightarrow> Database_list E (node_path as) d' = node_of (store_keys a - {cs}) as)"
proof -
  let ?b = "store_remove (path_of cs) False a"
  have "path_of cs \<noteq> []" using cs(1) by simp
  from database.Database_remove_ok [OF lib inv this] obtain d' where
    run: "Database_remove E (path_of cs) d = Some (True, d')"
    and inv': "database.db_inv E base ciph enc_ready enc_used dec_ready dec_used ?b d'"
    using tree getKey_path [OF cs(1)] by (auto simp: tree_inv_def)
  have tree': "tree_inv ?b" by (rule tree_inv_remove [OF tree cs leaf])
  have "store_keys ?b = store_keys a - {cs}" by (rule store_keys_upd(2) [OF cs(1,2)]) simp
  with run inv' tree' database.list_exact [OF lib inv' tree'] show ?thesis by auto
qed

theorem list_after_remove_witness:
  "\<exists>d'. Database_remove (sample_ext False) ''/a/b'' sample_db = Some (True, d') \<and>
     Database_list (sample_ext False) ''/'' d' = None"
proof -
  have "store_keys empty_store = {}" by (simp add: store_keys_def empty_store_def)
  then show ?thesis
    using list_after_remove [OF sample.database_axioms [of False] sample_db_inv tree_inv_empty, of "[''a'', ''b'']"]
    by (fastforce simp: name_ok_def npos_val leaf_in_def children_of_def node_of_def node_path_def
        dest!: spec [of _ "[]"])
qed


section \<open>Expirations\<close>

lemma sint_of_small_nat: "int x < 2 ^ 63 \<Longrightarrow> sint (word_of_nat x :: u64) = int x"
  using sint_sbintrunc' [of "int x", where ?'a = 64] by (simp add: signed_take_bit_int_eq_self)

lemma stamp_ttl_expiry:
  assumes "0 \<le> t" and "t + 1000000000 * uint e < 2 ^ 63"
  shows "stamp_ttl (expiry_stamp t e) n = max 0 ((t + 1000000000 * uint e - n) div 1000000000)"
proof -
  define x where "x = nat (t + 1000000000 * uint e)"
  have x: "int x = t + 1000000000 * uint e" "int x < 2 ^ 63" using assms by (simp_all add: x_def)
  have "0 \<le> t + 1000000000 * uint e" using assms(1) by simp
  then have "expiry_stamp t e = nat_to_string x" by (simp add: expiry_stamp_def int_to_string_def x_def)
  moreover have "from_chars_unsigned 64 (nat_to_string x) = Some x" using x by (intro from_chars_to_string) simp
  moreover have "sint (word_of_nat x :: u64) = int x"
    using x(2) by (rule sint_of_small_nat)
  ultimately have ttl: "stamp_ttl (expiry_stamp t e) n = (if int x > n then to_seconds (int x - n) else 0)"
    by (simp add: stamp_ttl_def Let_def)
  show ?thesis
  proof (cases "int x > n")
    case True
    then have "0 \<le> (int x - n) div 1000000000" by simp
    with True ttl x(1) show ?thesis by (simp add: to_seconds_def sgn_if)
  next
    case False
    then have "(int x - n) div 1000000000 \<le> 0" using zdiv_mono1 [of "int x - n" 0 1000000000] by simp
    with False ttl x(1) show ?thesis by simp
  qed
qed


text \<open>
  C23: the time to live of a key is the one it was set with, less the time since: after a
  successful \<open>set\<close> with an expiration of \<open>e > 0\<close> seconds at the time \<open>t\<close> (a reading of the clock
  during the call), \<open>ttl\<close> at the time \<open>n\<close> returns the whole seconds of \<open>t + e - n\<close>, and 0 from then
  on; no step of the conversion to decimal text and back or of the 64-bit arithmetic overflows.
\<close>

theorem ttl_after_set:
  assumes lib: "database E base pending ciph enc_ready enc_used dec_ready dec_used"
    and inv: "database.db_inv E base ciph enc_ready enc_used dec_ready dec_used a d"
    and clk: "database.clock_ok E" and key: "rd_key data \<noteq> []" and len: "length (rd_value data) + 16 < 2 ^ 31"
    and e: "expirationInSeconds (rd_options data) \<noteq> 0"
    and ine: "ifNotExists (rd_options data) \<Longrightarrow> vals a (getKey (rd_key data)) = None"
  shows "\<exists>d' i. Database_set E data d = Some (True, d') \<and> reads d \<le> i \<and>
    fst (Database_ttl E (rd_key data) d') =
      max 0 ((clock E i + 1000000000 * uint (expirationInSeconds (rd_options data)) - clock E (reads d'))
        div 1000000000)"
proof -
  let ?ks = "getKey (rd_key data)" and ?opts = "rd_options data"
  have "\<not> (cacheEntry ?opts \<and> expirationInSeconds ?opts = 0)" using e by simp
  from database.Database_set_ok [OF lib inv key this len clk ine] obtain d' i j where
    run: "Database_set E data d = Some (True, d')" "reads d \<le> i"
    and inv': "database.db_inv E base ciph enc_ready enc_used dec_ready dec_used
      (store_set ?ks (rd_value data) ?opts (clock E i) (clock E j) a) d'" by blast
  have "expiration (store_set ?ks (rd_value data) ?opts (clock E i) (clock E j) a) ?ks =
      Some (expiry_stamp (clock E i) (expirationInSeconds ?opts))"
    using e by (simp add: store_set_def store_expire_def)
  moreover have "0 \<le> clock E i" using clk by (simp add: database.clock_ok_def [OF lib])
  ultimately show ?thesis
    using database.Database_ttl_ok(1) [OF lib inv', of "rd_key data"] run
      stamp_ttl_expiry [OF _ database.expiry_in_range [OF lib clk]] by fastforce
qed

definition hour_request :: RequestData where
  "hour_request = RequestData_opts ''/s'' ''v'' (Options_expiration 3600)"

theorem ttl_after_set_witness:
  "\<exists>d' i. Database_set (sample_ext False) hour_request sample_db = Some (True, d') \<and>
     fst (Database_ttl (sample_ext False) ''/s'' d') =
       max 0 ((clock (sample_ext False) i + 3600000000000 - clock (sample_ext False) (reads d')) div 1000000000)"
  using ttl_after_set [OF sample.database_axioms [of False] sample_db_inv sample_clock_ok, of hour_request]
  by (fastforce simp: hour_request_def RequestData_opts_def Options_expiration_def Options_default_def)

text \<open>
  \<open>move\<close> without an expiration of its own carries the remaining time to live over in whole
  seconds: the source is gone, the destination holds its value, and its new expiry is the time of
  the call plus the whole seconds that were left.  When less than a second is left that is 0, which
  means no expiration: the destination then keeps whatever expiration it had, usually none, so that
  moving a key in the last second of its life makes the value permanent.
\<close>

theorem move_carries_ttl:
  fixes data :: RequestData
  defines "ks \<equiv> getKey (rd_key data)" and "ds \<equiv> getKey (rd_value data)"
  assumes lib: "database E base pending ciph enc_ready enc_used dec_ready dec_used"
    and inv: "database.db_inv E base ciph enc_ready enc_used dec_ready dec_used a d"
    and clk: "database.clock_ok E" and key: "rd_key data \<noteq> []" "rd_value data \<noteq> []" "ds \<noteq> ks"
    and v: "vals a ks = Some v" and opts: "rd_options data = Options_default"
    and exp: "expiration a ks = Some (expiry_stamp t e)" "0 \<le> t" "t + 1000000000 * uint e < 2 ^ 63"
  shows "\<exists>d' n i. Database_move E data d = Some (True, d') \<and> reads d \<le> n \<and>
    map_option fst (Database_get E ks d') = Some None \<and> map_option fst (Database_get E ds d') = Some (Some v) \<and>
    base (store d') Expiration ds =
      (let s = word_of_int (max 0 ((t + 1000000000 * uint e - clock E n) div 1000000000))
       in if s = 0 then base (store d) Expiration ds else Some (expiry_stamp (clock E i) s))"
proof -
  have "ifNotExists (rd_options data) \<Longrightarrow> vals a (getKey (rd_value data)) = None"
    by (simp add: opts Options_default_def)
  from database.Database_move_ok [OF lib inv key(1,2) v [unfolded ks_def] clk this, folded ks_def ds_def]
  obtain d' n i j where run: "Database_move E data d = Some (True, d')" "reads d \<le> n"
    and inv': "database.db_inv E base ciph enc_ready enc_used dec_ready dec_used
      (store_set ds v (move_options (rd_options data) ks (clock E n) a) (clock E i) (clock E j)
        (store_remove ks (cached a ks \<noteq> None) a)) d'" (is "database.db_inv _ _ _ _ _ _ _ ?b _") by blast
  have ne: "ks \<noteq> []" "ds \<noteq> []" by (simp_all add: ks_def ds_def)
  have "vals ?b (getKey ks) = None" "vals ?b (getKey ds) = Some v"
    using key(3) by (simp_all add: ks_def ds_def)
  then have get: "map_option fst (Database_get E ks d') = Some None"
    "map_option fst (Database_get E ds d') = Some (Some v)"
    using database.Database_get_ok [OF lib inv' ne(1)] database.Database_get_ok [OF lib inv' ne(2)] by auto
  have col: "base (store d') Expiration = expiration ?b" "base (store d) Expiration = expiration a"
    using inv inv' by (simp_all add: database.db_inv_def [OF lib] represents_def)
  have "expirationInSeconds (move_options (rd_options data) ks (clock E n) a) =
      word_of_int (max 0 ((t + 1000000000 * uint e - clock E n) div 1000000000))"
    using exp stamp_ttl_expiry [OF exp(2,3)] by (simp add: move_options_def opts Options_default_def)
  then show ?thesis
    using run get key(3)
    by (intro exI [of _ d'] exI [of _ n] exI [of _ i])
      (simp add: col store_set_def store_expire_def store_place_def store_value_def store_remove_def
        store_unplace_def store_delete_def Let_def)
qed

lemma hour_db:
  "\<exists>d i j. Database_set (sample_ext False) hour_request sample_db = Some (True, d) \<and>
     sample.db_inv False (store_set ''/s'' ''v'' (Options_expiration 3600) (clock (sample_ext False) i)
       (clock (sample_ext False) j) empty_store) d"
  using sample.Database_set_ok [where on = False, OF sample_db_inv _ _ _ sample_clock_ok, of hour_request]
  by (fastforce simp: hour_request_def RequestData_opts_def Options_expiration_def Options_default_def
      getKey_def)

theorem move_carries_ttl_witness:
  "\<exists>d d'. Database_set (sample_ext False) hour_request sample_db = Some (True, d) \<and>
     Database_move (sample_ext False) (RequestData_kv ''/s'' ''/p'') d = Some (True, d') \<and>
     map_option fst (Database_get (sample_ext False) ''/p'' d') = Some (Some ''v'')"
proof -
  obtain d i j where set: "Database_set (sample_ext False) hour_request sample_db = Some (True, d)"
    and inv: "sample.db_inv False (store_set ''/s'' ''v'' (Options_expiration 3600) (clock (sample_ext False) i)
       (clock (sample_ext False) j) empty_store) d" using hour_db by blast
  have clk: "0 \<le> clock (sample_ext False) i"
    "clock (sample_ext False) i + 1000000000 * uint (3600 :: u32) < 2 ^ 63"
    by (auto simp: sample_ext_def min_def)
  from move_carries_ttl [OF sample.database_axioms [of False] inv sample_clock_ok _ _ _ _ _ _ clk,
      of "RequestData_kv ''/s'' ''/p''" "''v''"] set
  show ?thesis
    by (fastforce simp: RequestData_kv_def getKey_def store_set_def store_expire_def Options_expiration_def
        Options_default_def)
qed

section \<open>Opening again\<close>

text \<open>
  Closing and opening the database keeps what was committed and forgets the value cache: every
  key reads as before and every path lists as before, and the pools are usable again.
\<close>

theorem reopen_keeps_contents:
  assumes lib: "database E base pending ciph enc_ready enc_used dec_ready dec_used"
    and inv: "database.db_inv E base ciph enc_ready enc_used dec_ready dec_used a d"
    and run: "Database_reopen E d = Some d'"
  shows "database.db_inv E base ciph enc_ready enc_used dec_ready dec_used a d' \<and>
    cache_count (valueCache d') = 0 \<and> Database_list E key d' = Database_list E key d \<and>
    map_option fst (Database_get E key d') = map_option fst (Database_get E key d)"
proof -
  note inv' = database.Database_reopen_ok [OF lib inv run]
  show ?thesis
  proof (cases "key = []")
    case True
    then show ?thesis using inv' by (simp add: cache_count_def Database_list_def Database_get_def)
  next
    case False
    have "map_option fst (Database_get E key d') = Some (vals a (getKey key))"
      "map_option fst (Database_get E key d) = Some (vals a (getKey key))"
      using database.Database_get_ok [OF lib inv'(1) False] database.Database_get_ok [OF lib inv False] by auto
    then have "map_option fst (Database_get E key d') = map_option fst (Database_get E key d)" by (simp only:)
    then show ?thesis
      using inv' database.Database_list_ok [OF lib inv'(1) False] database.Database_list_ok [OF lib inv False]
      by (simp add: cache_count_def)
  qed
qed

theorem reopen_keeps_contents_witness:
  "\<exists>d'. Database_reopen (sample_ext True) sample_db = Some d' \<and> cache_count (valueCache d') = 0"
proof -
  obtain d' where run: "Database_reopen (sample_ext True) sample_db = Some d'"
    by (simp add: Database_reopen_def Database_init_def Database_close_def sample_ext_def mem_rocksdb_def Let_def)
  from reopen_keeps_contents [OF sample.database_axioms sample_db_inv run] run show ?thesis by auto
qed


section \<open>Batches\<close>

text \<open>What the items of a batch do to a map; \<^term>\<open>None\<close> when an item is refused.\<close>

fun map_all :: "('a \<Rightarrow> 'm \<Rightarrow> 'm option) \<Rightarrow> 'a list \<Rightarrow> 'm \<Rightarrow> 'm option" where
  "map_all g [] m = Some m"
| "map_all g (x # xs) m = (case g x m of None \<Rightarrow> None | Some m \<Rightarrow> map_all g xs m)"

definition set_item :: "RequestData \<Rightarrow> (string \<Rightarrow> string option) \<Rightarrow> (string \<Rightarrow> string option) option" where
  "set_item data m =
     (let ks = getKey (rd_key data)
      in if ifNotExists (rd_options data) \<and> m ks \<noteq> None then None else Some (m(ks \<mapsto> rd_value data)))"

definition remove_item :: "string \<Rightarrow> (string \<Rightarrow> string option) \<Rightarrow> (string \<Rightarrow> string option) option" where
  "remove_item key m = Some (m(getKey key := None))"

definition move_item :: "RequestData \<Rightarrow> (string \<Rightarrow> string option) \<Rightarrow> (string \<Rightarrow> string option) option" where
  "move_item data m =
     (let ks = getKey (rd_key data); ds = getKey (rd_value data)
      in if m ks = None \<or> ifNotExists (rd_options data) \<and> m ds \<noteq> None then None
         else Some (m(ks := None, ds := m ks)))"

context database
begin

text \<open>The value cache agrees with what the transaction sees, and values are short enough.\<close>

definition sound :: "Store \<Rightarrow> ('s, 't, 'x) Database \<Rightarrow> bool" where
  "sound a d \<longleftrightarrow> (enableCache (conf E) \<longrightarrow> vc.coherent (vals a) (valueCache d)) \<and>
     (\<forall>k v. vals a k = Some v \<longrightarrow> length v + 16 < 2 ^ 31)"

text \<open>A step of a transaction simulates a partial function on maps.\<close>

definition simulates ::
  "('t \<Rightarrow> ('s, 't, 'x) Database \<Rightarrow> (bool \<times> ('s, 't, 'x) Database) option) \<Rightarrow>
   ((string \<Rightarrow> string option) \<Rightarrow> (string \<Rightarrow> string option) option) \<Rightarrow> bool" where
  "simulates f g \<longleftrightarrow> (\<forall>t a d. inside t 0 a d \<longrightarrow> sound a d \<longrightarrow>
     (case g (vals a) of
        None \<Rightarrow> \<exists>d'. f t d = Some (False, d') \<and> frame d d'
      | Some m \<Rightarrow> \<exists>d' b. f t d = Some (True, d') \<and> frame d d' \<and> inside t 0 b d' \<and> sound b d' \<and> vals b = m))"

lemma txn_loop_simulates:
  assumes "\<And>x. x \<in> set xs \<Longrightarrow> simulates (f x) (g x)"
  shows "simulates (txn_loop f xs) (map_all g xs)"
  using assms
proof (induction xs)
  case Nil
  then show ?case unfolding simulates_def by fastforce
next
  case (Cons x xs)
  show ?case unfolding simulates_def
  proof (intro allI impI)
    fix t a d
    assume a: "inside t 0 a d" "sound a d"
    note one = Cons.prems [of x, unfolded simulates_def, rule_format, OF _ a]
    show "case map_all g (x # xs) (vals a) of
        None \<Rightarrow> \<exists>d'. txn_loop f (x # xs) t d = Some (False, d') \<and> frame d d'
      | Some m \<Rightarrow> \<exists>d' b. txn_loop f (x # xs) t d = Some (True, d') \<and> frame d d' \<and> inside t 0 b d' \<and>
          sound b d' \<and> vals b = m"
    proof (cases "g x (vals a)")
      case None
      with one show ?thesis by fastforce
    next
      case (Some m)
      with one obtain d1 b where d1: "f x t d = Some (True, d1)" "frame d d1" "inside t 0 b d1" "sound b d1" "vals b = m"
        by auto
      have "simulates (txn_loop f xs) (map_all g xs)" using Cons by simp
      from this [unfolded simulates_def, rule_format, OF d1(3,4)] d1 Some show ?thesis
        by (auto split: option.splits intro: frame_trans)
    qed
  qed
qed

lemma simulates_set:
  assumes "length (rd_value data) + 16 < 2 ^ 31" and "clock_ok"
  shows "simulates (set_txn E (rd_key data) (rd_value data) (rd_options data)) (set_item data)"
  unfolding simulates_def
proof (intro allI impI)
  fix t a d
  assume a: "inside t 0 a d" "sound a d"
  let ?ks = "getKey (rd_key data)" and ?v = "rd_value data" and ?opts = "rd_options data"
  have lt: "length ?v < 2 ^ 31" using assms(1) by simp
  show "case set_item data (vals a) of
      None \<Rightarrow> \<exists>d'. set_txn E (rd_key data) ?v ?opts t d = Some (False, d') \<and> frame d d'
    | Some m \<Rightarrow> \<exists>d' b. set_txn E (rd_key data) ?v ?opts t d = Some (True, d') \<and> frame d d' \<and> inside t 0 b d' \<and>
        sound b d' \<and> vals b = m"
  proof (cases "ifNotExists ?opts \<and> vals a ?ks \<noteq> None")
    case True
    with set_txn_exists [OF a(1) _ lt, of ?opts "rd_key data"] show ?thesis by (auto simp: set_item_def)
  next
    case False
    then have ine: "ifNotExists ?opts \<Longrightarrow> vals a ?ks = None" by auto
    from set_txn_ok [where opts = ?opts and key = "rd_key data", OF a(1) _ lt assms(2) ine] obtain d' i j where
      run: "set_txn E (rd_key data) ?v ?opts t d = Some (True, d')" "frame d d'"
      "inside t 0 (store_set ?ks ?v ?opts (clock E i) (clock E j) a) d'"
      "valueCache d' = valueCache (cache_store E ?ks ?v d)" by auto
    have "sound (store_set ?ks ?v ?opts (clock E i) (clock E j) a) d'"
      using a(2) run(4) assms(1) by (auto simp: sound_def cache_store_def intro: vc.coherent_put)
    moreover have "set_item data (vals a) = Some ((vals a)(?ks \<mapsto> ?v))"
      using False by (auto simp: set_item_def Let_def)
    ultimately show ?thesis using run(1-3) by (auto intro!: exI)
  qed
qed

lemma simulates_remove: "simulates (\<lambda>t. remove_txn E key t True) (remove_item key)"
  unfolding simulates_def remove_item_def option.case
proof (intro allI impI)
  fix t a d
  assume a: "inside t 0 a d" "sound a d"
  let ?ks = "getKey key" and ?c = "committed d CacheColumn (getKey key) \<noteq> None"
  from remove_txn_ok [OF a(1), of key True] obtain d' where run: "remove_txn E key t True d = Some (True, d')"
    "frame d d'" "inside t 0 (store_remove ?ks ?c a) d'" "valueCache d' = valueCache (cache_forget E ?ks d)"
    by blast
  have "sound (store_remove ?ks ?c a) d'"
    using a(2) run(4) by (auto simp: sound_def cache_forget_def intro: vc.coherent_erase)
  with run(1-3) show "\<exists>d' b. remove_txn E key t True d = Some (True, d') \<and> frame d d' \<and> inside t 0 b d' \<and>
      sound b d' \<and> vals b = (vals a)(?ks := None)"
    by (intro exI [of _ d'] exI [of _ "store_remove ?ks ?c a"]) simp
qed

lemma simulates_move:
  assumes "clock_ok"
  shows "simulates (move_txn E (rd_key data) (rd_value data) (rd_options data)) (move_item data)"
  unfolding simulates_def
proof (intro allI impI)
  fix t a d
  assume a: "inside t 0 a d" "sound a d"
  let ?ks = "getKey (rd_key data)" and ?ds = "getKey (rd_value data)" and ?opts = "rd_options data"
  show "case move_item data (vals a) of
      None \<Rightarrow> \<exists>d'. move_txn E (rd_key data) (rd_value data) ?opts t d = Some (False, d') \<and> frame d d'
    | Some m \<Rightarrow> \<exists>d' b. move_txn E (rd_key data) (rd_value data) ?opts t d = Some (True, d') \<and> frame d d' \<and>
        inside t 0 b d' \<and> sound b d' \<and> vals b = m"
  proof (cases "vals a ?ks = None \<or> ifNotExists ?opts \<and> vals a ?ds \<noteq> None")
    case True
    with move_txn_refused [OF a(1), of "rd_key data" ?opts "rd_value data"] show ?thesis
      by (auto simp: move_item_def)
  next
    case False
    then obtain v where v: "vals a ?ks = Some v" by auto
    have ine: "ifNotExists ?opts \<Longrightarrow> vals a ?ds = None" using False by auto
    have len: "length v + 16 < 2 ^ 31" using a(2) v by (simp add: sound_def)
    from move_txn_ok [where opts = ?opts, OF a(1) _ v len assms ine] obtain d' b where
      run: "move_txn E (rd_key data) (rd_value data) ?opts t d = Some (True, d')" "frame d d'" "inside t 0 b d'"
      "valueCache d' = valueCache (cache_store E ?ds v (cache_forget E ?ks d))"
      and b: "vals b = (vals a)(?ks := None, ?ds \<mapsto> v)" by fastforce
    have "sound b d'"
      using a(2) run(4) len
      by (auto simp: sound_def b cache_store_def cache_forget_def intro!: vc.coherent_put vc.coherent_erase)
    moreover have "move_item data (vals a) = Some ((vals a)(?ks := None, ?ds \<mapsto> v))"
      using False v by (auto simp: move_item_def Let_def)
    ultimately show ?thesis using run(1-3) b by auto
  qed
qed

end


context database
begin

lemma with_txn_total_failure:
  assumes "db_inv a d"
    and body: "\<And>t d1. inside t 0 a d1 \<Longrightarrow> valueCache d1 = valueCache d \<Longrightarrow>
      \<exists>d2. f t d1 = Some (False, d2) \<and> frame d1 d2"
  shows "\<exists>d'. with_txn E (\<lambda>t d. do { (s, d) \<leftarrow> f t d; if \<not> s then Some (False, d) else Some (commit E t d) }) d =
      Some (False, d') \<and> committed d' = committed d"
proof -
  from acquire_txn_ok [of 0 d] assms(1) obtain t w d1 h where
    acq: "acquire_txn E d = Some (t, w, d1)" "encrypters d1 = encrypters d"
    "valueCache d1 = valueCache d" "committed d1 = committed d" "view (store d1) t = committed d"
    by (auto simp: db_inv_def)
  have "inside t 0 a d1" using assms(1) acq(2,5) by (simp add: db_inv_def inside_def enc_at_def)
  from body [OF this acq(3)] obtain d2 where "f t d1 = Some (False, d2)" "frame d1 d2" by blast
  then show ?thesis using acq(1,4) by (simp add: with_txn_def frame_def)
qed

text \<open>
  A batch of simulated steps commits all of them or none: it returns whether the specification
  has a result, and the state then represents that result or is what it was.
\<close>

definition batch_outcome ::
  "('s, 't, 'x) Database \<Rightarrow> (bool \<times> ('s, 't, 'x) Database) option \<Rightarrow> (string \<Rightarrow> string option) option \<Rightarrow> bool" where
  "batch_outcome d run spec \<longleftrightarrow> (\<exists>d'. run = Some (spec \<noteq> None, d') \<and>
     (case spec of None \<Rightarrow> committed d' = committed d | Some m \<Rightarrow> \<exists>b. db_inv b d' \<and> vals b = m))"

lemma batch_simulates:
  assumes inv: "db_inv a d" and sim: "simulates f g"
  shows "batch_outcome d (with_txn E (\<lambda>t d. do { (s, d) \<leftarrow> f t d;
      if \<not> s then Some (False, d) else Some (commit E t d) }) d) (g (vals a))"
proof -
  have ok: "sound a d1" if "valueCache d1 = valueCache d" for d1
    using inv that by (simp add: db_inv_def sound_def)
  note step = sim [unfolded simulates_def, rule_format, OF _ ok]
  show ?thesis
  proof (cases "g (vals a)")
    case None
    with with_txn_total_failure [OF inv, of f] step show ?thesis by (simp add: batch_outcome_def)
  next
    case (Some m)
    let ?P = "\<lambda>b vc. vals b = m \<and> (enableCache (conf E) \<longrightarrow> vc.coherent m vc) \<and>
      (\<forall>k v. m k = Some v \<longrightarrow> length v + 16 < 2 ^ 31)"
    have "\<exists>d2 b. f t d1 = Some (True, d2) \<and> frame d1 d2 \<and> inside t 0 b d2 \<and> ?P b (valueCache d2)"
      if "inside t 0 a d1" "valueCache d1 = valueCache d" for t d1
      using step [OF that] unfolding Some option.case sound_def by blast
    from with_txn_committed [where P = ?P and f = f, OF inv this] obtain d' b where
      "with_txn E (\<lambda>t d. do { (s, d) \<leftarrow> f t d; if \<not> s then Some (False, d) else Some (commit E t d) }) d =
        Some (True, d')" "meaning (committed d') b" "enc_at 0 d'" "txn_at 0 d'" "?P b (valueCache d')" by blast
    with Some show ?thesis by (auto simp: db_inv_def batch_outcome_def)
  qed
qed

end

text \<open>
  C16: a batch is all or nothing in the positive sense too: \<open>set\<close>, \<open>remove\<close> and \<open>move\<close> of several
  items return, they return true exactly when no item is refused when the items are applied in
  order, each seeing the effect of the ones before it, and then all of them are committed; when one
  is refused the committed tables are untouched.
\<close>

theorem batch_all_or_nothing:
  assumes lib: "database E base pending ciph enc_ready enc_used dec_ready dec_used"
    and inv: "database.db_inv E base ciph enc_ready enc_used dec_ready dec_used a d"
    and clk: "database.clock_ok E" and len: "\<forall>data \<in> set kvs. length (rd_value data) + 16 < 2 ^ 31"
  shows "database.batch_outcome E base ciph enc_ready enc_used dec_ready dec_used d
      (Database_set_batch E kvs d) (map_all set_item kvs (vals a)) \<and>
    database.batch_outcome E base ciph enc_ready enc_used dec_ready dec_used d
      (Database_remove_batch E keys d) (map_all remove_item keys (vals a)) \<and>
    database.batch_outcome E base ciph enc_ready enc_used dec_ready dec_used d
      (Database_move_batch E kvs d) (map_all move_item kvs (vals a))"
proof -
  note batch = database.batch_simulates [OF lib inv database.txn_loop_simulates [OF lib]]
  show ?thesis
    unfolding Database_set_batch_def Database_remove_batch_def Database_move_batch_def
    by (intro conjI batch database.simulates_set [OF lib _ clk] database.simulates_remove [OF lib]
        database.simulates_move [OF lib clk]) (use len in auto)
qed

theorem batch_all_or_nothing_witness:
  "\<exists>d'. Database_set_batch (sample_ext True) [RequestData_kv ''/x'' ''1'', RequestData_kv ''/y'' ''2''] sample_db =
     Some (True, d')"
  using batch_all_or_nothing [OF sample.database_axioms [of True] sample_db_inv sample_clock_ok,
      of "[RequestData_kv ''/x'' ''1'', RequestData_kv ''/y'' ''2'']"]
  unfolding sample.batch_outcome_def
  by (auto simp: RequestData_kv_def set_item_def Options_default_def Let_def)




section \<open>Reading several keys\<close>

context database
begin

lemma get_batch_loop_ok:
  assumes "enc_at u d" and "con w = Some e" and "encrypter_ok e" and "sound a d" and "txn_at v d"
    and "meaning (committed d) a"
  shows "\<exists>w' e' d'. get_batch_loop E (zip ks (map (db_Get (rocks E) (store d) Data) ks)) w d =
      Some (map (\<lambda>k. (k, vals a k)) ks, w', d') \<and> con w' = Some e' \<and> encrypter_ok e' \<and> enc_at u d' \<and>
      txn_at v d' \<and> sound a d' \<and> store d' = store d"
  using assms
proof (induction ks arbitrary: w e d)
  case Nil
  then show ?case by simp
next
  case (Cons k ks)
  have data: "committed d Data k = map_option cipher_text (vals a k)"
    using Cons.prems(6) by (rule represents_data)
  show ?case
  proof (cases "vals a k")
    case None
    then have "fst (db_Get (rocks E) (store d) Data k) = NotFound" using get_none data by simp
    with Cons.IH [OF Cons.prems] None show ?thesis
      by (cases "db_Get (rocks E) (store d) Data k") auto
  next
    case (Some x)
    then have read: "db_Get (rocks E) (store d) Data k = (OkStatus, cipher_text x)" using get_some data by simp
    have len: "length x + 16 < 2 ^ 31" using Cons.prems(4) Some by (simp add: sound_def)
    from decrypt_with_ok [OF Cons.prems(2,3) len] obtain w1 e1 where
      dec: "decrypt_with E (cipher_text x) w = Some (x, w1)" "con w1 = Some e1" "encrypter_ok e1" by blast
    let ?d = "cache_store E k x d"
    have inv: "enc_at u ?d" "txn_at v ?d" "meaning (committed ?d) a"
      using Cons.prems(1,5,6) by (simp_all add: cache_store_def enc_at_def txn_at_def)
    have "sound a ?d"
      using Cons.prems(4) Some by (auto simp: sound_def cache_store_def intro: vc.coherent_read)
    moreover have "store ?d = store d" by (simp add: cache_store_def)
    ultimately show ?thesis
      using Cons.IH [OF inv(1) dec(2,3) _ inv(2,3)] read dec(1) Some by auto
  qed
qed

lemma get_hits_misses:
  assumes "sound a d"
  shows "mset (get_hits E ks d @ map (\<lambda>k. (k, vals a k)) (get_misses E ks d)) =
    image_mset (\<lambda>k. (k, vals a k)) (mset ks)"
proof (induction ks)
  case Nil
  then show ?case by (simp add: get_hits_def get_misses_def List.map_filter_def)
next
  case (Cons k ks)
  have "vals a k = Some v" if "cache_lookup E k d = Some v" for v
    using assms that vc.coherent_lookup by (fastforce simp: sound_def cache_lookup_def split: if_splits)
  with Cons show ?case
    by (cases "cache_lookup E k d") (auto simp: get_hits_def get_misses_def List.map_filter_def)
qed

lemma Database_get_batch_ok:
  assumes inv: "db_inv a d"
  shows "\<exists>rs d'. Database_get_batch E vec d = Some (rs, d') \<and> db_inv a d' \<and>
    mset rs = image_mset (\<lambda>k. (getKey k, vals a (getKey k))) (mset vec)"
proof -
  let ?ks = "map getKey vec"
  from acquire_encrypter_ok [of 0 d] inv obtain w d1 e where
    acq: "acquire_encrypter E d = Some (Some w, d1)" "con w = Some e" "encrypter_ok e" "enc_at (Suc 0) d1"
    "store d1 = store d" "transactions d1 = transactions d" "valueCache d1 = valueCache d"
    by (auto simp: db_inv_def)
  have snd1: "sound a d1" and txn1: "txn_at 0 d1" and mean: "meaning (committed d1) a"
    using inv acq(5-7) by (simp_all add: db_inv_def sound_def txn_at_def)
  note mis = get_hits_misses [OF snd1, of ?ks]
  show ?thesis
  proof (cases "get_misses E ?ks d1 = []")
    case True
    then have "Database_get_batch E vec d = Some (get_hits E ?ks d1, release_encrypter E w d1)"
      using acq(1) by (simp add: Database_get_batch_def Let_def)
    moreover have "db_inv a (release_encrypter E w d1)"
      using release_encrypter_ok [OF acq(4,2,3)] inv acq(5-7) by (simp add: db_inv_def txn_at_def)
    ultimately show ?thesis using mis True by (simp add: multiset.map_comp comp_def)
  next
    case False
    from get_batch_loop_ok [OF acq(4,2,3) snd1 txn1 mean, of "get_misses E ?ks d1"] obtain w2 e2 d2 where
      loop: "get_batch_loop E (zip (get_misses E ?ks d1) (map (db_Get (rocks E) (store d1) Data)
          (get_misses E ?ks d1))) w d1 = Some (map (\<lambda>k. (k, vals a k)) (get_misses E ?ks d1), w2, d2)"
      "con w2 = Some e2" "encrypter_ok e2" "enc_at (Suc 0) d2" "txn_at 0 d2" "sound a d2" "store d2 = store d1"
      by blast
    have "Database_get_batch E vec d =
        Some (get_hits E ?ks d1 @ map (\<lambda>k. (k, vals a k)) (get_misses E ?ks d1), release_encrypter E w2 d2)"
      using acq(1) loop(1) False by (simp add: Database_get_batch_def Let_def multiget)
    moreover have "db_inv a (release_encrypter E w2 d2)"
      using release_encrypter_ok [OF loop(4,2,3)] inv acq(5) loop(5-7)
      by (simp add: db_inv_def txn_at_def sound_def)
    ultimately show ?thesis using mis by (simp add: multiset.map_comp comp_def)
  qed
qed

end

text \<open>
  Reading several keys answers each of them once, with its normalised form and the value it
  has, or none: the result is a rearrangement (keys found in the value cache come first) of the
  answers to the keys one by one.
\<close>

theorem get_batch_answers_each_key:
  assumes lib: "database E base pending ciph enc_ready enc_used dec_ready dec_used"
    and inv: "database.db_inv E base ciph enc_ready enc_used dec_ready dec_used a d"
  shows "\<exists>rs d'. Database_get_batch E vec d = Some (rs, d') \<and>
    mset rs = image_mset (\<lambda>k. (getKey k, vals a (getKey k))) (mset vec)"
  using database.Database_get_batch_ok [OF lib inv, of vec] by blast

theorem get_batch_answers_each_key_witness:
  "\<exists>rs d'. Database_get_batch (sample_ext True) [''x''] sample_db = Some (rs, d') \<and> mset rs = {#(''/x'', None)#}"
  using get_batch_answers_each_key [OF sample.database_axioms [of True] sample_db_inv, of "[''x'']"]
  by (simp add: getKey_def empty_store_def)

end
