(* ===== verification/Expiry.thy ===== *)
theory Expiry
  imports Storage
begin

text \<open>
  The background work on the storage: \<open>clearExpired\<close> and \<open>backup\<close> of \<open>src/lib/db/storage.cpp\<close> and
  the threads of \<open>src/service/clearexpired.cpp\<close> and \<open>backup.cpp\<close> that call them.  A flag that
  another thread may set is the sequence of the values its readings return.
\<close>

section \<open>Clearing expired keys\<close>

text \<open>
  \<open>IteratorHolder\<close>: an iterator over the column \<open>expiring\<close> bounded by the current time as text.
\<close>

definition IteratorHolder ::
  "('s, 't, 'x) Ext \<Rightarrow> ('s, 't, 'x) Database \<Rightarrow> (string \<times> string) list \<times> ('s, 't, 'x) Database" where
  "IteratorHolder E d =
     (let (ns, d) = now E d in (db_Iterate (rocks E) (store d) Expiring (int_to_string ns), d))"

text \<open>The first loop collects the entries until the flag is set; \<open>i\<close> counts the readings of the flag.\<close>

fun collect_expired ::
  "(nat \<Rightarrow> bool) \<Rightarrow> nat \<Rightarrow> (string \<times> string) list \<Rightarrow> (string \<times> string) list \<times> nat" where
  "collect_expired stop i [] = ([], i)"
| "collect_expired stop i (e # es) =
     (if stop i then ([e], Suc i)
      else let (keys, j) = collect_expired stop (Suc i) es in (e # keys, j))"

text \<open>The second loop removes the keys; a failed removal or deletion is only logged.\<close>

fun clear_loop ::
  "('s, 't, 'x) Ext \<Rightarrow> (nat \<Rightarrow> bool) \<Rightarrow> nat \<Rightarrow> (string \<times> string) list \<Rightarrow> nat \<Rightarrow> 't \<Rightarrow>
   ('s, 't, 'x) Database \<Rightarrow> (nat \<times> ('s, 't, 'x) Database) option" where
  "clear_loop E stop i [] n txn d = Some (n, d)"
| "clear_loop E stop i ((key, value) # keys) n txn d = do {
     (removed, d) \<leftarrow> remove_txn E value txn False d;
     let (n, d) = (if removed then (Suc n, snd (delete E txn Expiring key d)) else (n, d));
     if stop i then Some (n, d) else clear_loop E stop (Suc i) keys n txn d }"

text \<open>Everything between \<open>TXN\<close> and the commit; false when the flag ends the method early.\<close>

definition clear_steps ::
  "('s, 't, 'x) Ext \<Rightarrow> (nat \<Rightarrow> bool) \<Rightarrow> 't \<Rightarrow> ('s, 't, 'x) Database \<Rightarrow> (bool \<times> ('s, 't, 'x) Database) option" where
  "clear_steps E stop txn d = (
     let (es, d) = IteratorHolder E d; (keys, i) = collect_expired stop 0 es in
     if stop i then Some (False, d)
     else do {
       (n, d) \<leftarrow> clear_loop E stop (Suc i) keys 0 txn d;
       Some (True, d) })"

definition clearExpired ::
  "('s, 't, 'x) Ext \<Rightarrow> (nat \<Rightarrow> bool) \<Rightarrow> ('s, 't, 'x) Database \<Rightarrow> (bool \<times> ('s, 't, 'x) Database) option" where
  "clearExpired E stop d = (
     let (ns, d) = now E d in
     with_txn E (\<lambda>txn d. do {
       (s, d) \<leftarrow> clear_steps E stop txn d;
       if \<not> s then Some (False, d) else Some (commit E txn d) }) d)"

text \<open>The thread: each round reads the flag and, if it runs on, clears.\<close>

fun ClearExpired_run ::
  "('s, 't, 'x) Ext \<Rightarrow> (bool \<times> (nat \<Rightarrow> bool)) list \<Rightarrow> ('s, 't, 'x) Database \<Rightarrow> ('s, 't, 'x) Database option" where
  "ClearExpired_run E [] d = Some d"
| "ClearExpired_run E ((flag, stop) # turns) d =
     (if flag then Some d
      else do { (r, d) \<leftarrow> clearExpired E stop d; ClearExpired_run E turns d })"

section \<open>Backups\<close>

text \<open>
  The calls of \<open>backup\<close> on the backup engine of RocksDB, whose answers are parameters: whether it
  opens, and the readings of the flag.
\<close>

datatype backup_call = CreateNewBackup | PurgeOldBackups u32

definition backup :: "bool \<Rightarrow> bool \<Rightarrow> bool \<Rightarrow> Configuration \<Rightarrow> backup_call list" where
  "backup opened stop1 stop2 c =
     (if \<not> opened then []
      else (if \<not> stop1 then [CreateNewBackup] else []) @
           (if \<not> stop2 then [PurgeOldBackups (maxBackups (storage c))] else []))"

text \<open>\<open>Backup::run\<close>: the days since the epoch at which it starts a backup.\<close>

fun Backup_run :: "int \<Rightarrow> (bool \<times> int) list \<Rightarrow> int list" where
  "Backup_run startDay [] = []"
| "Backup_run startDay ((flag, day) # turns) =
     (if flag then []
      else if day > startDay then day # Backup_run day turns
      else Backup_run startDay turns)"

text \<open>The turns before the flag is set.\<close>

definition backup_days :: "(bool \<times> int) list \<Rightarrow> int list" where
  "backup_days turns = map snd (takeWhile (\<lambda>r. \<not> fst r) turns)"

lemma backup_days_simps [simp]:
  "backup_days [] = []" "backup_days ((True, day) # turns) = []"
  "backup_days ((False, day) # turns) = day # backup_days turns"
  by (simp_all add: backup_days_def)

lemma Backup_run_above: "sorted_wrt (<) (startDay # Backup_run startDay turns)"
proof (induction turns arbitrary: startDay)
  case Nil
  then show ?case by simp
next
  case (Cons r turns)
  show ?case using Cons.IH [of startDay] Cons.IH [of "snd r"] by (cases r) fastforce
qed

lemma Backup_run_newest:
  "last (startDay # Backup_run startDay turns) = Max (set (startDay # backup_days turns))"
proof (induction turns arbitrary: startDay)
  case Nil
  then show ?case by (simp add: backup_days_def)
next
  case (Cons r turns)
  obtain flag day where r: "r = (flag, day)" by fastforce
  let ?S = "set (backup_days turns)"
  have drop: "Max (insert x (insert y ?S)) = Max (insert y ?S)" if "x \<le> y" for x y
  proof -
    have "x \<le> Max (insert y ?S)" using that by (intro order_trans [OF that Max_ge]) auto
    then show ?thesis by (subst Max_insert) auto
  qed
  show ?case
  proof (cases flag)
    case True
    then show ?thesis by (simp add: r)
  next
    case False
    then show ?thesis
      using Cons.IH [of day] Cons.IH [of startDay] drop [of startDay day] drop [of day startDay]
      by (cases "day > startDay") (auto simp: r insert_commute)
  qed
qed

text \<open>
  The backup thread backs up at most once for a day and never for the day it was started on or
  an earlier one, even when the clock goes back, and the newest day it observed before it was
  stopped has been backed up.
\<close>

theorem Backup_run_once_per_day:
  "sorted_wrt (<) (startDay # Backup_run startDay turns) \<and>
   last (startDay # Backup_run startDay turns) = Max (set (startDay # backup_days turns))"
  using Backup_run_above Backup_run_newest by blast


section \<open>Which keys are cleared\<close>

lemma append_less_same_length:
  fixes ds es :: "'a :: linorder list"
  shows "length ds = length es \<Longrightarrow> ds @ xs < es \<longleftrightarrow> ds < es"
proof (induction ds es rule: list_induct2)
  case Nil
  then show ?case by simp
next
  case (Cons d ds e es)
  then show ?case by auto
qed

text \<open>
  Stamps of the same number of digits compare as text like the times they stand for, with whatever
  follows them.  (Nanoseconds since the epoch have 19 digits from 2001 to 2286.)
\<close>

lemma stamp_order:
  assumes "0 \<le> m" and "0 \<le> n" and "length (int_to_string m) = length (int_to_string n)"
  shows "int_to_string m @ x < int_to_string n \<longleftrightarrow> m < n"
  using assms append_less_same_length [OF assms(3)] nat_to_string_less_iff [of "nat m" "nat n"]
  by (auto simp: int_to_string_def)

text \<open>The flag is not set while the method runs.\<close>

abbreviation running :: "nat \<Rightarrow> bool" where
  "running \<equiv> \<lambda>_. False"

lemma digits_19: "1000000000000000000 \<le> n \<Longrightarrow> n < 10000000000000000000 \<Longrightarrow> length (int_to_string n) = 19"
  using nat_to_string_length [of 18 "nat n"] by (simp add: int_to_string_def)

lemma collect_expired_all: "collect_expired running i es = (es, i + length es)"
  by (induction es arbitrary: i) auto

text \<open>The entries that the iterator returns at the time \<open>n\<close>.\<close>

definition expired :: "int \<Rightarrow> Store \<Rightarrow> (string \<times> string) set" where
  "expired n a = {(ts, k). expiring a ts = Some k \<and> ts < int_to_string n}"

definition cleared :: "int \<Rightarrow> Store \<Rightarrow> Store \<Rightarrow> bool" where
  "cleared n a b \<longleftrightarrow> vals b = (\<lambda>k. if k \<in> getKey ` snd ` expired n a then None else vals a k) \<and>
     expiring b = (\<lambda>ts. if ts < int_to_string n then None else expiring a ts)"

context database
begin

lemma clear_loop_ok:
  assumes "inside t 0 a d" and "sound a d"
  shows "\<exists>m d' b. clear_loop E running i es n t d = Some (m, d') \<and> frame d d' \<and> inside t 0 b d' \<and> sound b d' \<and>
    vals b = (\<lambda>k. if k \<in> getKey ` snd ` set es then None else vals a k) \<and>
    expiring b = (\<lambda>ts. if ts \<in> fst ` set es then None else expiring a ts)"
  using assms(1,2)
proof (induction es arbitrary: a d i n)
  case Nil
  then show ?case by auto
next
  case (Cons e es)
  obtain ts k where e: "e = (ts, k)" by fastforce
  let ?ks = "getKey k" and ?c = "committed d CacheColumn (getKey k) \<noteq> None"
  from remove_txn_ok [OF Cons.prems(1), of k False] obtain d1 where
    rem: "remove_txn E k t False d = Some (True, d1)" "frame d d1" "inside t 0 (store_remove ?ks ?c a) d1"
    "valueCache d1 = valueCache (cache_forget E ?ks d)" by blast
  from inside_delete [OF rem(3), of Expiring ts] obtain d2 where
    del: "delete E t Expiring ts d1 = (OkStatus, d2)" "frame d1 d2" "enc_at 0 d2" "valueCache d2 = valueCache d1"
    "view (store d2) t = tset Expiring ts None (view (store d1) t)" by blast
  define b where "b = (store_remove ?ks ?c a)\<lparr>expiring := (expiring a)(ts := None)\<rparr>"
  have "expiring (store_remove ?ks ?c a) = expiring a"
    by (simp add: store_remove_def store_unplace_def store_delete_def)
  then have in2: "inside t 0 b d2"
    using rem(3) del(3,5) by (simp add: b_def inside_def represents_def tset_same_column)
  have "sound b d2"
    using Cons.prems(2) rem(4) del(4)
    by (auto simp: sound_def b_def cache_forget_def intro: vc.coherent_erase)
  from Cons.IH [OF in2 this, of "Suc i" "Suc n"] obtain m d' b' where
    rest: "clear_loop E running (Suc i) es (Suc n) t d2 = Some (m, d')" "frame d2 d'" "inside t 0 b' d'" "sound b' d'"
    "vals b' = (\<lambda>k. if k \<in> getKey ` snd ` set es then None else vals b k)"
    "expiring b' = (\<lambda>ts. if ts \<in> fst ` set es then None else expiring b ts)" by blast
  have "clear_loop E running i (e # es) n t d = Some (m, d')"
    using rem(1) del(1) rest(1) by (simp add: e)
  moreover have "frame d d'" by (intro frame_trans [OF rem(2)] frame_trans [OF del(2)] rest(2))
  moreover have "vals b' = (\<lambda>k. if k \<in> getKey ` snd ` set (e # es) then None else vals a k)"
    unfolding rest(5) by (auto simp: b_def e fun_eq_iff)
  moreover have "expiring b' = (\<lambda>ts. if ts \<in> fst ` set (e # es) then None else expiring a ts)"
    unfolding rest(6) by (auto simp: b_def e fun_eq_iff)
  ultimately show ?case using rest(3,4) by blast
qed

lemma clear_steps_ok:
  assumes "inside t 0 a d" and "sound a d" and "meaning (committed d) a"
  shows "\<exists>d' b. clear_steps E running t d = Some (True, d') \<and> frame d d' \<and> inside t 0 b d' \<and> sound b d' \<and>
    cleared (clock E (reads d)) a b"
proof -
  let ?n = "clock E (reads d)" and ?d = "d\<lparr>reads := Suc (reads d)\<rparr>"
  let ?es = "db_Iterate (rocks E) (store d) Expiring (int_to_string ?n)"
  have set: "set ?es = expired ?n a"
    using iterate [of "store d" Expiring "int_to_string ?n"] assms(3)
    by (simp add: expired_def represents_def)
  have "inside t 0 a ?d" "sound a ?d" "frame d ?d"
    using assms(1,2) by (simp_all add: inside_def enc_at_def sound_def frame_def)
  from clear_loop_ok [OF this(1,2), of "Suc (length ?es)" ?es 0] \<open>frame d ?d\<close> obtain m d' b where
    loop: "clear_loop E running (Suc (length ?es)) ?es 0 t ?d = Some (m, d')" "frame d d'" "inside t 0 b d'" "sound b d'"
    "vals b = (\<lambda>k. if k \<in> getKey ` snd ` set ?es then None else vals a k)"
    "expiring b = (\<lambda>ts. if ts \<in> fst ` set ?es then None else expiring a ts)"
    using frame_trans by blast
  have "expiring b = (\<lambda>ts. if ts < int_to_string ?n then None else expiring a ts)"
    unfolding loop(6) set by (auto simp: expired_def fun_eq_iff image_iff)
  then have "cleared ?n a b" using loop(5) set by (simp add: cleared_def)
  moreover have "clear_steps E running t d = Some (True, d')"
    using loop(1) by (simp add: clear_steps_def IteratorHolder_def now_def collect_expired_all)
  ultimately show ?thesis using loop(2-4) by blast
qed

lemma clearExpired_ok:
  assumes inv: "db_inv a d"
  shows "\<exists>d' b n. clearExpired E running d = Some (True, d') \<and> db_inv b d' \<and> reads d \<le> n \<and> cleared (clock E n) a b"
proof -
  let ?d = "d\<lparr>reads := Suc (reads d)\<rparr>"
  have inv0: "db_inv a ?d" using inv by (simp add: db_inv_def enc_at_def txn_at_def)
  let ?P = "\<lambda>b vc. \<exists>n. reads d \<le> n \<and> cleared (clock E n) a b \<and>
    (enableCache (conf E) \<longrightarrow> vc.coherent (vals b) vc) \<and> (\<forall>k v. vals b k = Some v \<longrightarrow> length v + 16 < 2 ^ 31)"
  have "\<exists>d2 b. clear_steps E running t d1 = Some (True, d2) \<and> frame d1 d2 \<and> inside t 0 b d2 \<and> ?P b (valueCache d2)"
    if in1: "inside t 0 a d1" and base1: "committed d1 = committed ?d" and rd: "reads ?d \<le> reads d1"
      and vc1: "valueCache d1 = valueCache ?d" for t d1
  proof -
    have "sound a d1" "meaning (committed d1) a" using inv0 base1 vc1 by (simp_all add: db_inv_def sound_def)
    from clear_steps_ok [OF in1 this] obtain d2 b where
      "clear_steps E running t d1 = Some (True, d2)" "frame d1 d2" "inside t 0 b d2" "sound b d2"
      "cleared (clock E (reads d1)) a b" by blast
    moreover have "reads d \<le> reads d1" using rd by simp
    ultimately show ?thesis unfolding sound_def by blast
  qed
  from with_txn_committed [where P = ?P and f = "clear_steps E running", OF inv0 this] obtain d' b where
    run: "with_txn E (\<lambda>t d. do { (s, d) \<leftarrow> clear_steps E running t d;
        if \<not> s then Some (False, d) else Some (commit E t d) }) ?d = Some (True, d')"
    and after: "meaning (committed d') b" "enc_at 0 d'" "txn_at 0 d'" and P: "?P b (valueCache d')" by blast
  have "db_inv b d'" using after P by (auto simp: db_inv_def)
  moreover have "clearExpired E running d = Some (True, d')" using run by (simp add: clearExpired_def now_def)
  ultimately show ?thesis using P by blast
qed

end


text \<open>The entries of the column \<open>expiring\<close> are made by \<open>set\<close>: stamps of 19 digits and normalised keys.\<close>

definition stamps_ok :: "Store \<Rightarrow> bool" where
  "stamps_ok a \<longleftrightarrow> (\<forall>ts k. expiring a ts = Some k \<longrightarrow> getKey k = k \<and>
     (\<exists>t e t1. ts = expiry_stamp t e @ int_to_string t1 \<and> 0 \<le> t \<and> length (expiry_stamp t e) = 19))"

definition clock_19 :: "(nat \<Rightarrow> int) \<Rightarrow> bool" where
  "clock_19 c \<longleftrightarrow> (\<forall>i. 0 \<le> c i \<and> length (int_to_string (c i)) = 19)"

text \<open>Some \<open>set\<close> of the key asked for an expiry that lies before the time \<open>n\<close>.\<close>

definition expires_before :: "int \<Rightarrow> Store \<Rightarrow> string \<Rightarrow> bool" where
  "expires_before n a k \<longleftrightarrow> (\<exists>t e t1. expiring a (expiry_stamp t e @ int_to_string t1) = Some k \<and>
     0 \<le> t \<and> length (expiry_stamp t e) = 19 \<and> t + 1000000000 * uint e < n)"

lemma stamp_before:
  assumes "0 \<le> t" and "length (expiry_stamp t e) = 19" and "clock_19 c"
  shows "expiry_stamp t e @ x < int_to_string (c i) \<longleftrightarrow> t + 1000000000 * uint e < c i"
  unfolding expiry_stamp_def
  by (rule stamp_order) (use assms in \<open>auto simp: clock_19_def expiry_stamp_def\<close>)

lemma expired_iff:
  assumes "stamps_ok a" and "clock_19 c"
  shows "k \<in> getKey ` snd ` expired (c i) a \<longleftrightarrow> expires_before (c i) a k"
proof
  assume "k \<in> getKey ` snd ` expired (c i) a"
  then obtain ts k' where ts: "expiring a ts = Some k'" "ts < int_to_string (c i)" "k = getKey k'"
    by (auto simp: expired_def)
  with assms(1) obtain t e t1 where "ts = expiry_stamp t e @ int_to_string t1" "0 \<le> t"
    "length (expiry_stamp t e) = 19" "k' = k" unfolding stamps_ok_def by metis
  with ts stamp_before [OF _ _ assms(2)] show "expires_before (c i) a k"
    unfolding expires_before_def by metis
next
  assume "expires_before (c i) a k"
  then obtain t e t1 where e: "expiring a (expiry_stamp t e @ int_to_string t1) = Some k" "0 \<le> t"
    "length (expiry_stamp t e) = 19" "t + 1000000000 * uint e < c i" by (auto simp: expires_before_def)
  then have "(expiry_stamp t e @ int_to_string t1, k) \<in> expired (c i) a"
    using stamp_before [OF e(2,3) assms(2)] by (simp add: expired_def)
  moreover have "getKey k = k" using assms(1) e(1) by (auto simp: stamps_ok_def)
  ultimately show "k \<in> getKey ` snd ` expired (c i) a" by (metis image_eqI snd_conv)
qed

text \<open>
  C19: when it is not told to stop, \<open>clearExpired\<close> removes exactly the keys for which an expiry was
  recorded that lies before the time it reads: every other key keeps its value.  The comparison is
  made by RocksDB on text, byte by byte, against the current time as text; for stamps and times of
  19 digits it is the comparison of the times, whatever second reading of the clock follows the
  stamp in the entry.
\<close>

theorem clearExpired_removes_expired:
  assumes lib: "database E base pending ciph enc_ready enc_used dec_ready dec_used"
    and inv: "database.db_inv E base ciph enc_ready enc_used dec_ready dec_used a d"
    and stamps: "stamps_ok a" and clk: "clock_19 (clock E)"
  shows "\<exists>d' n. clearExpired E running d = Some (True, d') \<and> reads d \<le> n \<and>
    (\<forall>key. key \<noteq> [] \<longrightarrow> map_option fst (Database_get E key d') =
      Some (if expires_before (clock E n) a (getKey key) then None else vals a (getKey key)))"
proof -
  from database.clearExpired_ok [OF lib inv] obtain d' b n where
    run: "clearExpired E running d = Some (True, d')" "reads d \<le> n" and c: "cleared (clock E n) a b"
    and inv': "database.db_inv E base ciph enc_ready enc_used dec_ready dec_used b d'" by blast
  have "map_option fst (Database_get E key d') =
      Some (if expires_before (clock E n) a (getKey key) then None else vals a (getKey key))"
    if "key \<noteq> []" for key
    using database.Database_get_ok [OF lib inv' that] c expired_iff [OF stamps clk, of "getKey key" n]
    by (auto simp: cleared_def)
  with run show ?thesis by blast
qed

theorem clearExpired_removes_expired_witness:
  "\<exists>d'. clearExpired (sample_ext True) running sample_db = Some (True, d') \<and>
     map_option fst (Database_get (sample_ext True) ''/k'' d') = Some None"
proof -
  have "clock_19 (clock (sample_ext True))" unfolding clock_19_def by (auto simp: sample_ext_def min_def intro!: digits_19)
  moreover have "stamps_ok empty_store" by (simp add: stamps_ok_def empty_store_def)
  ultimately show ?thesis
    using clearExpired_removes_expired [OF sample.database_axioms [of True] sample_db_inv]
    by (fastforce simp: empty_store_def expires_before_def)
qed


text \<open>\<open>set\<close> and \<open>remove\<close> keep the entries well-formed.\<close>

lemma stamps_ok_set:
  assumes "stamps_ok a" and "clock_19 c" and "c i + 1000000000 * uint (expirationInSeconds opts) < 2 ^ 63"
  shows "stamps_ok (store_set (getKey key) v opts (c i) t1 a)"
proof (cases "expirationInSeconds opts = 0")
  case True
  with assms(1) show ?thesis
    by (simp add: stamps_ok_def store_set_def store_expire_def store_place_def store_value_def)
next
  case False
  have c: "0 \<le> c i" "length (int_to_string (c i)) = 19" using assms(2) by (simp_all add: clock_19_def)
  have "1000000000000000000 \<le> c i"
  proof (rule ccontr)
    assume "\<not> ?thesis"
    then have "nat (c i) < 10 ^ Suc 17" using c(1) by (simp add: nat_less_iff)
    then have "length (nat_to_string (nat (c i))) \<le> Suc 17" by (rule nat_to_string_short)
    with c show False by (simp add: int_to_string_def)
  qed
  then have "length (expiry_stamp (c i) (expirationInSeconds opts)) = 19"
    unfolding expiry_stamp_def using assms(3) [simplified] uint_ge_0 [of "expirationInSeconds opts"]
    by (intro digits_19) linarith+
  with assms(1) c(1) False show ?thesis
    unfolding stamps_ok_def store_set_def store_expire_def
    by (auto simp: store_place_def store_value_def)
qed

lemma stamps_ok_remove: "stamps_ok a \<Longrightarrow> stamps_ok (store_remove ks b a)"
  by (simp add: stamps_ok_def store_remove_def store_unplace_def store_delete_def)


text \<open>
  C28: the record of an expiry outlives the value it was made for: \<open>set\<close>, \<open>remove\<close> and \<open>move\<close> do not
  delete the entry of the column \<open>expiring\<close> that an earlier \<open>set\<close> of the key has left.  When such an
  entry is due, a value that has just been stored, with whatever later expiration or with none, is
  removed by the next run of \<open>clearExpired\<close>.
\<close>

theorem old_expiry_removes_new_value:
  assumes lib: "database E base pending ciph enc_ready enc_used dec_ready dec_used"
    and inv: "database.db_inv E base ciph enc_ready enc_used dec_ready dec_used a d"
    and clk: "database.clock_ok E" and key: "rd_key data \<noteq> []" and len: "length (rd_value data) + 16 < 2 ^ 31"
    and opts: "\<not> (cacheEntry (rd_options data) \<and> expirationInSeconds (rd_options data) = 0)"
      "\<not> ifNotExists (rd_options data)"
    and old: "expiring a ts = Some (getKey (rd_key data))" "\<forall>n. ts < int_to_string (clock E n)"
  shows "\<exists>d1 d2. Database_set E data d = Some (True, d1) \<and>
    map_option fst (Database_get E (rd_key data) d1) = Some (Some (rd_value data)) \<and>
    clearExpired E running d1 = Some (True, d2) \<and>
    map_option fst (Database_get E (rd_key data) d2) = Some None"
proof -
  let ?ks = "getKey (rd_key data)"
  have ine: "ifNotExists (rd_options data) \<Longrightarrow> vals a ?ks = None" using opts(2) by simp
  from database.Database_set_ok [OF lib inv key opts(1) len clk ine] obtain d1 i j where
    set: "Database_set E data d = Some (True, d1)"
    and inv1: "database.db_inv E base ciph enc_ready enc_used dec_ready dec_used
      (store_set ?ks (rd_value data) (rd_options data) (clock E i) (clock E j) a) d1"
    (is "database.db_inv _ _ _ _ _ _ _ ?b _") by blast
  from database.clearExpired_ok [OF lib inv1] obtain d2 c n where
    clear: "clearExpired E running d1 = Some (True, d2)" "cleared (clock E n) ?b c"
    and inv2: "database.db_inv E base ciph enc_ready enc_used dec_ready dec_used c d2" by blast
  have "expiring ?b ts = Some ?ks"
    using old(1) by (cases "expirationInSeconds (rd_options data) = 0")
      (auto simp: store_set_def store_expire_def store_place_def store_value_def)
  then have "(ts, ?ks) \<in> expired (clock E n) ?b" using old(2) by (simp add: expired_def)
  then have "?ks \<in> getKey ` snd ` expired (clock E n) ?b" by (metis getKey_idem image_eqI snd_conv)
  then have "vals c ?ks = None" using clear(2) by (simp add: cleared_def)
  moreover have "vals ?b ?ks = Some (rd_value data)" by simp
  ultimately show ?thesis
    using set clear(1) database.Database_get_ok [OF lib inv1 key] database.Database_get_ok [OF lib inv2 key] by auto
qed

definition old_stamp :: string where
  "old_stamp = int_to_string 1000000000000000000 @ int_to_string 1000000000000000000"

definition aged_store :: Store where
  "aged_store = empty_store\<lparr>expiring := [old_stamp \<mapsto> ''/k'']\<rparr>"

definition aged_db :: "(mem, nat, string) Database" where
  "aged_db = sample_db\<lparr>store := mem_empty\<lparr>m_base := (\<lambda>_. [])(Expiring := [(old_stamp, ''/k'')])\<rparr>\<rparr>"

lemma aged_db_inv: "sample.db_inv on aged_store aged_db"
  unfolding sample.db_inv_def sample.enc_at_def sample.txn_at_def
  by (auto simp: aged_db_def aged_store_def sample_db_def represents_def empty_store_def mem_empty_def
      mem_table_def encodes_def Pool_new_def pool_holds_def pool_in_use_def pool_limit_def
      sample_pool_config_def vc.coherent_def cache_find_def ExpirationCache_new_def fun_eq_iff)

lemma old_stamp_due: "old_stamp < int_to_string (clock (sample_ext on) n)"
  unfolding old_stamp_def
  by (subst stamp_order) (auto simp: sample_ext_def min_def digits_19)

theorem old_expiry_removes_new_value_witness:
  "\<exists>d1 d2. Database_set (sample_ext True) (RequestData_opts ''/k'' ''new'' (Options_expiration 3600)) aged_db =
       Some (True, d1) \<and>
     clearExpired (sample_ext True) running d1 = Some (True, d2) \<and>
     map_option fst (Database_get (sample_ext True) ''/k'' d2) = Some None"
  using old_expiry_removes_new_value [OF sample.database_axioms [of True] aged_db_inv sample_clock_ok,
      of "RequestData_opts ''/k'' ''new'' (Options_expiration 3600)" old_stamp] old_stamp_due
  by (auto simp: RequestData_opts_def Options_expiration_def Options_default_def getKey_def aged_store_def)

end
