(* ===== verification/Log_Line.thy ===== *)
theory Log_Line
  imports Messages
begin

text \<open>
  A line of the log, \<open>NanoLogLine\<close> of \<open>src/log/NanoLog.cpp\<close>: the arguments of a log statement are
  encoded into a buffer, each behind the number of its type, and turned into text later by the
  thread that writes the file.  The buffer is first an array in the object and then on the heap.
  Writing outside the buffer is undefined, \<^term>\<open>None\<close>.
\<close>

section \<open>Levels\<close>

datatype LogLevel = DEBUG | INFO | WARN | CRIT

fun level_number :: "LogLevel \<Rightarrow> nat" where
  "level_number DEBUG = 0"
| "level_number INFO = 1"
| "level_number WARN = 2"
| "level_number CRIT = 3"

fun level_string :: "LogLevel \<Rightarrow> string" where
  "level_string DEBUG = ''DEBUG''"
| "level_string INFO = ''INFO''"
| "level_string WARN = ''WARN''"
| "level_string CRIT = ''CRIT''"

definition set_log_level :: "LogLevel \<Rightarrow> nat" where
  "set_log_level level = level_number level"

definition is_logged :: "LogLevel \<Rightarrow> nat \<Rightarrow> bool" where
  "is_logged level loglevel \<longleftrightarrow> level_number level \<ge> loglevel"

section \<open>Numbers in memory\<close>

fun le_bytes :: "nat \<Rightarrow> nat \<Rightarrow> bytes" where
  "le_bytes 0 v = []"
| "le_bytes (Suc n) v = char_of (v mod 256) # le_bytes n (v div 256)"

fun of_le_bytes :: "bytes \<Rightarrow> nat" where
  "of_le_bytes [] = 0"
| "of_le_bytes (c # cs) = of_char c + 256 * of_le_bytes cs"

lemma length_le_bytes [simp]: "length (le_bytes n v) = n"
  by (induction n arbitrary: v) auto

lemma of_le_bytes_le_bytes: "v < 256 ^ n \<Longrightarrow> of_le_bytes (le_bytes n v) = v"
proof (induction n arbitrary: v)
  case (Suc n)
  have "v div 256 < 256 ^ n" using Suc.prems by (simp add: less_mult_imp_div_less mult.commute)
  with Suc.IH [of "v div 256"] show ?case by simp
qed simp

section \<open>The buffer\<close>

record NanoLogLine =
  line_bytes :: bytes
  m_buffer_size :: nat
  m_heap_buffer :: bool

definition m_bytes_used :: "NanoLogLine \<Rightarrow> nat" where
  "m_bytes_used l = length (line_bytes l)"

text \<open>\<open>sizeof(m_stack_buffer)\<close>: 256 bytes less two sizes, a pointer and 8 reserved bytes.\<close>

definition stack_buffer_size :: nat where
  "stack_buffer_size = 256 - 2 * 8 - 8 - 8"

definition store_bytes :: "bytes \<Rightarrow> NanoLogLine \<Rightarrow> NanoLogLine option" where
  "store_bytes bs l =
     (if m_bytes_used l + length bs \<le> m_buffer_size l then Some (l\<lparr>line_bytes := line_bytes l @ bs\<rparr>) else None)"

definition resize_buffer_if_needed :: "nat \<Rightarrow> NanoLogLine \<Rightarrow> NanoLogLine" where
  "resize_buffer_if_needed additional_bytes l =
     (let required_size = m_bytes_used l + additional_bytes in
      if required_size \<le> m_buffer_size l then l
      else if \<not> m_heap_buffer l then l\<lparr>m_buffer_size := max 512 required_size, m_heap_buffer := True\<rparr>
      else l\<lparr>m_buffer_size := max (2 * m_buffer_size l) required_size\<rparr>)"

text \<open>\<open>encode\<close> with the number of a type.\<close>

definition encode_typed :: "nat \<Rightarrow> bytes \<Rightarrow> NanoLogLine \<Rightarrow> NanoLogLine option" where
  "encode_typed type_id bs l = do {
     let l = resize_buffer_if_needed (length bs + 1) l;
     l \<leftarrow> store_bytes [char_of type_id] l;
     store_bytes bs l }"

definition nul :: char where
  "nul = CHR 0x00"

definition encode_c_string :: "string \<Rightarrow> nat \<Rightarrow> NanoLogLine \<Rightarrow> NanoLogLine option" where
  "encode_c_string arg length' l =
     (if length' = 0 then Some l
      else store_bytes (char_of (7 :: nat) # take (length' + 1) (arg @ [nul])) (resize_buffer_if_needed (1 + length' + 1) l))"

definition encode_string_view :: "string \<Rightarrow> NanoLogLine \<Rightarrow> NanoLogLine option" where
  "encode_string_view arg l =
     store_bytes (char_of (7 :: nat) # arg @ [nul]) (resize_buffer_if_needed (1 + length arg + 1) l)"

section \<open>Arguments\<close>

text \<open>
  The arguments of a log statement by their C++ types: a string literal is its address, a pointer
  to characters is null or a text up to its terminator, a double is its bits.
\<close>

datatype arg = CharArg char | UInt32 u32 | UInt64 u64 | Int32 u32 | Int64 u64 | DoubleArg u64
  | Literal u64 | CString "string option" | StdString string | StringView string

fun log_arg :: "arg \<Rightarrow> NanoLogLine \<Rightarrow> NanoLogLine option" where
  "log_arg (CharArg c) l = encode_typed 0 [c] l"
| "log_arg (UInt32 w) l = encode_typed 1 (le_bytes 4 (unat w)) l"
| "log_arg (UInt64 w) l = encode_typed 2 (le_bytes 8 (unat w)) l"
| "log_arg (Int32 w) l = encode_typed 3 (le_bytes 4 (unat w)) l"
| "log_arg (Int64 w) l = encode_typed 4 (le_bytes 8 (unat w)) l"
| "log_arg (DoubleArg w) l = encode_typed 5 (le_bytes 8 (unat w)) l"
| "log_arg (Literal p) l = encode_typed 6 (le_bytes 8 (unat p)) l"
| "log_arg (CString None) l = Some l"
| "log_arg (CString (Some s)) l = encode_c_string s (length (takeWhile (\<lambda>c. c \<noteq> nul) s)) l"
| "log_arg (StdString s) l = encode_c_string s (length s) l"
| "log_arg (StringView s) l = encode_string_view s l"

fun log_args :: "arg list \<Rightarrow> NanoLogLine \<Rightarrow> NanoLogLine option" where
  "log_args [] l = Some l"
| "log_args (a # as) l = do { l \<leftarrow> log_arg a l; log_args as l }"

text \<open>The constructor writes time, thread, file, function, line and level.\<close>

definition header_bytes :: "u64 \<Rightarrow> u64 \<Rightarrow> u64 \<Rightarrow> u64 \<Rightarrow> u32 \<Rightarrow> LogLevel \<Rightarrow> bytes" where
  "header_bytes time thread file function line level =
     le_bytes 8 (unat time) @ le_bytes 8 (unat thread) @ le_bytes 8 (unat file) @ le_bytes 8 (unat function) @
     le_bytes 4 (unat line) @ le_bytes 1 (level_number level)"

definition NanoLogLine_new :: "u64 \<Rightarrow> u64 \<Rightarrow> u64 \<Rightarrow> u64 \<Rightarrow> u32 \<Rightarrow> LogLevel \<Rightarrow> NanoLogLine option" where
  "NanoLogLine_new time thread file function line level =
     store_bytes (header_bytes time thread file function line level)
       \<lparr>line_bytes = [], m_buffer_size = stack_buffer_size, m_heap_buffer = False\<rparr>"

section \<open>From the buffer to text\<close>

text \<open>How the stream prints a double and a thread, and the literals in memory, are parameters.\<close>

record LogEnv =
  literal_at :: "u64 \<Rightarrow> string"
  show_double :: "u64 \<Rightarrow> string"
  show_thread :: "u64 \<Rightarrow> string"

text \<open>Reading the first bytes of what is left; \<^term>\<open>None\<close> past the end of the buffer.\<close>

definition fetch :: "nat \<Rightarrow> bytes \<Rightarrow> (nat \<times> bytes) option" where
  "fetch n bs = (if n \<le> length bs then Some (of_le_bytes (take n bs), drop n bs) else None)"

definition decode :: "LogEnv \<Rightarrow> nat \<Rightarrow> bytes \<Rightarrow> (string \<times> bytes) option" where
  "decode L type_id b =
     (if type_id = 0 then (case b of [] \<Rightarrow> None | c # r \<Rightarrow> Some ([c], r))
      else if type_id = 1 then map_option (apfst nat_to_string) (fetch 4 b)
      else if type_id = 2 then map_option (apfst nat_to_string) (fetch 8 b)
      else if type_id = 3 then map_option (apfst (\<lambda>n. int_to_string (sint (word_of_nat n :: u32)))) (fetch 4 b)
      else if type_id = 4 then map_option (apfst (\<lambda>n. int_to_string (sint (word_of_nat n :: u64)))) (fetch 8 b)
      else if type_id = 5 then map_option (apfst (\<lambda>n. show_double L (word_of_nat n))) (fetch 8 b)
      else if type_id = 6 then map_option (apfst (\<lambda>n. literal_at L (word_of_nat n))) (fetch 8 b)
      else if nul \<in> set b then Some (takeWhile (\<lambda>c. c \<noteq> nul) b, tl (dropWhile (\<lambda>c. c \<noteq> nul) b))
      else None)"

lemma decode_shorter: "decode L t b = Some (s, r) \<Longrightarrow> length r \<le> length b"
  by (auto simp: decode_def fetch_def split: if_splits list.splits)
    (metis length_dropWhile_le length_tl diff_le_self le_trans)

text \<open>An unknown type number ends the line.\<close>

function stringify_args :: "LogEnv \<Rightarrow> bytes \<Rightarrow> string option" where
  "stringify_args L [] = Some []"
| "stringify_args L (t # b) =
     (if of_char t \<le> (7 :: nat) then
        case decode L (of_char t) b of
          None \<Rightarrow> None
        | Some (s, r) \<Rightarrow> map_option (\<lambda>u. s @ u) (stringify_args L r)
      else Some [])"
  by pat_completeness auto
termination
  by (relation "measure (\<lambda>(_, b). length b)") (auto dest: decode_shorter)

text \<open>
  The time in the buffer is skipped: the line shows the time at which it is written, here a text.
  A level that is none of the four is shown as \<open>XXXX\<close>.
\<close>

definition level_text :: "nat \<Rightarrow> string" where
  "level_text n = (if n < 4 then level_string ([DEBUG, INFO, WARN, CRIT] ! n) else ''XXXX'')"

definition stringify :: "LogEnv \<Rightarrow> string \<Rightarrow> NanoLogLine \<Rightarrow> string option" where
  "stringify L timestamp l = do {
     (time, b) \<leftarrow> fetch 8 (line_bytes l);
     (thread, b) \<leftarrow> fetch 8 b;
     (file, b) \<leftarrow> fetch 8 b;
     (function, b) \<leftarrow> fetch 8 b;
     (line, b) \<leftarrow> fetch 4 b;
     (level, b) \<leftarrow> fetch 1 b;
     text \<leftarrow> stringify_args L b;
     Some (timestamp @ ''['' @ level_text level @ '']['' @ show_thread L (word_of_nat thread) @ ''][''
       @ literal_at L (word_of_nat file) @ '':'' @ literal_at L (word_of_nat function) @ '':'' @ nat_to_string line
       @ ''] '' @ text @ [char_of (10 :: nat)]) }"

section \<open>The buffer is never overrun\<close>

definition line_ok :: "NanoLogLine \<Rightarrow> bool" where
  "line_ok l \<longleftrightarrow> m_bytes_used l \<le> m_buffer_size l"

lemma resize_simps [simp]: "line_bytes (resize_buffer_if_needed n l) = line_bytes l"
  by (simp add: resize_buffer_if_needed_def Let_def)

lemma resize_fits: "m_bytes_used l + n \<le> m_buffer_size (resize_buffer_if_needed n l)"
  by (simp add: resize_buffer_if_needed_def Let_def)

text \<open>What an argument adds to the buffer.\<close>

fun arg_bytes :: "arg \<Rightarrow> bytes" where
  "arg_bytes (CharArg c) = [char_of (0 :: nat), c]"
| "arg_bytes (UInt32 w) = char_of (1 :: nat) # le_bytes 4 (unat w)"
| "arg_bytes (UInt64 w) = char_of (2 :: nat) # le_bytes 8 (unat w)"
| "arg_bytes (Int32 w) = char_of (3 :: nat) # le_bytes 4 (unat w)"
| "arg_bytes (Int64 w) = char_of (4 :: nat) # le_bytes 8 (unat w)"
| "arg_bytes (DoubleArg w) = char_of (5 :: nat) # le_bytes 8 (unat w)"
| "arg_bytes (Literal p) = char_of (6 :: nat) # le_bytes 8 (unat p)"
| "arg_bytes (CString None) = []"
| "arg_bytes (CString (Some s)) = (let t = takeWhile (\<lambda>c. c \<noteq> nul) s in if t = [] then [] else char_of (7 :: nat) # t @ [nul])"
| "arg_bytes (StdString s) = (if s = [] then [] else char_of (7 :: nat) # s @ [nul])"
| "arg_bytes (StringView s) = char_of (7 :: nat) # s @ [nul]"

lemma encode_typed_ok:
  "\<exists>l'. encode_typed t bs l = Some l' \<and> line_bytes l' = line_bytes l @ char_of t # bs \<and> line_ok l'"
  using resize_fits [of l "length bs + 1"]
  by (simp add: encode_typed_def store_bytes_def m_bytes_used_def line_ok_def Let_def)

lemma store_resized_ok:
  "\<exists>l'. store_bytes bs (resize_buffer_if_needed (length bs) l) = Some l' \<and> line_bytes l' = line_bytes l @ bs \<and> line_ok l'"
  using resize_fits [of l "length bs"] by (simp add: store_bytes_def m_bytes_used_def line_ok_def)

lemma take_c_string: "take (Suc (length (takeWhile (\<lambda>c. c \<noteq> nul) s))) (s @ [nul]) = takeWhile (\<lambda>c. c \<noteq> nul) s @ [nul]"
  by (induction s) auto

lemma encode_c_string_ok:
  assumes "line_ok l"
  shows "\<exists>l'. encode_c_string s (length (takeWhile (\<lambda>c. c \<noteq> nul) s)) l = Some l' \<and>
    line_bytes l' = line_bytes l @ arg_bytes (CString (Some s)) \<and> line_ok l'"
proof (cases "takeWhile (\<lambda>c. c \<noteq> nul) s = []")
  case False
  let ?t = "takeWhile (\<lambda>c. c \<noteq> nul) s"
  have "encode_c_string s (length ?t) l = store_bytes (char_of (7 :: nat) # ?t @ [nul]) (resize_buffer_if_needed (Suc (Suc (length ?t))) l)"
    using False take_c_string [of s] by (simp add: encode_c_string_def del: take_append)
  with store_resized_ok [of "char_of (7 :: nat) # ?t @ [nul]" l] False show ?thesis by (simp add: Let_def)
qed (use assms in \<open>simp add: encode_c_string_def\<close>)

lemma log_arg_ok:
  assumes "line_ok l"
  shows "\<exists>l'. log_arg a l = Some l' \<and> line_bytes l' = line_bytes l @ arg_bytes a \<and> line_ok l'"
proof -
  have s: "\<exists>l'. store_bytes (char_of (7 :: nat) # t @ [nul]) (resize_buffer_if_needed (Suc (Suc (length t))) l) = Some l' \<and>
      line_bytes l' = line_bytes l @ char_of (7 :: nat) # t @ [nul] \<and> line_ok l'" for t
    using store_resized_ok [of "char_of (7 :: nat) # t @ [nul]" l] by simp
  show ?thesis
    using assms s encode_typed_ok encode_c_string_ok [OF assms]
    by (cases a rule: arg_bytes.cases)
      (auto simp: encode_c_string_def [of _ "length _"] encode_string_view_def simp del: arg_bytes.simps(9) split: if_splits)
qed

lemma log_args_ok:
  "line_ok l \<Longrightarrow> \<exists>l'. log_args as l = Some l' \<and> line_bytes l' = line_bytes l @ concat (map arg_bytes as) \<and> line_ok l'"
proof (induction as arbitrary: l)
  case (Cons a as)
  from log_arg_ok [OF Cons.prems, of a] obtain l1 where
    "log_arg a l = Some l1" "line_bytes l1 = line_bytes l @ arg_bytes a" "line_ok l1" by blast
  with Cons.IH [of l1] show ?case by auto
qed simp

lemma length_header [simp]: "length (header_bytes t th f fn ln lv) = 37"
  by (simp add: header_bytes_def)

lemma NanoLogLine_new_ok:
  "\<exists>l. NanoLogLine_new t th f fn ln lv = Some l \<and> line_bytes l = header_bytes t th f fn ln lv \<and> line_ok l"
  by (simp add: NanoLogLine_new_def store_bytes_def stack_buffer_size_def m_bytes_used_def line_ok_def)

section \<open>What is read is what was logged\<close>

text \<open>What an argument is shown as.\<close>

fun show_arg :: "LogEnv \<Rightarrow> arg \<Rightarrow> string" where
  "show_arg L (CharArg c) = [c]"
| "show_arg L (UInt32 w) = nat_to_string (unat w)"
| "show_arg L (UInt64 w) = nat_to_string (unat w)"
| "show_arg L (Int32 w) = int_to_string (sint w)"
| "show_arg L (Int64 w) = int_to_string (sint w)"
| "show_arg L (DoubleArg w) = show_double L w"
| "show_arg L (Literal p) = literal_at L p"
| "show_arg L (CString None) = []"
| "show_arg L (CString (Some s)) = takeWhile (\<lambda>c. c \<noteq> nul) s"
| "show_arg L (StdString s) = s"
| "show_arg L (StringView s) = s"

fun no_nul :: "arg \<Rightarrow> bool" where
  "no_nul (StdString s) = (nul \<notin> set s)"
| "no_nul (StringView s) = (nul \<notin> set s)"
| "no_nul a = True"

lemma unat_bounds: "unat (w :: u32) < 256 ^ 4" "unat (v :: u64) < 256 ^ 8"
  using unsigned_less [of w, where 'a = nat] unsigned_less [of v, where 'a = nat] by simp_all

lemma fetch_le:
  "v < 256 ^ n \<Longrightarrow> fetch n (le_bytes n v @ r) = Some (v, r)"
  by (simp add: fetch_def of_le_bytes_le_bytes)

lemmas fetch_words = fetch_le [OF unat_bounds(1)] fetch_le [OF unat_bounds(2)]

lemma decode_text:
  assumes "nul \<notin> set s"
  shows "decode L 7 (s @ nul # r) = Some (s, r)"
proof -
  have "takeWhile (\<lambda>c. c \<noteq> nul) (s @ nul # r) = s" "dropWhile (\<lambda>c. c \<noteq> nul) (s @ nul # r) = nul # r"
    using assms by (simp_all add: takeWhile_append dropWhile_append)
  then show ?thesis by (simp add: decode_def)
qed

lemma stringify_arg:
  assumes "no_nul a"
  shows "stringify_args L (arg_bytes a @ r) = map_option (\<lambda>u. show_arg L a @ u) (stringify_args L r)"
proof -
  have t: "stringify_args L (char_of (7 :: nat) # s @ nul # r) = map_option (\<lambda>u. s @ u) (stringify_args L r)"
    if "nul \<notin> set s" for s
    using decode_text [OF that, of L r] by simp
  have p: "map_option ((@) []) x = x" "map_option ((@) [c]) x = map_option ((#) c) x"
    "map_option (\<lambda>u. u) x = x" for x and c :: char
    by (cases x; simp)+
  have nn: "nul \<notin> set (takeWhile (\<lambda>c. c \<noteq> nul) s)" for s by (auto dest: set_takeWhileD)
  show ?thesis
    using assms t t [OF nn]
    by (cases a rule: arg_bytes.cases)
      (auto simp: decode_def fetch_words Let_def p)
qed

lemma stringify_all:
  "\<forall>a \<in> set as. no_nul a \<Longrightarrow> stringify_args L (concat (map arg_bytes as)) = Some (concat (map (show_arg L) as))"
proof (induction as)
  case (Cons a as)
  then show ?case using stringify_arg [of a L "concat (map arg_bytes as)"] by simp
qed simp

lemma fetch_level: "fetch 1 (le_bytes 1 (level_number lv) @ r) = Some (level_number lv, r)"
  using fetch_le [of "level_number lv" 1] by (cases lv) simp_all

lemma level_text_number: "level_text (level_number lv) = level_string lv"
  by (cases lv) (simp_all add: level_text_def)

lemma stringify_bytes:
  assumes "line_bytes l = header_bytes time thread file function line level @ concat (map arg_bytes as)" "\<forall>a \<in> set as. no_nul a"
  shows "stringify L timestamp l = Some (timestamp @ ''['' @ level_string level @ '']['' @ show_thread L thread @ ''][''
       @ literal_at L file @ '':'' @ literal_at L function @ '':'' @ nat_to_string (unat line)
       @ ''] '' @ concat (map (show_arg L) as) @ [char_of (10 :: nat)])"
  by (simp add: stringify_def assms(1) header_bytes_def fetch_words fetch_level [unfolded One_nat_def] stringify_all [OF assms(2)]
      level_text_number del: le_bytes.simps)

text \<open>
  C36: a log statement is written as it was made: whatever the number and the sizes of its arguments,
  encoding them never writes outside the buffer of the line, and the line is later shown with its
  level, thread, file, function, line number and all the arguments in order, provided that no
  string among them contains a null character.
\<close>

theorem log_line_round_trip:
  assumes "\<forall>a \<in> set as. no_nul a"
  shows "\<exists>l l'. NanoLogLine_new time thread file function line level = Some l \<and> log_args as l = Some l' \<and>
    m_bytes_used l' \<le> m_buffer_size l' \<and>
    stringify L timestamp l' = Some (timestamp @ ''['' @ level_string level @ '']['' @ show_thread L thread @ ''][''
       @ literal_at L file @ '':'' @ literal_at L function @ '':'' @ nat_to_string (unat line)
       @ ''] '' @ concat (map (show_arg L) as) @ [char_of (10 :: nat)])"
proof -
  from NanoLogLine_new_ok obtain l where
    l: "NanoLogLine_new time thread file function line level = Some l"
    "line_bytes l = header_bytes time thread file function line level" "line_ok l" by blast
  from log_args_ok [OF l(3), of as] obtain l' where
    l': "log_args as l = Some l'" "line_bytes l' = header_bytes time thread file function line level @ concat (map arg_bytes as)"
    "line_ok l'" using l(2) by auto
  show ?thesis using l(1) l'(1,3) stringify_bytes [OF l'(2) assms] by (auto simp: line_ok_def)
qed

definition sample_log_env :: LogEnv where
  "sample_log_env = \<lparr>literal_at = (\<lambda>_. ''x''), show_double = (\<lambda>_. ''0''), show_thread = (\<lambda>_. ''1'')\<rparr>"

theorem log_line_round_trip_witness:
  "\<exists>l l'. NanoLogLine_new 0 1 2 3 4 WARN = Some l \<and> log_args [Literal 5, StdString ''abc'', CharArg CHR ''!''] l = Some l' \<and>
     stringify sample_log_env ''[t]'' l' = Some (''[t][WARN][1][x:x:4] xabc!'' @ [char_of (10 :: nat)])"
proof -
  have "nat_to_string (unat (4 :: u32)) = ''4''" by code_simp
  then show ?thesis
    using log_line_round_trip [of "[Literal 5, StdString ''abc'', CharArg CHR ''!'']" 0 1 2 3 4 WARN sample_log_env "''[t]''"]
    by (auto simp: nul_def sample_log_env_def)
qed

text \<open>A null character inside a string ends the text there, and the rest is read as type numbers.\<close>

lemma nul_in_string_loses_arguments:
  "stringify_args sample_log_env (arg_bytes (StdString (''a'' @ [nul] @ ''b'')) @ arg_bytes (CharArg CHR ''!'')) = Some ''a''"
  by (simp add: decode_def nul_def)

end
