(* ===== verification/Log_Queue.thy ===== *)
theory Log_Queue
  imports Prelude
begin

text \<open>
  The queue between the threads that log and the thread that writes the file, \<open>Buffer\<close> and
  \<open>QueueBuffer\<close> of \<open>src/log/NanoLog.cpp\<close>.  Any number of threads push, one thread pops.  A push is
  a sequence of atomic actions on shared memory; the actions of all the threads are interleaved by
  a schedule.  A critical section of the spin lock is one action.  A buffer is named by the number
  of its allocation, and freeing it marks it: every later access is undefined, \<^term>\<open>None\<close>.  The number
  \<open>N\<close> of slots of a buffer, \<open>Buffer::size\<close>, is an argument.
\<close>

section \<open>State\<close>

definition Buffer_size :: nat where
  "Buffer_size = 32768"

text \<open>\<open>m_write_count\<close> is the last cell of \<open>m_write_state\<close>.  A line carries the thread that made it.\<close>

record 'l Buffer =
  m_buffer :: "nat \<Rightarrow> (nat \<times> 'l) option"
  m_write_state :: "nat \<Rightarrow> bool"
  m_write_count :: nat
  live :: bool

definition Buffer_new :: "'l Buffer" where
  "Buffer_new = \<lparr>m_buffer = (\<lambda>_. None), m_write_state = (\<lambda>_. False), m_write_count = 0, live = True\<rparr>"

text \<open>Where a thread is in \<open>push\<close>, and where the reading thread is in \<open>try_pop\<close>.\<close>

datatype 'l pusher = Idle | Reserve 'l | Spin 'l | Slot 'l nat | Have 'l nat nat | Built 'l nat nat
  | Published nat | Setup | Enqueue nat

datatype popper = Start | Check | Free

record 'l QueueBuffer =
  heap :: "'l Buffer list"
  m_buffers :: "nat list"
  m_current_write_buffer :: nat
  m_current_read_buffer :: "nat option"
  m_write_index :: nat
  m_read_index :: nat
  threads :: "'l pusher list"
  reader :: popper
  pushed :: "(nat \<times> 'l) list"
  popped :: "(nat \<times> 'l) list"

definition QueueBuffer_new :: "nat \<Rightarrow> 'l QueueBuffer" where
  "QueueBuffer_new n = \<lparr>heap = [Buffer_new], m_buffers = [0], m_current_write_buffer = 0, m_current_read_buffer = None,
     m_write_index = 0, m_read_index = 0, threads = replicate n Idle, reader = Start, pushed = [], popped = []\<rparr>"

section \<open>The actions of a push\<close>

definition at_pc :: "nat \<Rightarrow> 'l pusher \<Rightarrow> 'l QueueBuffer \<Rightarrow> 'l QueueBuffer" where
  "at_pc t p s = s\<lparr>threads := (threads s)[t := p]\<rparr>"

definition on_buffer :: "nat \<Rightarrow> ('l Buffer \<Rightarrow> 'l Buffer) \<Rightarrow> 'l QueueBuffer \<Rightarrow> 'l QueueBuffer option" where
  "on_buffer b f s =
     (if b < length (heap s) \<and> live (heap s ! b) then Some (s\<lparr>heap := (heap s)[b := f (heap s ! b)]\<rparr>) else None)"

definition reserve :: "nat \<Rightarrow> nat \<Rightarrow> 'l \<Rightarrow> 'l QueueBuffer \<Rightarrow> 'l QueueBuffer" where
  "reserve N t l s =
     (let write_index = m_write_index s in
      at_pc t (if write_index < N then Slot l write_index else Spin l) (s\<lparr>m_write_index := Suc write_index\<rparr>))"

definition spin :: "nat \<Rightarrow> nat \<Rightarrow> 'l \<Rightarrow> 'l QueueBuffer \<Rightarrow> 'l QueueBuffer" where
  "spin N t l s = (if m_write_index s \<ge> N then s else at_pc t (Reserve l) s)"

definition Buffer_construct :: "nat \<Rightarrow> 'l \<Rightarrow> nat \<Rightarrow> 'l Buffer \<Rightarrow> 'l Buffer" where
  "Buffer_construct t l write_index B = B\<lparr>m_buffer := (m_buffer B)(write_index := Some (t, l))\<rparr>"

definition Buffer_publish :: "nat \<Rightarrow> 'l Buffer \<Rightarrow> 'l Buffer" where
  "Buffer_publish write_index B = B\<lparr>m_write_state := (m_write_state B)(write_index := True)\<rparr>"

definition Buffer_count :: "'l Buffer \<Rightarrow> 'l Buffer" where
  "Buffer_count B = B\<lparr>m_write_count := Suc (m_write_count B)\<rparr>"

text \<open>\<open>setup_next_write_buffer\<close>: a new buffer becomes the current one, then it is put into the queue.\<close>

definition setup_alloc :: "nat \<Rightarrow> 'l QueueBuffer \<Rightarrow> 'l QueueBuffer" where
  "setup_alloc t s = (let next_write_buffer = length (heap s) in
     at_pc t (Enqueue next_write_buffer)
       (s\<lparr>heap := heap s @ [Buffer_new], m_current_write_buffer := next_write_buffer\<rparr>))"

definition setup_enqueue :: "nat \<Rightarrow> nat \<Rightarrow> 'l QueueBuffer \<Rightarrow> 'l QueueBuffer" where
  "setup_enqueue t a s = at_pc t Idle (s\<lparr>m_buffers := m_buffers s @ [a], m_write_index := 0\<rparr>)"

fun push_step :: "nat \<Rightarrow> nat \<Rightarrow> 'l pusher \<Rightarrow> 'l QueueBuffer \<Rightarrow> 'l QueueBuffer option" where
  "push_step N t Idle s = Some s"
| "push_step N t (Reserve l) s = Some (reserve N t l s)"
| "push_step N t (Spin l) s = Some (spin N t l s)"
| "push_step N t (Slot l i) s = Some (at_pc t (Have l i (m_current_write_buffer s)) s)"
| "push_step N t (Have l i b) s = map_option (at_pc t (Built l i b)) (on_buffer b (Buffer_construct t l i) s)"
| "push_step N t (Built l i b) s = map_option (at_pc t (Published b)) (on_buffer b (Buffer_publish i) s)"
| "push_step N t (Published b) s = map_option
     (\<lambda>s'. at_pc t (if m_write_count (heap s ! b) + 1 = N then Setup else Idle) s') (on_buffer b Buffer_count s)"
| "push_step N t Setup s = Some (setup_alloc t s)"
| "push_step N t (Enqueue a) s = Some (setup_enqueue t a s)"

section \<open>The actions of \<open>try_pop\<close>\<close>

definition pop_start :: "'l QueueBuffer \<Rightarrow> 'l QueueBuffer" where
  "pop_start s = (let r = (case m_current_read_buffer s of
        None \<Rightarrow> (if m_buffers s = [] then None else Some (hd (m_buffers s)))
      | Some b \<Rightarrow> Some b) in
     s\<lparr>m_current_read_buffer := r, reader := (if r = None then Start else Check)\<rparr>)"

definition pop_check :: "nat \<Rightarrow> 'l QueueBuffer \<Rightarrow> 'l QueueBuffer option" where
  "pop_check N s = (case m_current_read_buffer s of
     None \<Rightarrow> None
   | Some b \<Rightarrow>
       if \<not> (b < length (heap s) \<and> live (heap s ! b)) then None
       else if m_write_state (heap s ! b) (m_read_index s) then
         (case m_buffer (heap s ! b) (m_read_index s) of
            None \<Rightarrow> None
          | Some logline \<Rightarrow>
              let s = s\<lparr>popped := popped s @ [logline], m_read_index := Suc (m_read_index s)\<rparr> in
              Some (if m_read_index s = N then s\<lparr>m_read_index := 0, m_current_read_buffer := None, reader := Free\<rparr>
                    else s\<lparr>reader := Start\<rparr>))
       else Some (s\<lparr>reader := Start\<rparr>))"

definition pop_free :: "'l QueueBuffer \<Rightarrow> 'l QueueBuffer option" where
  "pop_free s = (case m_buffers s of
     [] \<Rightarrow> None
   | b # bs \<Rightarrow> on_buffer b (\<lambda>B. B\<lparr>live := False\<rparr>) (s\<lparr>m_buffers := bs, reader := Start\<rparr>))"

fun pop_step :: "nat \<Rightarrow> popper \<Rightarrow> 'l QueueBuffer \<Rightarrow> 'l QueueBuffer option" where
  "pop_step N Start s = Some (pop_start s)"
| "pop_step N Check s = pop_check N s"
| "pop_step N Free s = pop_free s"

section \<open>Schedules\<close>

datatype 'l event = Call nat 'l | Push nat | Pop

fun step :: "nat \<Rightarrow> 'l event \<Rightarrow> 'l QueueBuffer \<Rightarrow> 'l QueueBuffer option" where
  "step N (Call t l) s =
     (if t < length (threads s) \<and> threads s ! t = Idle
      then Some (at_pc t (Reserve l) (s\<lparr>pushed := pushed s @ [(t, l)]\<rparr>)) else Some s)"
| "step N (Push t) s = (if t < length (threads s) then push_step N t (threads s ! t) s else Some s)"
| "step N Pop s = pop_step N (reader s) s"

fun run :: "nat \<Rightarrow> 'l event list \<Rightarrow> 'l QueueBuffer \<Rightarrow> 'l QueueBuffer option" where
  "run N [] s = Some s"
| "run N (e # es) s = Option.bind (step N e s) (run N es)"

text \<open>A call of \<open>try_pop\<close> by the reading thread alone, and the loop of \<open>NanoLogger::pop\<close> after the shutdown.\<close>

definition try_pop :: "nat \<Rightarrow> 'l QueueBuffer \<Rightarrow> (bool \<times> 'l QueueBuffer) option" where
  "try_pop N s = do {
     let s1 = pop_start s;
     if reader s1 = Start then Some (False, s1)
     else do {
       s2 \<leftarrow> pop_check N s1;
       if length (popped s2) = length (popped s1) then Some (False, s2)
       else if reader s2 = Free then do { s3 \<leftarrow> pop_free s2; Some (True, s3) }
       else Some (True, s2) } }"

partial_function (option) drain :: "nat \<Rightarrow> 'l QueueBuffer \<Rightarrow> 'l QueueBuffer option" where
  [code]: "drain N s = Option.bind (try_pop N s) (\<lambda>(b, s'). if b then drain N s' else Some s')"


section \<open>The invariant of the pushing threads\<close>

fun holds :: "'l pusher \<Rightarrow> nat option" where
  "holds (Slot l i) = Some i"
| "holds (Have l i b) = Some i"
| "holds (Built l i b) = Some i"
| "holds p = None"

fun line_under_way :: "'l pusher \<Rightarrow> 'l list" where
  "line_under_way (Reserve l) = [l]"
| "line_under_way (Spin l) = [l]"
| "line_under_way (Slot l i) = [l]"
| "line_under_way (Have l i b) = [l]"
| "line_under_way (Built l i b) = [l]"
| "line_under_way p = []"

fun is_spin :: "'l pusher \<Rightarrow> bool" where
  "is_spin (Spin l) = True"
| "is_spin p = False"

fun is_published :: "'l pusher \<Rightarrow> bool" where
  "is_published (Published b) = True"
| "is_published p = False"

fun is_enqueue :: "'l pusher \<Rightarrow> bool" where
  "is_enqueue (Enqueue a) = True"
| "is_enqueue p = False"

fun in_setup :: "'l pusher \<Rightarrow> bool" where
  "in_setup Setup = True"
| "in_setup (Enqueue a) = True"
| "in_setup p = False"

fun names :: "'l pusher \<Rightarrow> nat option" where
  "names (Have l i b) = Some b"
| "names (Built l i b) = Some b"
| "names (Published b) = Some b"
| "names (Enqueue a) = Some a"
| "names p = None"

text \<open>
  How many slots of the current buffer have been given out: none from the allocation of a new
  buffer until the index is reset.
\<close>

definition given :: "'l pusher list \<Rightarrow> nat \<Rightarrow> nat" where
  "given T w = (if \<exists>t < length T. is_enqueue (T ! t) then 0 else w)"

text \<open>
  The threads \<open>T\<close>, the write index and the current buffer: every slot given out is published or held
  by exactly one thread, and only one thread sets up the next buffer, when the current one is full.
\<close>

definition holders :: "'l pusher list \<Rightarrow> nat \<Rightarrow> nat set" where
  "holders T i = {t. t < length T \<and> holds (T ! t) = Some i}"

definition slot_ok :: "nat \<Rightarrow> nat set \<Rightarrow> bool \<Rightarrow> nat \<Rightarrow> nat \<Rightarrow> bool" where
  "slot_ok N H published g i \<longleftrightarrow>
     (if i < N \<and> i < g then if published then H = {} else \<exists>t. H = {t} else \<not> published \<and> H = {})"

definition slots_ok :: "nat \<Rightarrow> 'l pusher list \<Rightarrow> nat \<Rightarrow> (nat \<Rightarrow> bool) \<Rightarrow> bool" where
  "slots_ok N T w st \<longleftrightarrow> (\<forall>i. slot_ok N (holders T i) (st i) (given T w) i)"

definition setup_ok :: "nat \<Rightarrow> 'l pusher list \<Rightarrow> nat \<Rightarrow> (nat \<Rightarrow> bool) \<Rightarrow> nat \<Rightarrow> bool" where
  "setup_ok N T w st c \<longleftrightarrow>
     (\<forall>t < length T. \<forall>t' < length T. in_setup (T ! t) \<longrightarrow> in_setup (T ! t') \<longrightarrow> t = t') \<and>
     ((\<exists>t < length T. is_enqueue (T ! t)) \<longrightarrow> N \<le> w) \<and>
     c + length (filter is_published T) = card {i. st i} \<and>
     (c = N \<longleftrightarrow> (\<exists>t < length T. T ! t = Setup)) \<and>
     w \<le> N + length (filter is_spin T)"

definition items_ok :: "'l pusher list \<Rightarrow> (nat \<Rightarrow> bool) \<Rightarrow> (nat \<Rightarrow> (nat \<times> 'l) option) \<Rightarrow> bool" where
  "items_ok T st it \<longleftrightarrow>
     (\<forall>t < length T. \<forall>l i b. T ! t = Built l i b \<longrightarrow> it i = Some (t, l)) \<and>
     (\<forall>i. st i \<longrightarrow> it i \<noteq> None) \<and>
     (\<forall>t < length T. \<forall>i j l. holds (T ! t) = Some i \<longrightarrow> st j \<longrightarrow> it j = Some (t, l) \<longrightarrow> j < i)"

lemma filter_update:
  "t < length T \<Longrightarrow> length (filter P (T[t := p])) + (if P (T ! t) then 1 else 0) =
     length (filter P T) + (if P p then 1 else 0)"
proof (induction T arbitrary: t)
  case (Cons a T)
  then show ?case by (cases t) auto
qed simp

lemma given_update:
  assumes "t < length T" "is_enqueue p \<longleftrightarrow> is_enqueue (T ! t)"
  shows "given (T[t := p]) w = given T w"
  using assms by (auto simp: given_def nth_list_update)


text \<open>A thread moves on without taking or giving back a slot.\<close>

lemma holders_update:
  "t < length T \<Longrightarrow> holders (T[t := p]) i = (holders T i - {t}) \<union> (if holds p = Some i then {t} else {})"
  by (auto simp: holders_def nth_list_update split: if_splits)

lemma holders_iff: "t < length T \<Longrightarrow> t \<in> holders T i \<longleftrightarrow> holds (T ! t) = Some i"
  by (simp add: holders_def)

lemma slots_ok_update:
  assumes "slots_ok N T w st" "t < length T" "is_enqueue p \<longleftrightarrow> is_enqueue (T ! t)" "holds p = holds (T ! t)"
  shows "slots_ok N (T[t := p]) w st"
proof -
  have "holders (T[t := p]) i = holders T i" for i
    using assms(2,4) by (auto simp: holders_def nth_list_update split: if_splits)
  with assms(1) show ?thesis by (simp add: slots_ok_def given_update [OF assms(2,3)])
qed

lemma held_slot:
  assumes "slots_ok N T w st" "t < length T" "holds (T ! t) = Some i"
  shows "holders T i = {t}" "i < N" "i < given T w" "\<not> st i"
proof -
  have "t \<in> holders T i" using assms(2,3) by (simp add: holders_iff)
  with assms(1) show "holders T i = {t}" "i < N" "i < given T w" "\<not> st i"
    by (auto simp: slots_ok_def slot_ok_def dest!: spec [of _ i] split: if_splits)
qed

lemma setup_ok_update:
  assumes "setup_ok N T w st c" "t < length T" "\<not> in_setup p" "\<not> in_setup (T ! t)"
    "is_published p \<longleftrightarrow> is_published (T ! t)" "is_spin p \<or> \<not> is_spin (T ! t)"
  shows "setup_ok N (T[t := p]) w st c"
proof -
  have e: "\<not> is_enqueue p" "\<not> is_enqueue (T ! t)" "p \<noteq> Setup" "T ! t \<noteq> Setup"
    using assms(3,4) by (auto elim: is_enqueue.elims)
  have u: "in_setup (T[t := p] ! u) = in_setup (T ! u)" "is_enqueue (T[t := p] ! u) = is_enqueue (T ! u)"
    "(T[t := p] ! u = Setup) = (T ! u = Setup)" if "u < length T" for u
    using that assms(2-4) e by (auto simp: nth_list_update)
  have "length (filter is_published (T[t := p])) = length (filter is_published T)"
    "length (filter is_spin T) \<le> length (filter is_spin (T[t := p]))"
    using assms(5,6) filter_update [OF assms(2), of is_published p] filter_update [OF assms(2), of is_spin p]
    by (auto split: if_splits)
  with assms(1) show ?thesis by (simp add: setup_ok_def u cong: conj_cong)
qed

lemma items_ok_update:
  assumes "items_ok T st it" "t < length T" "\<And>l i b. p = Built l i b \<Longrightarrow> it i = Some (t, l)"
    "\<And>i j l. holds p = Some i \<Longrightarrow> st j \<Longrightarrow> it j = Some (t, l) \<Longrightarrow> j < i"
  shows "items_ok (T[t := p]) st it"
  using assms by (auto simp: items_ok_def nth_list_update)

text \<open>The first actions: a slot is given out, or the buffer has none left.\<close>

lemma reserve_slot_ok:
  assumes "slots_ok N T w st" "setup_ok N T w st c" "t < length T" "T ! t = Reserve l" "w < N"
  shows "slots_ok N (T[t := Slot l w]) (Suc w) st" "setup_ok N (T[t := Slot l w]) (Suc w) st c" 
proof -
  have e: "\<not> (\<exists>u < length T. is_enqueue (T ! u))" using assms(2,5) by (auto simp: setup_ok_def)
  then have g: "given T w = w" "given (T[t := Slot l w]) (Suc w) = Suc w"
    using assms(3) by (auto simp: given_def nth_list_update split: if_splits)
  have h: "holds (T ! t) = None" using assms(4) by simp
  have u: "t \<notin> holders T i" for i using assms(3) h by (simp add: holders_iff)
  have "slot_ok N (holders (T[t := Slot l w]) i) (st i) (Suc w) i" if "slot_ok N (holders T i) (st i) w i" for i
    using that u [of i] assms(3,5) by (cases "i = w") (auto simp: slot_ok_def holders_update less_Suc_eq split: if_splits)
  then show "slots_ok N (T[t := Slot l w]) (Suc w) st"
    using assms(1) unfolding slots_ok_def g by blast
  have "setup_ok N (T[t := Slot l w]) w st c" using assms by (intro setup_ok_update) auto
  then show "setup_ok N (T[t := Slot l w]) (Suc w) st c" using assms(5) by (auto simp: setup_ok_def)
qed

lemma reserve_spin_ok:
  assumes "slots_ok N T w st" "setup_ok N T w st c" "t < length T" "T ! t = Reserve l" "w \<ge> N"
  shows "slots_ok N (T[t := Spin l]) (Suc w) st" "setup_ok N (T[t := Spin l]) (Suc w) st c"
proof -
  have s: "slots_ok N (T[t := Spin l]) w st" "setup_ok N (T[t := Spin l]) w st c"
    using assms by (auto intro!: slots_ok_update setup_ok_update)
  have "slot_ok N H b (given (T[t := Spin l]) (Suc w)) i" if "slot_ok N H b (given (T[t := Spin l]) w) i" for H b i
    using that assms(5) by (auto simp: slot_ok_def given_def split: if_splits)
  with s(1) show "slots_ok N (T[t := Spin l]) (Suc w) st" by (simp add: slots_ok_def)
  have "Suc w \<le> N + length (filter is_spin (T[t := Spin l]))"
    using assms(2,4) filter_update [OF assms(3), of is_spin "Spin l"] by (simp add: setup_ok_def)
  with s(2) assms(5) show "setup_ok N (T[t := Spin l]) (Suc w) st c" by (simp add: setup_ok_def)
qed

lemma spin_ok:
  assumes "slots_ok N T w st" "setup_ok N T w st c" "t < length T" "T ! t = Spin l" "w < N"
  shows "slots_ok N (T[t := Reserve l]) w st" "setup_ok N (T[t := Reserve l]) w st c"
proof -
  show "slots_ok N (T[t := Reserve l]) w st" using assms by (auto intro!: slots_ok_update)
  have e: "\<not> (\<exists>u < length T. is_enqueue (T ! u))" using assms(2,5) by (auto simp: setup_ok_def)
  have u: "in_setup (T[t := Reserve l] ! u) = in_setup (T ! u)" "is_enqueue (T[t := Reserve l] ! u) = is_enqueue (T ! u)"
    "(T[t := Reserve l] ! u = Setup) = (T ! u = Setup)" if "u < length T" for u
    using that assms(3,4) by (auto simp: nth_list_update)
  have "length (filter is_published (T[t := Reserve l])) = length (filter is_published T)"
    using assms(4) filter_update [OF assms(3), of is_published "Reserve l"] by simp
  with assms(2,5) show "setup_ok N (T[t := Reserve l]) w st c" by (simp add: setup_ok_def u cong: conj_cong)
qed

lemma published_slot:
  assumes "slots_ok N T w st" "st i"
  shows "i < N" "i < given T w" "holders T i = {}"
  using assms by (auto simp: slots_ok_def slot_ok_def dest!: spec [of _ i] split: if_splits)

lemma published_finite: "slots_ok N T w st \<Longrightarrow> {i. st i} \<subseteq> {..<N}"
  by (auto dest: published_slot)

lemma published_card:
  assumes "slots_ok N T w st"
  shows "finite {i. st i}" "card {i. st i} \<le> N"
  using card_mono [OF _ published_finite [OF assms]] finite_subset [OF published_finite [OF assms]] by auto

lemma publish_ok:
  assumes "slots_ok N T w st" "setup_ok N T w st c" "items_ok T st it" "t < length T" "T ! t = Built l i b"
  shows "slots_ok N (T[t := Published b]) w (st(i := True))" "setup_ok N (T[t := Published b]) w (st(i := True)) c"
    "items_ok (T[t := Published b]) (st(i := True)) it"
proof -
  have h: "holders T i = {t}" "i < N" "i < given T w" "\<not> st i" using held_slot [OF assms(1,4)] assms(5) by auto
  have g: "given (T[t := Published b]) w = given T w" using assms(4,5) by (intro given_update) auto
  have "slot_ok N (holders (T[t := Published b]) j) ((st(i := True)) j) (given T w) j"
    if "slot_ok N (holders T j) (st j) (given T w) j" for j
    using that h assms(4,5) holders_iff [OF assms(4), of j]
    by (cases "j = i") (auto simp: slot_ok_def holders_update split: if_splits)
  then show "slots_ok N (T[t := Published b]) w (st(i := True))" using assms(1) by (simp add: slots_ok_def g)
  have u: "in_setup (T[t := Published b] ! u) = in_setup (T ! u)" "is_enqueue (T[t := Published b] ! u) = is_enqueue (T ! u)"
    "(T[t := Published b] ! u = Setup) = (T ! u = Setup)" if "u < length T" for u
    using that assms(4,5) by (auto simp: nth_list_update)
  have f: "length (filter is_published (T[t := Published b])) = Suc (length (filter is_published T))"
    "length (filter is_spin (T[t := Published b])) = length (filter is_spin T)"
    using assms(5) filter_update [OF assms(4), of is_published "Published b"] filter_update [OF assms(4), of is_spin "Published b"] by simp_all
  have "{j. (st(i := True)) j} = insert i {j. st j}" by auto
  then have "card {j. (st(i := True)) j} = Suc (card {j. st j})" using h(4) published_card(1) [OF assms(1)] by simp
  with assms(2) f show "setup_ok N (T[t := Published b]) w (st(i := True)) c" by (simp add: setup_ok_def u cong: conj_cong)
  have "it i = Some (t, l)" using assms(3-5) by (auto simp: items_ok_def)
  then show "items_ok (T[t := Published b]) (st(i := True)) it"
    using assms(3,4) by (auto simp: items_ok_def nth_list_update split: if_splits)
qed

text \<open>The thread that counts the last slot goes on to set up the next buffer.\<close>

lemma count_ok:
  assumes "slots_ok N T w st" "setup_ok N T w st c" "t < length T" "T ! t = Published b"
  defines "p \<equiv> if c + 1 = N then Setup else Idle"
  shows "slots_ok N (T[t := p]) w st" "setup_ok N (T[t := p]) w st (Suc c)"
proof -
  show "slots_ok N (T[t := p]) w st" using assms(1,3,4) by (intro slots_ok_update) (auto simp: p_def)
  have f: "Suc (length (filter is_published (T[t := p]))) = length (filter is_published T)"
    "length (filter is_spin (T[t := p])) = length (filter is_spin T)"
    using assms(4) filter_update [OF assms(3), of is_published p] filter_update [OF assms(3), of is_spin p]
    by (auto simp: p_def split: if_splits)
  have c: "c < N" using assms(2) f(1) published_card(2) [OF assms(1)] by (simp add: setup_ok_def)
  have "given T w \<noteq> 0"
  proof
    assume "given T w = 0"
    then have "{i. st i} = {}" using published_slot(2) [OF assms(1)] by auto
    with assms(2) f(1) show False by (simp add: setup_ok_def)
  qed
  then have e: "\<not> is_enqueue (T ! u)" if "u < length T" for u using that by (auto simp: given_def split: if_splits)
  have s: "T ! u \<noteq> Setup" if "u < length T" for u using that assms(2) c by (auto simp: setup_ok_def)
  have i: "\<not> in_setup (T ! u)" if "u < length T" for u
    using that e [of u] s [of u] by (cases "T ! u") auto
  have "\<not> is_enqueue p" by (simp add: p_def)
  with assms(3) have u: "\<not> is_enqueue (T[t := p] ! u)" "in_setup (T[t := p] ! u) \<Longrightarrow> u = t" if "u < length T" for u
    using that e i by (auto simp: nth_list_update split: if_splits)
  have "(\<exists>u < length T. T[t := p] ! u = Setup) \<longleftrightarrow> p = Setup"
    using assms(3) s by (auto simp: nth_list_update split: if_splits)
  moreover have "\<forall>u < length T. \<forall>v < length T. in_setup (T[t := p] ! u) \<longrightarrow> in_setup (T[t := p] ! v) \<longrightarrow> u = v"
    using u(2) by blast
  moreover have "p = Setup \<longleftrightarrow> Suc c = N" by (simp add: p_def)
  moreover have "\<not> (\<exists>u < length T. is_enqueue (T[t := p] ! u))" using u(1) by blast
  ultimately show "setup_ok N (T[t := p]) w st (Suc c)"
    using assms(2) f unfolding setup_ok_def length_list_update by auto
qed

lemma full_buffer:
  assumes "slots_ok N T w st" "setup_ok N T w st N"
  shows "st i \<longleftrightarrow> i < N" "holders T i = {}" "filter is_published T = []"
proof -
  have "N + length (filter is_published T) = card {i. st i}" using assms(2) by (simp add: setup_ok_def)
  then have c: "card {i. st i} = N" "length (filter is_published T) = 0"
    using published_card(2) [OF assms(1)] by linarith+
  then have "{i. st i} = {..<N}" using published_finite [OF assms(1)] by (intro card_subset_eq) auto
  then show "st i \<longleftrightarrow> i < N" by auto
  then show "holders T i = {}"
    using assms(1) by (cases "st i") (auto simp: slots_ok_def slot_ok_def dest!: spec [of _ i] split: if_splits)
  show "filter is_published T = []" using c(2) by simp
qed

lemma alloc_ok:
  assumes "slots_ok N T w st" "setup_ok N T w st c" "t < length T" "T ! t = Setup" "N > 0"
  shows "slots_ok N (T[t := Enqueue a]) w (\<lambda>_. False)" "setup_ok N (T[t := Enqueue a]) w (\<lambda>_. False) 0"
proof -
  have c: "c = N" using assms(2-4) by (auto simp: setup_ok_def)
  note full = full_buffer [OF assms(1,2) [unfolded c]]
  have g: "given (T[t := Enqueue a]) w = 0" using assms(3) by (auto simp: given_def)
  have "holders (T[t := Enqueue a]) i = {}" for i using full(2) [of i] assms(3) by (simp add: holders_update)
  then show "slots_ok N (T[t := Enqueue a]) w (\<lambda>_. False)" by (simp add: slots_ok_def slot_ok_def g)
  have "N - 1 < given T w" using full(1) [of "N - 1"] assms(5) published_slot(2) [OF assms(1)] by simp
  then have w: "N \<le> w" by (auto simp: given_def split: if_splits)
  have s: "u = t" if "u < length T" "in_setup (T ! u)" for u
    using that assms(2-4) by (auto simp: setup_ok_def)
  have f: "filter is_published (T[t := Enqueue a]) = []"
    "length (filter is_spin (T[t := Enqueue a])) = length (filter is_spin T)"
    using assms(4) full(3) filter_update [OF assms(3), of is_published "Enqueue a"] filter_update [OF assms(3), of is_spin "Enqueue a"]
    by simp_all
  have u: "in_setup (T[t := Enqueue a] ! u) = in_setup (T ! u)" if "u < length T" for u
    using that assms(3,4) by (auto simp: nth_list_update)
  have "T[t := Enqueue a] ! u \<noteq> Setup" if "u < length T" for u
    using s [OF that] u [OF that] that by (cases "u = t") auto
  moreover have "\<forall>u < length T. \<forall>v < length T. in_setup (T[t := Enqueue a] ! u) \<longrightarrow> in_setup (T[t := Enqueue a] ! v) \<longrightarrow> u = v"
    using s u by blast
  ultimately show "setup_ok N (T[t := Enqueue a]) w (\<lambda>_. False) 0"
    using assms(2,5) f w by (simp add: setup_ok_def)
qed

lemma enqueue_ok:
  assumes "slots_ok N T w st" "setup_ok N T w st c" "t < length T" "T ! t = Enqueue a"
  shows "slots_ok N (T[t := Idle]) 0 st" "setup_ok N (T[t := Idle]) 0 st c"
proof -
  have "given T w = 0" using assms(3,4) by (auto simp: given_def)
  moreover have "given (T[t := Idle]) 0 = 0" by (simp add: given_def)
  moreover have "holders (T[t := Idle]) i = holders T i" for i
    using assms(3,4) by (auto simp: holders_def nth_list_update split: if_splits)
  ultimately show "slots_ok N (T[t := Idle]) 0 st" using assms(1) by (simp add: slots_ok_def)
  have s: "u = t" if "u < length T" "in_setup (T ! u)" for u
    using that assms(2-4) by (auto simp: setup_ok_def)
  have u: "\<not> in_setup (T[t := Idle] ! u)" "\<not> is_enqueue (T[t := Idle] ! u)" if "u < length T" for u
    using that assms(3) s [OF that] by (cases "T ! u"; auto simp: nth_list_update)+
  have v: "(T[t := Idle] ! u = Setup) = (T ! u = Setup)" if "u < length T" for u
    using that assms(3,4) by (auto simp: nth_list_update)
  have "length (filter is_published (T[t := Idle])) = length (filter is_published T)"
    using assms(4) filter_update [OF assms(3), of is_published Idle] by simp
  with assms(2) u v show "setup_ok N (T[t := Idle]) 0 st c" by (simp add: setup_ok_def cong: conj_cong)
qed

end
