(* ===== verification/Log_Queue_Safe.thy ===== *)
theory Log_Queue_Safe
  imports Log_Queue "HOL-Library.Sublist"
begin

text \<open>
  The queue of the logger over all schedules: the invariant of the buffers and of the reading
  thread, that no line is lost and every thread's lines stay in order, and the one access to freed
  memory that remains.
\<close>

section \<open>The invariant of the memory\<close>

text \<open>The lines of a buffer that are published, in the order of the slots.\<close>

definition lines_of :: "nat \<Rightarrow> 'l Buffer \<Rightarrow> (nat \<times> 'l) list" where
  "lines_of N B = map (\<lambda>i. the (m_buffer B i)) (filter (m_write_state B) [0..<N])"

definition contents :: "nat \<Rightarrow> 'l Buffer list \<Rightarrow> (nat \<times> 'l) list" where
  "contents N H = concat (map (lines_of N) H)"

text \<open>All buffers before the current one are full.\<close>

definition push_inv :: "nat \<Rightarrow> 'l pusher list \<Rightarrow> nat \<Rightarrow> nat \<Rightarrow> 'l Buffer list \<Rightarrow> bool" where
  "push_inv N T w cur H \<longleftrightarrow> (\<exists>bs B. H = bs @ [B] \<and> cur = length bs \<and>
     slots_ok N T w (m_write_state B) \<and> setup_ok N T w (m_write_state B) (m_write_count B) \<and>
     items_ok T (m_write_state B) (m_buffer B) \<and>
     (\<forall>t < length T. \<forall>b. names (T ! t) = Some b \<longrightarrow> b = cur) \<and>
     (\<forall>B' \<in> set bs. \<forall>i. m_write_state B' i \<longleftrightarrow> i < N) \<and>
     (\<forall>B' \<in> set H. \<forall>i. m_write_state B' i \<longrightarrow> m_buffer B' i \<noteq> None))"

text \<open>Every thread's lines are published in the order in which it pushed them.\<close>

definition under_way :: "'l pusher list \<Rightarrow> nat \<Rightarrow> (nat \<times> 'l) list" where
  "under_way T t = (if t < length T then map (Pair t) (line_under_way (T ! t)) else [])"

definition order_inv :: "nat \<Rightarrow> 'l pusher list \<Rightarrow> 'l Buffer list \<Rightarrow> (nat \<times> 'l) list \<Rightarrow> bool" where
  "order_inv N T H ps \<longleftrightarrow>
     (\<forall>t. filter (\<lambda>x. fst x = t) ps = filter (\<lambda>x. fst x = t) (contents N H) @ under_way T t)"

lemma upt_split: "i < N \<Longrightarrow> [0..<N] = [0..<i] @ i # [Suc i..<N]"
  by (metis le_add_diff_inverse less_imp_le_nat upt_add_eq_append upt_conv_Cons zero_le)

lemma lines_of_construct:
  assumes "\<not> m_write_state B i"
  shows "lines_of N (Buffer_construct t l i B) = lines_of N B"
  using assms by (auto simp: lines_of_def Buffer_construct_def)

lemma lines_of_count [simp]: "lines_of N (Buffer_count B) = lines_of N B"
  by (simp add: lines_of_def Buffer_count_def)

lemma lines_of_new [simp]: "lines_of N Buffer_new = []"
  by (simp add: lines_of_def Buffer_new_def)

lemma lines_of_publish:
  assumes "m_buffer B i = Some (t, l)" "i < N" "\<not> m_write_state B i"
    "\<And>j l. m_write_state B j \<Longrightarrow> m_buffer B j = Some (t, l) \<Longrightarrow> j < i"
    "\<And>j. m_write_state B j \<Longrightarrow> m_buffer B j \<noteq> None"
  shows "filter (\<lambda>x. fst x = u) (lines_of N (Buffer_publish i B)) =
    filter (\<lambda>x. fst x = u) (lines_of N B) @ (if u = t then [(t, l)] else [])"
proof -
  let ?f = "\<lambda>i. the (m_buffer B i)"
  define X where "X = map ?f (filter (m_write_state B) [0..<i])"
  define Y where "Y = map ?f (filter (m_write_state B) [Suc i..<N])"
  have n: "filter ((m_write_state B)(i := True)) xs = filter (m_write_state B) xs" if "i \<notin> set xs" for xs
    using that by (induction xs) auto
  have "lines_of N B = X @ Y" "lines_of N (Buffer_publish i B) = X @ (t, l) # Y"
    using assms(1-3) by (simp_all add: lines_of_def Buffer_publish_def X_def Y_def upt_split n)
  moreover have "filter (\<lambda>x. fst x = t) Y = []"
  proof (rule ccontr)
    assume "filter (\<lambda>x. fst x = t) Y \<noteq> []"
    then obtain j where "m_write_state B j" "Suc i \<le> j" "fst (the (m_buffer B j)) = t"
      by (auto simp: Y_def filter_empty_conv)
    with assms(4) [of j] assms(5) [of j] show False by (cases "m_buffer B j") (auto simp: prod_eq_iff)
  qed
  ultimately show ?thesis by (cases "u = t") auto
qed

lemma under_way_update:
  "t < length T \<Longrightarrow> under_way (T[t := p]) u = (if u = t then map (Pair t) (line_under_way p) else under_way T u)"
  by (simp add: under_way_def)

lemma push_inv_snocE:
  assumes "push_inv N T w cur H"
  obtains bs B where "H = bs @ [B]" "cur = length bs"
  using assms that unfolding push_inv_def by metis

lemma push_inv_snoc:
  "push_inv N T w cur (bs @ [B]) \<longleftrightarrow> cur = length bs \<and>
     slots_ok N T w (m_write_state B) \<and> setup_ok N T w (m_write_state B) (m_write_count B) \<and>
     items_ok T (m_write_state B) (m_buffer B) \<and>
     (\<forall>t < length T. \<forall>b. names (T ! t) = Some b \<longrightarrow> b = cur) \<and>
     (\<forall>B' \<in> set bs. \<forall>i. m_write_state B' i \<longleftrightarrow> i < N) \<and>
     (\<forall>B' \<in> set (bs @ [B]). \<forall>i. m_write_state B' i \<longrightarrow> m_buffer B' i \<noteq> None)"
  unfolding push_inv_def by simp

lemma names_update:
  assumes "\<forall>u < length T. \<forall>b. names (T ! u) = Some b \<longrightarrow> b = cur" "names p = None \<or> names p = Some cur"
  shows "\<forall>u < length (T[t := p]). \<forall>b. names (T[t := p] ! u) = Some b \<longrightarrow> b = cur"
  using assms by (cases "t < length T") (auto simp: nth_list_update split: if_splits)

lemma names_none: "holds p = None \<Longrightarrow> \<not> is_published p \<Longrightarrow> \<not> in_setup p \<Longrightarrow> names p = None"
  by (cases p) auto

lemma contents_snoc [simp]: "contents N (bs @ [B]) = contents N bs @ lines_of N B"
  by (simp add: contents_def)

lemma order_inv_same:
  assumes "order_inv N T H ps" "t < length T" "line_under_way p = line_under_way (T ! t)" "contents N H' = contents N H"
  shows "order_inv N (T[t := p]) H' ps"
  using assms by (auto simp: order_inv_def under_way_update) (simp add: under_way_def)

definition writers_inv :: "nat \<Rightarrow> 'l QueueBuffer \<Rightarrow> bool" where
  "writers_inv N s \<longleftrightarrow> push_inv N (threads s) (m_write_index s) (m_current_write_buffer s) (heap s) \<and>
     order_inv N (threads s) (heap s) (pushed s)"

lemma writers_invE:
  assumes "writers_inv N s"
  obtains bs B where "heap s = bs @ [B]"
    "push_inv N (threads s) (m_write_index s) (m_current_write_buffer s) (bs @ [B])"
  using assms that unfolding writers_inv_def by (metis push_inv_snocE)

lemma push_inv_current:
  assumes "push_inv N T w cur (bs @ [B])"
  shows "slots_ok N T w (m_write_state B)" "setup_ok N T w (m_write_state B) (m_write_count B)"
    "items_ok T (m_write_state B) (m_buffer B)"
  using assms by (auto simp: push_inv_snoc)

lemma published_item: "writers_inv N s \<Longrightarrow> B \<in> set (heap s) \<Longrightarrow> m_write_state B i \<Longrightarrow> m_buffer B i \<noteq> None"
  unfolding writers_inv_def push_inv_def by blast

text \<open>Actions that change no buffer.\<close>

lemma push_inv_thread:
  assumes "push_inv N T w cur (bs @ [B])" "t < length T" "slots_ok N (T[t := p]) w' (m_write_state B)"
    "setup_ok N (T[t := p]) w' (m_write_state B) (m_write_count B)" "names p = None \<or> names p = Some cur"
    "\<And>l i b. p \<noteq> Built l i b"
    "\<And>i j l. holds p = Some i \<Longrightarrow> m_write_state B j \<Longrightarrow> m_buffer B j = Some (t, l) \<Longrightarrow> j < i"
  shows "push_inv N (T[t := p]) w' cur (bs @ [B])"
proof -
  have "items_ok (T[t := p]) (m_write_state B) (m_buffer B)"
    using assms by (intro items_ok_update) (auto simp: push_inv_snoc)
  with assms(1,3,4) names_update [OF _ assms(5)] show ?thesis unfolding push_inv_snoc by blast
qed

text \<open>Actions that change the current buffer.\<close>

lemma push_inv_buffer:
  assumes "push_inv N T w cur (bs @ [B])" "slots_ok N (T[t := p]) w (m_write_state B')"
    "setup_ok N (T[t := p]) w (m_write_state B') (m_write_count B')" "items_ok (T[t := p]) (m_write_state B') (m_buffer B')"
    "names p = None \<or> names p = Some cur" "\<And>i. m_write_state B' i \<Longrightarrow> m_buffer B' i \<noteq> None"
  shows "push_inv N (T[t := p]) w cur (bs @ [B'])"
  using assms(1-4) names_update [OF _ assms(5)] assms(6) unfolding push_inv_snoc by auto

lemma at_pc_simps [simp]:
  "threads (at_pc t p s) = (threads s)[t := p]" "heap (at_pc t p s) = heap s" "m_write_index (at_pc t p s) = m_write_index s"
  "m_current_write_buffer (at_pc t p s) = m_current_write_buffer s" "pushed (at_pc t p s) = pushed s"
  "m_buffers (at_pc t p s) = m_buffers s" "m_current_read_buffer (at_pc t p s) = m_current_read_buffer s"
  "m_read_index (at_pc t p s) = m_read_index s" "reader (at_pc t p s) = reader s" "popped (at_pc t p s) = popped s"
  by (simp_all add: at_pc_def)

lemma call_inv:
  assumes "writers_inv N s" "t < length (threads s)" "threads s ! t = Idle"
  shows "writers_inv N (at_pc t (Reserve l) (s\<lparr>pushed := pushed s @ [(t, l)]\<rparr>))"
proof -
  from assms(1) obtain bs B where b: "heap s = bs @ [B]"
    and i: "push_inv N (threads s) (m_write_index s) (m_current_write_buffer s) (bs @ [B])" by (rule writers_invE)
  then have "push_inv N ((threads s)[t := Reserve l]) (m_write_index s) (m_current_write_buffer s) (bs @ [B])"
    using assms(2,3) by (intro push_inv_thread [OF i]) (auto simp: push_inv_snoc intro!: slots_ok_update setup_ok_update)
  moreover have "order_inv N ((threads s)[t := Reserve l]) (heap s) (pushed s @ [(t, l)])"
    using assms by (auto simp: writers_inv_def order_inv_def under_way_update) (simp add: under_way_def)
  ultimately show ?thesis by (simp add: writers_inv_def b)
qed

lemma reserve_inv:
  assumes "writers_inv N s" "t < length (threads s)" "threads s ! t = Reserve l"
  shows "writers_inv N (reserve N t l s)"
proof -
  from assms(1) obtain bs B where b: "heap s = bs @ [B]"
    and i: "push_inv N (threads s) (m_write_index s) (m_current_write_buffer s) (bs @ [B])" by (rule writers_invE)
  let ?w = "m_write_index s" let ?p = "if ?w < N then Slot l ?w else Spin l"
  note s = push_inv_current(1,2) [OF i]
  have "j < ?w" if "m_write_state B j" for j
    using published_slot(2) [of N, OF s(1) that] by (auto simp: given_def split: if_splits)
  then have "push_inv N ((threads s)[t := ?p]) (Suc ?w) (m_current_write_buffer s) (bs @ [B])"
    using reserve_slot_ok [OF s assms(2,3)] reserve_spin_ok [OF s assms(2,3)] assms(2)
    by (intro push_inv_thread [OF i]) (auto split: if_splits)
  moreover have "order_inv N ((threads s)[t := ?p]) (heap s) (pushed s)"
    using assms by (intro order_inv_same) (auto simp: writers_inv_def)
  ultimately show ?thesis by (simp add: writers_inv_def reserve_def Let_def b)
qed

lemma spin_inv:
  assumes "writers_inv N s" "t < length (threads s)" "threads s ! t = Spin l"
  shows "writers_inv N (spin N t l s)"
proof (cases "m_write_index s < N")
  case True
  from assms(1) obtain bs B where b: "heap s = bs @ [B]"
    and i: "push_inv N (threads s) (m_write_index s) (m_current_write_buffer s) (bs @ [B])" by (rule writers_invE)
  from spin_ok [OF push_inv_current(1,2) [OF i] assms(2,3) True]
  have "push_inv N ((threads s)[t := Reserve l]) (m_write_index s) (m_current_write_buffer s) (bs @ [B])"
    using assms(2) by (intro push_inv_thread [OF i]) auto
  moreover have "order_inv N ((threads s)[t := Reserve l]) (heap s) (pushed s)"
    using assms by (intro order_inv_same) (auto simp: writers_inv_def)
  ultimately show ?thesis using True by (simp add: writers_inv_def spin_def b)
qed (use assms in \<open>simp add: spin_def\<close>)

lemma load_inv:
  assumes "writers_inv N s" "t < length (threads s)" "threads s ! t = Slot l i"
  shows "writers_inv N (at_pc t (Have l i (m_current_write_buffer s)) s)"
proof -
  from assms(1) obtain bs B where b: "heap s = bs @ [B]"
    and i: "push_inv N (threads s) (m_write_index s) (m_current_write_buffer s) (bs @ [B])" by (rule writers_invE)
  let ?p = "Have l i (m_current_write_buffer s)"
  have "j < i" if "m_write_state B j" "m_buffer B j = Some (t, l')" for j l'
    using i that assms(2,3) by (auto simp: push_inv_snoc items_ok_def)
  then have "push_inv N ((threads s)[t := ?p]) (m_write_index s) (m_current_write_buffer s) (bs @ [B])"
    using assms(2,3) i by (intro push_inv_thread [OF i]) (auto simp: push_inv_snoc intro!: slots_ok_update setup_ok_update)
  moreover have "order_inv N ((threads s)[t := ?p]) (heap s) (pushed s)"
    using assms by (intro order_inv_same) (auto simp: writers_inv_def)
  ultimately show ?thesis by (simp add: writers_inv_def b)
qed

lemma on_buffer_current:
  assumes "on_buffer b f s = Some s'" "heap s = bs @ [B]" "b = length bs"
  shows "s' = s\<lparr>heap := bs @ [f B]\<rparr>" "live B"
  using assms by (auto simp: on_buffer_def split: if_splits)

lemma construct_inv:
  assumes "writers_inv N s" "t < length (threads s)" "threads s ! t = Have l i b"
    and "on_buffer b (Buffer_construct t l i) s = Some s'"
  shows "writers_inv N (at_pc t (Built l i b) s')"
proof -
  from assms(1) obtain bs B where h: "heap s = bs @ [B]"
    and i: "push_inv N (threads s) (m_write_index s) (m_current_write_buffer s) (bs @ [B])" by (rule writers_invE)
  let ?B = "Buffer_construct t l i B"
  have b: "b = m_current_write_buffer s" "b = length bs" using i assms(2,3) by (auto simp: push_inv_snoc)
  note ok = push_inv_current [OF i]
  have n: "\<not> m_write_state B i" using held_slot(4) [OF ok(1) assms(2)] assms(3) by simp
  have st: "m_write_state ?B = m_write_state B" "m_write_count ?B = m_write_count B"
    "m_buffer ?B = (m_buffer B)(i := Some (t, l))" by (simp_all add: Buffer_construct_def)
  have "items_ok ((threads s)[t := Built l i b]) (m_write_state B) (m_buffer ?B)"
  proof -
    have o: "u = t" if "u < length (threads s)" "holds (threads s ! u) = Some i" for u
      using held_slot(1) [OF ok(1) assms(2), of i] held_slot(1) [OF ok(1) that] assms(3) by auto
    have u: "threads s ! u \<noteq> Built l' i b'" if "u < length (threads s)" for u l' b'
      using o [OF that] assms(3) by auto
    have "items_ok (threads s) (m_write_state B) (m_buffer ?B)"
      using ok(3) n u by (auto simp: items_ok_def st)
    moreover have "j < i" if "m_write_state B j" "m_buffer B j = Some (t, l')" for j l'
      using ok(3) assms(2,3) that by (auto simp: items_ok_def)
    ultimately show ?thesis using assms(2) n by (intro items_ok_update) (auto simp: st split: if_splits)
  qed
  then have "push_inv N ((threads s)[t := Built l i b]) (m_write_index s) (m_current_write_buffer s) (bs @ [?B])"
    using assms(2,3) b(1) i n
    by (intro push_inv_buffer [OF i]) (auto simp: push_inv_snoc st intro!: slots_ok_update setup_ok_update)
  moreover have "order_inv N ((threads s)[t := Built l i b]) (bs @ [?B]) (pushed s)"
    using assms n h by (intro order_inv_same) (auto simp: writers_inv_def lines_of_construct)
  ultimately show ?thesis using on_buffer_current [OF assms(4) h b(2)] by (simp add: writers_inv_def)
qed

lemma publish_inv:
  assumes "writers_inv N s" "t < length (threads s)" "threads s ! t = Built l i b"
    and "on_buffer b (Buffer_publish i) s = Some s'"
  shows "writers_inv N (at_pc t (Published b) s')"
proof -
  from assms(1) obtain bs B where h: "heap s = bs @ [B]"
    and i: "push_inv N (threads s) (m_write_index s) (m_current_write_buffer s) (bs @ [B])" by (rule writers_invE)
  let ?B = "Buffer_publish i B"
  have b: "b = m_current_write_buffer s" "b = length bs" using i assms(2,3) by (auto simp: push_inv_snoc)
  note ok = push_inv_current [OF i]
  have n: "\<not> m_write_state B i" "i < N" using held_slot [OF ok(1) assms(2)] assms(3) by auto
  have it: "m_buffer B i = Some (t, l)" "\<And>j l. m_write_state B j \<Longrightarrow> m_buffer B j = Some (t, l) \<Longrightarrow> j < i"
    "\<And>j. m_write_state B j \<Longrightarrow> m_buffer B j \<noteq> None"
    using ok(3) assms(2,3) by (auto simp: items_ok_def)
  have st: "m_write_state ?B = (m_write_state B)(i := True)" "m_write_count ?B = m_write_count B" "m_buffer ?B = m_buffer B"
    by (simp_all add: Buffer_publish_def)
  have "push_inv N ((threads s)[t := Published b]) (m_write_index s) (m_current_write_buffer s) (bs @ [?B])"
    using publish_ok [OF ok assms(2,3)] b(1) it by (intro push_inv_buffer [OF i]) (auto simp: st split: if_splits)
  moreover have "order_inv N ((threads s)[t := Published b]) (bs @ [?B]) (pushed s)"
    using assms(1-3) h lines_of_publish [OF it(1) n(2,1) it(2,3)]
    by (auto simp: writers_inv_def order_inv_def under_way_update) (simp add: under_way_def)
  ultimately show ?thesis using on_buffer_current [OF assms(4) h b(2)] by (simp add: writers_inv_def)
qed

lemma count_inv:
  assumes "writers_inv N s" "t < length (threads s)" "threads s ! t = Published b"
    and "on_buffer b Buffer_count s = Some s'"
  shows "writers_inv N (at_pc t (if m_write_count (heap s ! b) + 1 = N then Setup else Idle) s')"
proof -
  from assms(1) obtain bs B where h: "heap s = bs @ [B]"
    and i: "push_inv N (threads s) (m_write_index s) (m_current_write_buffer s) (bs @ [B])" by (rule writers_invE)
  let ?B = "Buffer_count B" let ?p = "if m_write_count B + 1 = N then Setup else Idle"
  have b: "b = length bs" using i assms(2,3) by (auto simp: push_inv_snoc)
  note ok = push_inv_current [OF i]
  have st: "m_write_state ?B = m_write_state B" "m_write_count ?B = Suc (m_write_count B)" "m_buffer ?B = m_buffer B"
    by (simp_all add: Buffer_count_def)
  have "items_ok ((threads s)[t := ?p]) (m_write_state B) (m_buffer B)"
    using ok(3) assms(2) by (intro items_ok_update) (auto split: if_splits)
  moreover have "m_buffer B j \<noteq> None" if "m_write_state B j" for j using that ok(3) by (auto simp: items_ok_def)
  ultimately have "push_inv N ((threads s)[t := ?p]) (m_write_index s) (m_current_write_buffer s) (bs @ [?B])"
    using count_ok [OF ok(1,2) assms(2,3)] by (intro push_inv_buffer [OF i]) (auto simp: st)
  moreover have "order_inv N ((threads s)[t := ?p]) (bs @ [?B]) (pushed s)"
    using assms h by (intro order_inv_same) (auto simp: writers_inv_def)
  ultimately show ?thesis using on_buffer_current [OF assms(4) h b] h b by (simp add: writers_inv_def)
qed

lemma alloc_inv:
  assumes "writers_inv N s" "t < length (threads s)" "threads s ! t = Setup" "N > 0"
  shows "writers_inv N (setup_alloc t s)"
proof -
  from assms(1) obtain bs B where h: "heap s = bs @ [B]"
    and i: "push_inv N (threads s) (m_write_index s) (m_current_write_buffer s) (bs @ [B])" by (rule writers_invE)
  note ok = push_inv_current [OF i]
  let ?T = "(threads s)[t := Enqueue (length (heap s))]"
  have c: "m_write_count B = N" using ok(2) assms(2,3) by (auto simp: setup_ok_def)
  note full = full_buffer [OF ok(1) ok(2) [unfolded c]]
  have s: "u = t" if "u < length (threads s)" "in_setup (threads s ! u)" for u
    using that ok(2) assms(2,3) by (auto simp: setup_ok_def)
  have q: "names (threads s ! u) = None" "holds (threads s ! u) = None" if "u < length (threads s)" "u \<noteq> t" for u
  proof -
    have "holds (threads s ! u) \<noteq> Some i" for i using full(2) [of i] that(1) by (auto simp: holders_def)
    then show "holds (threads s ! u) = None" by (cases "holds (threads s ! u)") auto
    moreover have "\<not> is_published (threads s ! u)" using full(3) that(1) by (simp add: filter_empty_conv)
    moreover have "\<not> in_setup (threads s ! u)" using s [OF that(1)] that(2) by blast
    ultimately show "names (threads s ! u) = None" by (rule names_none)
  qed
  have "holds (?T ! u) = None" if "u < length ?T" for u
    using that q(2) [of u] by (cases "u = t") simp_all
  then have "?T ! u \<noteq> Built l i b" if "u < length ?T" for u l i b using that by (metis holds.simps(3) option.distinct(1))
  then have "items_ok ?T (m_write_state Buffer_new) (m_buffer Buffer_new)"
    unfolding items_ok_def by (simp add: Buffer_new_def)
  moreover have "\<forall>u < length ?T. \<forall>b. names (?T ! u) = Some b \<longrightarrow> b = length (heap s)"
    using q(1) assms(2) by (auto simp: nth_list_update split: if_splits)
  moreover have "\<forall>B' \<in> set (bs @ [B]). \<forall>i. m_write_state B' i \<longleftrightarrow> i < N" using i full(1) by (auto simp: push_inv_snoc)
  moreover have "\<forall>B' \<in> set ((bs @ [B]) @ [Buffer_new]). \<forall>i. m_write_state B' i \<longrightarrow> m_buffer B' i \<noteq> None"
    using i by (auto simp: push_inv_snoc Buffer_new_def)
  ultimately have "push_inv N ?T (m_write_index s) (length (heap s)) ((bs @ [B]) @ [Buffer_new])"
    unfolding push_inv_snoc using alloc_ok [OF ok(1,2) assms(2-4)] h by (simp add: Buffer_new_def)
  moreover have "order_inv N ?T (heap s @ [Buffer_new]) (pushed s)"
    using assms by (intro order_inv_same) (auto simp: writers_inv_def)
  ultimately show ?thesis by (simp add: writers_inv_def setup_alloc_def Let_def h)
qed

lemma enqueue_inv:
  assumes "writers_inv N s" "t < length (threads s)" "threads s ! t = Enqueue a"
  shows "writers_inv N (setup_enqueue t a s)"
proof -
  from assms(1) obtain bs B where h: "heap s = bs @ [B]"
    and i: "push_inv N (threads s) (m_write_index s) (m_current_write_buffer s) (bs @ [B])" by (rule writers_invE)
  have "push_inv N ((threads s)[t := Idle]) 0 (m_current_write_buffer s) (bs @ [B])"
    using enqueue_ok [OF push_inv_current(1,2) [OF i] assms(2,3)] assms(2) by (intro push_inv_thread [OF i]) auto
  moreover have "order_inv N ((threads s)[t := Idle]) (heap s) (pushed s)"
    using assms by (intro order_inv_same) (auto simp: writers_inv_def)
  ultimately show ?thesis by (simp add: writers_inv_def setup_enqueue_def h)
qed

lemma push_step_inv:
  assumes "writers_inv N s" "t < length (threads s)" "N > 0" "push_step N t (threads s ! t) s = Some s'"
  shows "writers_inv N s'"
  using assms reserve_inv [OF assms(1,2)] spin_inv [OF assms(1,2)] load_inv [OF assms(1,2)] construct_inv [OF assms(1,2)]
    publish_inv [OF assms(1,2)] count_inv [OF assms(1,2)] alloc_inv [OF assms(1,2)] enqueue_inv [OF assms(1,2)]
  by (cases "threads s ! t") auto

section \<open>The invariant of the reading thread\<close>

text \<open>
  The number of buffers in the queue, the buffers before the first of which, number \<open>h\<close>, have been
  freed; what was popped are the lines of the first slots in the order of buffers and slots.
\<close>

definition enqueued :: "'l QueueBuffer \<Rightarrow> nat" where
  "enqueued s = length (heap s) - (if \<exists>t < length (threads s). is_enqueue (threads s ! t) then 1 else 0)"

lemma enqueued_reader [simp]:
  "enqueued (s\<lparr>reader := a\<rparr>) = enqueued s" "enqueued (s\<lparr>popped := ps\<rparr>) = enqueued s" "enqueued (s\<lparr>m_read_index := r\<rparr>) = enqueued s"
  "enqueued (s\<lparr>m_current_read_buffer := c\<rparr>) = enqueued s" "enqueued (s\<lparr>m_buffers := q\<rparr>) = enqueued s"
  by (simp_all add: enqueued_def)

definition slot_line :: "nat \<Rightarrow> 'l Buffer list \<Rightarrow> nat \<Rightarrow> nat \<times> 'l" where
  "slot_line N H k = the (m_buffer (H ! (k div N)) (k mod N))"

definition slot_published :: "nat \<Rightarrow> 'l Buffer list \<Rightarrow> nat \<Rightarrow> bool" where
  "slot_published N H k \<longleftrightarrow> k div N < length H \<and> m_write_state (H ! (k div N)) (k mod N)"

definition pop_count :: "nat \<Rightarrow> nat \<Rightarrow> 'l QueueBuffer \<Rightarrow> nat" where
  "pop_count N h s = h * N + m_read_index s + (if reader s = Free then N else 0)"

definition reader_inv :: "nat \<Rightarrow> nat \<Rightarrow> 'l QueueBuffer \<Rightarrow> bool" where
  "reader_inv N h s \<longleftrightarrow> h \<le> enqueued s \<and> m_buffers s = [h..<enqueued s] \<and>
     (\<forall>b < length (heap s). live (heap s ! b) \<longleftrightarrow> h \<le> b) \<and>
     (case m_current_read_buffer s of None \<Rightarrow> m_read_index s = 0 | Some b \<Rightarrow> b = h \<and> h < enqueued s) \<and>
     m_read_index s < N \<and> (reader s = Check \<longrightarrow> m_current_read_buffer s \<noteq> None) \<and>
     (reader s = Free \<longrightarrow> m_current_read_buffer s = None \<and> h < enqueued s) \<and>
     (\<forall>k < pop_count N h s. slot_published N (heap s) k) \<and>
     popped s = map (slot_line N (heap s)) [0..<pop_count N h s]"

text \<open>Pushing changes no published slot and frees nothing.\<close>

definition grows :: "'l Buffer list \<Rightarrow> 'l Buffer list \<Rightarrow> bool" where
  "grows H H' \<longleftrightarrow> length H \<le> length H' \<and> (\<forall>b < length H. live (H' ! b) = live (H ! b) \<and>
     (\<forall>i. m_write_state (H ! b) i \<longrightarrow> m_write_state (H' ! b) i \<and> m_buffer (H' ! b) i = m_buffer (H ! b) i))"

lemma grows_refl [simp]: "grows H H"
  by (simp add: grows_def)

lemma grows_slot:
  assumes "grows H H'" "slot_published N H k"
  shows "slot_published N H' k" "slot_line N H' k = slot_line N H k"
  using assms by (auto simp: grows_def slot_published_def slot_line_def)

lemma reader_inv_grows:
  assumes "reader_inv N h s" "grows (heap s) (heap s')" "enqueued s \<le> enqueued s'" "m_buffers s' = [h..<enqueued s']"
    "\<And>b. b < length (heap s') \<Longrightarrow> live (heap s' ! b) \<longleftrightarrow> h \<le> b"
    "m_current_read_buffer s' = m_current_read_buffer s" "m_read_index s' = m_read_index s" "reader s' = reader s"
    "popped s' = popped s"
  shows "reader_inv N h s'"
proof -
  have n: "pop_count N h s' = pop_count N h s" using assms(7,8) by (simp add: pop_count_def)
  have "slot_published N (heap s') k" "slot_line N (heap s') k = slot_line N (heap s) k" if "k < pop_count N h s" for k
    using assms(1) that grows_slot [OF assms(2)] by (auto simp: reader_inv_def)
  then show ?thesis using assms(1,3-9) by (auto simp: reader_inv_def n split: option.splits)
qed

lemma enqueued_same:
  assumes "t < length (threads s)" "is_enqueue p \<longleftrightarrow> is_enqueue (threads s ! t)" "length H = length (heap s)"
    "heap s' = H" "threads s' = (threads s)[t := p]"
  shows "enqueued s' = enqueued s"
proof -
  have "is_enqueue ((threads s)[t := p] ! u) = is_enqueue (threads s ! u)" if "u < length (threads s)" for u
    using that assms(1,2) by (simp add: nth_list_update)
  then show ?thesis using assms(3-5) by (simp add: enqueued_def cong: conj_cong)
qed

lemma reader_inv_push:
  assumes "reader_inv N h s" "t < length (threads s)" "is_enqueue p \<longleftrightarrow> is_enqueue (threads s ! t)"
    "grows (heap s) H" "length H = length (heap s)"
  shows "reader_inv N h (at_pc t p (s\<lparr>heap := H, m_write_index := w\<rparr>))"
proof -
  have e: "enqueued (at_pc t p (s\<lparr>heap := H, m_write_index := w\<rparr>)) = enqueued s"
    by (rule enqueued_same [OF assms(2,3,5)]) (simp_all add: at_pc_def)
  show ?thesis
    using assms(1,4,5) by (intro reader_inv_grows [OF assms(1)]) (auto simp: e reader_inv_def grows_def)
qed

lemma grows_snoc:
  assumes "live B' = live B" "\<And>i. m_write_state B i \<Longrightarrow> m_write_state B' i \<and> m_buffer B' i = m_buffer B i"
  shows "grows (bs @ [B]) (bs @ [B'])"
  using assms by (auto simp: grows_def nth_append less_Suc_eq)

lemma reader_inv_buffer:
  assumes "reader_inv N h s" "t < length (threads s)" "is_enqueue p \<longleftrightarrow> is_enqueue (threads s ! t)"
    "on_buffer b f s = Some s'" "heap s = bs @ [B]" "b = length bs" "live (f B) = live B"
    "\<And>i. m_write_state B i \<Longrightarrow> m_write_state (f B) i \<and> m_buffer (f B) i = m_buffer B i"
  shows "reader_inv N h (at_pc t p s')"
proof -
  have "reader_inv N h (at_pc t p (s\<lparr>heap := bs @ [f B], m_write_index := m_write_index s\<rparr>))"
    using assms(5,7,8) by (intro reader_inv_push [OF assms(1-3)]) (auto intro!: grows_snoc)
  then show ?thesis using on_buffer_current [OF assms(4-6)] by simp
qed

lemma only_enqueue:
  assumes "writers_inv N s" "t < length (threads s)" "in_setup (threads s ! t)"
  shows "(\<exists>u < length (threads s). is_enqueue (threads s ! u)) \<longleftrightarrow> is_enqueue (threads s ! t)"
    "\<not> (\<exists>u < length (threads s). is_enqueue ((threads s)[t := Idle] ! u))"
proof -
  from assms(1) obtain bs B where i: "push_inv N (threads s) (m_write_index s) (m_current_write_buffer s) (bs @ [B])"
    by (rule writers_invE)
  have "u = t" if "u < length (threads s)" "is_enqueue (threads s ! u)" for u
    using push_inv_current(2) [OF i] assms(2,3) that by (cases "threads s ! u") (auto simp: setup_ok_def)
  then show "(\<exists>u < length (threads s). is_enqueue (threads s ! u)) \<longleftrightarrow> is_enqueue (threads s ! t)"
    "\<not> (\<exists>u < length (threads s). is_enqueue ((threads s)[t := Idle] ! u))"
    using assms(2) by (auto simp: nth_list_update split: if_splits)
qed

lemma alloc_reader_inv:
  assumes "writers_inv N s" "reader_inv N h s" "t < length (threads s)" "threads s ! t = Setup"
  shows "reader_inv N h (setup_alloc t s)"
proof -
  have "enqueued s = length (heap s)" using only_enqueue(1) [OF assms(1,3)] assms(4) by (auto simp: enqueued_def)
  moreover have e: "enqueued (setup_alloc t s) = length (heap s)"
    using assms(3) by (auto simp: enqueued_def setup_alloc_def Let_def)
  ultimately show ?thesis
    using assms(2) by (intro reader_inv_grows [OF assms(2)])
      (auto simp: setup_alloc_def Let_def reader_inv_def grows_def nth_append Buffer_new_def less_Suc_eq)
qed

lemma enqueue_reader_inv:
  assumes "writers_inv N s" "reader_inv N h s" "t < length (threads s)" "threads s ! t = Enqueue a"
  shows "reader_inv N h (setup_enqueue t a s)"
proof -
  from assms(1) obtain bs B where h: "heap s = bs @ [B]"
    and i: "push_inv N (threads s) (m_write_index s) (m_current_write_buffer s) (bs @ [B])" by (rule writers_invE)
  have a: "a = length bs" using i assms(3,4) by (auto simp: push_inv_snoc)
  have e: "enqueued s = length bs" using only_enqueue(1) [OF assms(1,3)] assms(4) h by (simp add: enqueued_def)
  have e': "enqueued (setup_enqueue t a s) = Suc (length bs)"
    using only_enqueue(2) [OF assms(1,3)] assms(4) h by (simp add: enqueued_def setup_enqueue_def)
  show ?thesis
    using assms(2) e e' a by (intro reader_inv_grows [OF assms(2)]) (auto simp: setup_enqueue_def reader_inv_def)
qed

lemma push_step_reader_inv:
  assumes "writers_inv N s" "reader_inv N h s" "t < length (threads s)" "push_step N t (threads s ! t) s = Some s'"
  shows "reader_inv N h s'"
proof -
  from assms(1) obtain bs B where h: "heap s = bs @ [B]"
    and i: "push_inv N (threads s) (m_write_index s) (m_current_write_buffer s) (bs @ [B])" by (rule writers_invE)
  have n: "names (threads s ! t) = Some b \<Longrightarrow> b = length bs" for b using i assms(3) by (auto simp: push_inv_snoc)
  have held: "holds (threads s ! t) = Some i \<Longrightarrow> \<not> m_write_state B i" for i
    using held_slot(4) [OF push_inv_current(1) [OF i] assms(3)] .
  note push = reader_inv_push [OF assms(2,3), of _ "heap s"]
  have load: "reader_inv N h (at_pc t p s)" if "is_enqueue p \<longleftrightarrow> is_enqueue (threads s ! t)" for p
    using push [OF that, of "m_write_index s"] by simp
  show ?thesis
  proof (cases "threads s ! t")
    case (Reserve l)
    then show ?thesis
      using push [of "if m_write_index s < N then Slot l (m_write_index s) else Spin l" "Suc (m_write_index s)"] assms(4)
      by (simp add: reserve_def Let_def)
  next
    case (Have l i b)
    with assms(4) show ?thesis using n held
      by (auto intro!: reader_inv_buffer [OF assms(2,3) _ _ h] simp: Buffer_construct_def)
  next
    case (Built l i b)
    with assms(4) show ?thesis using n by (auto intro!: reader_inv_buffer [OF assms(2,3) _ _ h] simp: Buffer_publish_def)
  next
    case (Published b)
    let ?p = "if m_write_count (heap s ! b) + 1 = N then Setup else Idle"
    have "is_enqueue ?p \<longleftrightarrow> is_enqueue (threads s ! t)" using Published by simp
    note rb = reader_inv_buffer [OF assms(2,3) this _ h, of b Buffer_count]
    obtain s1 where s1: "on_buffer b Buffer_count s = Some s1" "s' = at_pc t ?p s1" using Published assms(4) by auto
    have "b = length bs" using n Published by simp
    from rb [OF s1(1) this] show ?thesis unfolding s1(2) by (simp add: Buffer_count_def)
  qed (use assms alloc_reader_inv [OF assms(1-3)] enqueue_reader_inv [OF assms(1-3)] load in \<open>auto simp: spin_def\<close>)
qed

text \<open>Freeing a buffer does not matter to the pushing threads' part of the invariant.\<close>

lemma free_contents: "b < length H \<Longrightarrow> contents N (H[b := (H ! b)\<lparr>live := False\<rparr>]) = contents N H"
proof -
  assume "b < length H"
  have "lines_of N ((H ! b)\<lparr>live := False\<rparr>) = lines_of N (H ! b)" by (simp add: lines_of_def)
  then have "map (lines_of N) (H[b := (H ! b)\<lparr>live := False\<rparr>]) = map (lines_of N) H"
    using \<open>b < length H\<close> by (metis list_update_id map_update nth_map)
  then show ?thesis by (simp add: contents_def)
qed

lemma free_push_inv:
  assumes "push_inv N T w cur H" "b < length H"
  shows "push_inv N T w cur (H[b := (H ! b)\<lparr>live := False\<rparr>])"
proof -
  from assms(1) obtain bs B where h: "H = bs @ [B]" "cur = length bs" by (rule push_inv_snocE)
  show ?thesis
  proof (cases "b = length bs")
    case True
    then show ?thesis using assms(1) by (simp add: h push_inv_snoc)
  next
    case False
    then have b: "b < length bs" using assms(2) h by simp
    let ?bs = "bs[b := (bs ! b)\<lparr>live := False\<rparr>]"
    have sub: "\<exists>B'' \<in> set bs. m_write_state B' = m_write_state B'' \<and> m_buffer B' = m_buffer B''" if "B' \<in> set ?bs" for B'
    proof -
      have "B' \<in> insert ((bs ! b)\<lparr>live := False\<rparr>) (set bs)" using that set_update_subset_insert by fast
      then show ?thesis using nth_mem [OF b] by auto
    qed
    have full: "\<forall>B' \<in> set bs. \<forall>i. m_write_state B' i \<longleftrightarrow> i < N"
      and some: "\<forall>B' \<in> set (bs @ [B]). \<forall>i. m_write_state B' i \<longrightarrow> m_buffer B' i \<noteq> None"
      using assms(1) unfolding h push_inv_snoc by auto
    have "\<forall>B' \<in> set ?bs. \<forall>i. m_write_state B' i \<longleftrightarrow> i < N" using sub full by metis
    moreover have "\<forall>B' \<in> set (?bs @ [B]). \<forall>i. m_write_state B' i \<longrightarrow> m_buffer B' i \<noteq> None"
      using sub some by (metis Un_iff set_append)
    moreover have "H[b := (H ! b)\<lparr>live := False\<rparr>] = ?bs @ [B]" using b h by (simp add: nth_append list_update_append)
    ultimately show ?thesis using assms(1) unfolding h push_inv_snoc length_list_update by (simp only: push_inv_snoc length_list_update) blast
  qed
qed

lemma pop_start_inv:
  assumes "reader_inv N h s" "reader s = Start"
  shows "reader_inv N h (pop_start s)"
  using assms by (auto simp: reader_inv_def pop_start_def Let_def pop_count_def split: option.splits)

lemma pop_check_defined:
  assumes "writers_inv N s" "reader_inv N h s" "reader s = Check"
  shows "\<exists>s'. pop_check N s = Some s' \<and> reader_inv N h s' \<and> writers_inv N s' \<and> pushed s' = pushed s \<and> threads s' = threads s
    \<and> heap s' = heap s \<and> m_write_index s' = m_write_index s
    \<and> (if slot_published N (heap s) (h * N + m_read_index s)
       then popped s' = popped s @ [slot_line N (heap s) (h * N + m_read_index s)] \<and> reader s' \<noteq> Check
       else popped s' = popped s \<and> reader s' = Start)"
proof -
  let ?r = "m_read_index s"
  have r: "m_current_read_buffer s = Some h" "h < enqueued s" "?r < N" "reader s \<noteq> Free"
    using assms(2,3) by (auto simp: reader_inv_def split: option.splits)
  have h: "h < length (heap s)" using r(2) by (auto simp: enqueued_def split: if_splits)
  have l: "live (heap s ! h)" using assms(2) h by (simp add: reader_inv_def)
  have k: "(h * N + ?r) div N = h" "(h * N + ?r) mod N = ?r" using r(3) by auto
  have n: "pop_count N h s = h * N + ?r" using r(4) by (simp add: pop_count_def)
  have p: "slot_published N (heap s) (h * N + ?r) \<longleftrightarrow> m_write_state (heap s ! h) ?r"
    using h k by (simp add: slot_published_def)
  show ?thesis
  proof (cases "m_write_state (heap s ! h) ?r")
    case True
    have "m_buffer (heap s ! h) ?r \<noteq> None" by (rule published_item [OF assms(1) nth_mem [OF h] True])
    then obtain x where x: "m_buffer (heap s ! h) ?r = Some x" by blast
    have sl: "slot_line N (heap s) (h * N + ?r) = x" using x k by (simp add: slot_line_def)
    let ?s = "s\<lparr>popped := popped s @ [x], m_read_index := Suc ?r\<rparr>"
    let ?t = "if Suc ?r = N then ?s\<lparr>m_read_index := 0, m_current_read_buffer := None, reader := Free\<rparr> else ?s\<lparr>reader := Start\<rparr>"
    have c: "pop_check N s = Some ?t" using r h l True x by (simp add: pop_check_def Let_def)
    have m: "pop_count N h ?t = Suc (h * N + ?r)" by (auto simp: pop_count_def)
    have "popped ?t = map (slot_line N (heap s)) [0..<Suc (h * N + ?r)]" using assms(2) n sl by (simp add: reader_inv_def)
    moreover have "slot_published N (heap s) j" if "j < Suc (h * N + ?r)" for j
      using that assms(2) n p True by (auto simp: reader_inv_def less_Suc_eq)
    ultimately have "reader_inv N h ?t"
      using assms(2) r m by (auto simp: reader_inv_def)
    moreover have "writers_inv N ?t" using assms(1) by (simp add: writers_inv_def)
    ultimately show ?thesis using c True p sl by simp
  next
    case False
    then have "pop_check N s = Some (s\<lparr>reader := Start\<rparr>)" using r h l by (simp add: pop_check_def)
    moreover have "reader_inv N h (s\<lparr>reader := Start\<rparr>)" using assms(2) r by (auto simp: reader_inv_def pop_count_def)
    moreover have "writers_inv N (s\<lparr>reader := Start\<rparr>)" using assms(1) by (simp add: writers_inv_def)
    ultimately show ?thesis using False p by simp
  qed
qed

lemma pop_free_defined:
  assumes "writers_inv N s" "reader_inv N h s" "reader s = Free"
  shows "\<exists>s'. pop_free s = Some s' \<and> reader_inv N (Suc h) s' \<and> writers_inv N s' \<and> pushed s' = pushed s \<and> threads s' = threads s
    \<and> m_write_index s' = m_write_index s \<and> popped s' = popped s \<and> reader s' = Start \<and> contents N (heap s') = contents N (heap s)"
proof -
  have r: "m_current_read_buffer s = None" "h < enqueued s" "m_buffers s = [h..<enqueued s]" "m_read_index s = 0"
    using assms(2,3) by (auto simp: reader_inv_def)
  then have b: "m_buffers s = h # [Suc h..<enqueued s]" by (simp add: upt_conv_Cons)
  have h: "h < length (heap s)" using r(2) by (auto simp: enqueued_def split: if_splits)
  have l: "live (heap s ! h)" using assms(2) h by (simp add: reader_inv_def)
  let ?H = "(heap s)[h := (heap s ! h)\<lparr>live := False\<rparr>]"
  let ?t = "s\<lparr>m_buffers := [Suc h..<enqueued s], reader := Start, heap := ?H\<rparr>"
  have f: "pop_free s = Some ?t" using b h l by (simp add: pop_free_def on_buffer_def)
  have e: "enqueued ?t = enqueued s" by (simp add: enqueued_def)
  have n: "pop_count N (Suc h) ?t = pop_count N h s" using r assms(3) by (simp add: pop_count_def)
  have s: "slot_published N ?H k = slot_published N (heap s) k" "slot_line N ?H k = slot_line N (heap s) k" for k
    using h by (auto simp: slot_published_def slot_line_def nth_list_update)
  have "reader_inv N (Suc h) ?t"
    using assms(2) r h n e s by (auto simp: reader_inv_def nth_list_update le_eq_less_or_eq)
  moreover have "writers_inv N ?t"
    using assms(1) free_push_inv [OF _ h] free_contents [OF h] by (auto simp: writers_inv_def order_inv_def)
  ultimately show ?thesis using f free_contents [OF h] by simp
qed

section \<open>Reachable states\<close>

definition queue_inv :: "nat \<Rightarrow> 'l QueueBuffer \<Rightarrow> bool" where
  "queue_inv N s \<longleftrightarrow> writers_inv N s \<and> (\<exists>h. reader_inv N h s)"

lemma queue_inv_new: "N > 0 \<Longrightarrow> queue_inv N (QueueBuffer_new n)"
proof -
  assume "N > 0"
  have "push_inv N (replicate n Idle) 0 0 ([] @ [Buffer_new])"
    unfolding push_inv_snoc using \<open>N > 0\<close>
    by (auto simp: slots_ok_def slot_ok_def given_def holders_def setup_ok_def items_ok_def Buffer_new_def)
  moreover have "order_inv N (replicate n Idle) [Buffer_new] []"
    by (simp add: order_inv_def contents_def under_way_def)
  moreover have "reader_inv N 0 (QueueBuffer_new n)"
    using \<open>N > 0\<close> by (auto simp: reader_inv_def QueueBuffer_new_def enqueued_def pop_count_def Buffer_new_def)
  ultimately show ?thesis by (auto simp: queue_inv_def writers_inv_def QueueBuffer_new_def)
qed

lemma call_reader_inv:
  assumes "reader_inv N h s" "t < length (threads s)" "threads s ! t = Idle"
  shows "reader_inv N h (at_pc t (Reserve l) (s\<lparr>pushed := ps\<rparr>))"
proof -
  have e: "enqueued (at_pc t (Reserve l) (s\<lparr>pushed := ps\<rparr>)) = enqueued s"
    by (rule enqueued_same [OF assms(2), of "Reserve l" "heap s"]) (use assms in \<open>simp_all add: at_pc_def\<close>)
  show ?thesis using assms(1) by (intro reader_inv_grows [OF assms(1)]) (auto simp: e reader_inv_def)
qed

lemma pop_step_inv:
  assumes "queue_inv N s"
  shows "\<exists>s'. pop_step N (reader s) s = Some s' \<and> queue_inv N s'"
proof -
  from assms obtain h where i: "writers_inv N s" "reader_inv N h s" by (auto simp: queue_inv_def)
  have w: "writers_inv N (pop_start s)" using i(1) by (simp add: writers_inv_def pop_start_def Let_def)
  show ?thesis
    using pop_start_inv [OF i(2)] w pop_check_defined [OF i] pop_free_defined [OF i]
    by (cases "reader s") (auto simp: queue_inv_def)
qed

lemma step_inv:
  assumes "queue_inv N s" "N > 0" "step N e s = Some s'"
  shows "queue_inv N s'"
proof -
  from assms(1) obtain h where i: "writers_inv N s" "reader_inv N h s" by (auto simp: queue_inv_def)
  show ?thesis
  proof (cases e)
    case (Call t l)
    with assms(1,3) call_inv [OF i(1), of t l] call_reader_inv [OF i(2), of t l] show ?thesis
      by (cases "t < length (threads s) \<and> threads s ! t = Idle") (auto simp: queue_inv_def)
  next
    case (Push t)
    with assms push_step_inv [OF i(1), of t s'] push_step_reader_inv [OF i, of t s'] show ?thesis
      by (cases "t < length (threads s)") (auto simp: queue_inv_def)
  next
    case Pop
    with assms(3) pop_step_inv [OF assms(1)] show ?thesis by auto
  qed
qed

lemma run_inv: "queue_inv N s \<Longrightarrow> N > 0 \<Longrightarrow> run N es s = Some s' \<Longrightarrow> queue_inv N s'"
  by (induction es arbitrary: s) (auto simp: bind_eq_Some_conv dest: step_inv)

section \<open>What was popped and what is left\<close>

lemma contents_slots:
  "N > 0 \<Longrightarrow> contents N H = map (slot_line N H) (filter (slot_published N H) [0..<length H * N])"
proof (induction H rule: rev_induct)
  case (snoc B H)
  let ?n = "length H * N"
  have old: "slot_published N (H @ [B]) k = slot_published N H k" "slot_line N (H @ [B]) k = slot_line N H k" if "k < ?n" for k
    using that by (auto simp: slot_published_def slot_line_def nth_append less_mult_imp_div_less)
  have new: "slot_published N (H @ [B]) (?n + i) = m_write_state B i" "slot_line N (H @ [B]) (?n + i) = the (m_buffer B i)"
    if "i < N" for i
    using that by (auto simp: slot_published_def slot_line_def)
  have u: "[0..<length (H @ [B]) * N] = [0..<?n] @ map (\<lambda>i. ?n + i) [0..<N]"
    using upt_add_eq_append [of 0 ?n N] map_add_upt [of ?n N] by (simp add: add.commute)
  have "map (slot_line N (H @ [B])) (filter (slot_published N (H @ [B])) [0..<?n]) = contents N H"
    using snoc old by (auto intro!: map_cong filter_cong)
  moreover have "filter (\<lambda>i. slot_published N (H @ [B]) (?n + i)) [0..<N] = filter (m_write_state B) [0..<N]"
    using new(1) by (intro filter_cong) auto
  then have "map (slot_line N (H @ [B])) (filter (slot_published N (H @ [B])) (map (\<lambda>i. ?n + i) [0..<N])) = lines_of N B"
    using new(2) by (auto simp: filter_map o_def lines_of_def)
  ultimately show ?case by (simp only: u filter_append map_append contents_snoc)
qed (simp add: contents_def)

lemma popped_prefix:
  assumes "reader_inv N h s" "N > 0"
  shows "contents N (heap s) = popped s @ map (slot_line N (heap s))
    (filter (slot_published N (heap s)) [pop_count N h s..<length (heap s) * N])"
proof -
  let ?n = "pop_count N h s" let ?m = "length (heap s) * N"
  have p: "\<forall>k < ?n. slot_published N (heap s) k" "popped s = map (slot_line N (heap s)) [0..<?n]"
    using assms(1) by (auto simp: reader_inv_def)
  have "k < ?m" if "slot_published N (heap s) k" for k
    using that assms(2) by (simp add: slot_published_def div_less_iff_less_mult)
  with p(1) have "?n \<le> ?m" by (cases ?n) (auto simp: Suc_le_eq)
  then have "[0..<?m] = [0..<?n] @ [?n..<?m]" using upt_add_eq_append [of 0 ?n "?m - ?n"] by simp
  moreover have "filter (slot_published N (heap s)) [0..<?n] = [0..<?n]" using p(1) by (simp add: filter_id_conv)
  ultimately show ?thesis using contents_slots [OF assms(2), of "heap s"] p(2) by simp
qed

lemma idle_no_gaps:
  assumes "writers_inv N s" "\<forall>t < length (threads s). threads s ! t = Idle" "N > 0"
    "slot_published N (heap s) k" "j < k"
  shows "slot_published N (heap s) j"
proof -
  from assms(1) obtain bs B where h: "heap s = bs @ [B]"
    and i: "push_inv N (threads s) (m_write_index s) (m_current_write_buffer s) (bs @ [B])" by (rule writers_invE)
  note ok = push_inv_current [OF i]
  have le: "j div N \<le> k div N" "k div N \<le> length bs"
    using assms(4,5) h by (auto simp: div_le_mono slot_published_def)
  show ?thesis
  proof (cases "j div N = length bs")
    case True
    then have e: "k div N = length bs" using le by simp
    have m: "j mod N < k mod N" using assms(5) True e by (metis div_mult_mod_eq nat_add_left_cancel_less)
    have "m_write_state B (k mod N)" using assms(4) h e by (simp add: slot_published_def)
    then have "j mod N < given (threads s) (m_write_index s)" using published_slot(2) [OF ok(1)] m by fastforce
    moreover have "holders (threads s) (j mod N) = {}" using assms(2) by (auto simp: holders_def)
    ultimately have "m_write_state B (j mod N)"
      using ok(1) assms(3) by (auto simp: slots_ok_def slot_ok_def dest!: spec [of _ "j mod N"] split: if_splits)
    then show ?thesis using True h by (simp add: slot_published_def)
  next
    case False
    then have "j div N < length bs" using le by simp
    moreover have "\<forall>B' \<in> set bs. \<forall>i. m_write_state B' i \<longleftrightarrow> i < N" using i unfolding push_inv_snoc by blast
    ultimately show ?thesis using h assms(3) by (simp add: slot_published_def nth_append)
  qed
qed

lemma idle_unpublished:
  assumes "writers_inv N s" "reader_inv N h s" "\<forall>t < length (threads s). threads s ! t = Idle" "N > 0"
    "\<not> slot_published N (heap s) (pop_count N h s)"
  shows "contents N (heap s) = popped s"
proof -
  have "\<not> slot_published N (heap s) k" if "pop_count N h s \<le> k" for k
    using idle_no_gaps [OF assms(1,3,4), of k "pop_count N h s"] that assms(5) by (cases "k = pop_count N h s") auto
  then show ?thesis using popped_prefix [OF assms(2,4)] by (auto simp: filter_empty_conv)
qed

lemma idle_enqueued: "\<forall>t < length (threads s). threads s ! t = Idle \<Longrightarrow> enqueued s = length (heap s)"
  by (auto simp: enqueued_def)

lemma try_pop_idle:
  assumes "writers_inv N s" "reader_inv N h s" "reader s = Start" "N > 0" "enqueued s = length (heap s)"
  shows "\<exists>b s' h'. try_pop N s = Some (b, s') \<and> writers_inv N s' \<and> reader_inv N h' s' \<and> reader s' = Start \<and>
    threads s' = threads s \<and> pushed s' = pushed s \<and> contents N (heap s') = contents N (heap s) \<and>
    (if slot_published N (heap s) (pop_count N h s) then b \<and> length (popped s') = Suc (length (popped s))
     else \<not> b \<and> popped s' = popped s \<and> heap s' = heap s \<and> pop_count N h' s' = pop_count N h s)"
proof -
  let ?s = "pop_start s"
  have r1: "reader_inv N h ?s" by (rule pop_start_inv [OF assms(2,3)])
  have w1: "writers_inv N ?s" using assms(1) by (simp add: writers_inv_def pop_start_def Let_def)
  have same: "heap ?s = heap s" "popped ?s = popped s" "m_read_index ?s = m_read_index s" "threads ?s = threads s" "pushed ?s = pushed s"
    by (simp_all add: pop_start_def Let_def)
  have n: "pop_count N h s = h * N + m_read_index s" using assms(3) by (simp add: pop_count_def)
  show ?thesis
  proof (cases "reader ?s = Start")
    case True
    then have q: "m_current_read_buffer s = None" "m_buffers s = []"
      by (auto simp: pop_start_def Let_def split: option.splits if_splits)
    then have "[h..<length (heap s)] = []" "h \<le> length (heap s)" "m_read_index s = 0"
      using assms(2,5) by (auto simp: reader_inv_def simp del: upt_eq_Nil_conv)
    then have "h = length (heap s)" "m_read_index s = 0" by auto
    then have "\<not> slot_published N (heap s) (pop_count N h s)" using n assms(4) by (simp add: slot_published_def)
    moreover have "pop_count N h ?s = pop_count N h s" using True assms(3) same by (simp add: pop_count_def)
    ultimately show ?thesis using True r1 w1 same by (auto simp: try_pop_def Let_def)
  next
    case False
    then have c: "reader ?s = Check" by (auto simp: pop_start_def Let_def split: if_splits)
    from pop_check_defined [OF w1 r1 c] obtain s2 where s2: "pop_check N ?s = Some s2" "reader_inv N h s2" "writers_inv N s2"
      "pushed s2 = pushed s" "threads s2 = threads s" "heap s2 = heap s"
      "if slot_published N (heap s) (pop_count N h s)
       then popped s2 = popped s @ [slot_line N (heap s) (pop_count N h s)] \<and> reader s2 \<noteq> Check
       else popped s2 = popped s \<and> reader s2 = Start"
      using same n by auto
    show ?thesis
    proof (cases "slot_published N (heap s) (pop_count N h s)")
      case True
      show ?thesis
      proof (cases "reader s2 = Free")
        case fr: True
        from pop_free_defined [OF s2(3,2) fr] obtain s3 where "pop_free s2 = Some s3" "reader_inv N (Suc h) s3" "writers_inv N s3"
          "pushed s3 = pushed s2" "threads s3 = threads s2" "popped s3 = popped s2" "reader s3 = Start"
          "contents N (heap s3) = contents N (heap s2)" by blast
        with True s2 False same fr show ?thesis by (auto simp: try_pop_def Let_def)
      next
        case nf: False
        then have "reader s2 = Start" using True s2(7) by (cases "reader s2") auto
        with True s2 False same nf show ?thesis by (auto simp: try_pop_def Let_def)
      qed
    next
      case np: False
      then have "popped s2 = popped s" "reader s2 = Start" using s2(7) by auto
      moreover have "pop_count N h s2 = pop_count N h s"
      proof -
        have "pop_count N h s2 = length (popped s2)" using s2(2) by (simp add: reader_inv_def)
        moreover have "pop_count N h s = length (popped s)" using assms(2) by (simp add: reader_inv_def)
        ultimately show ?thesis using \<open>popped s2 = popped s\<close> by simp
      qed
      ultimately show ?thesis using np s2 False same by (auto simp: try_pop_def Let_def)
    qed
  qed
qed

lemma drain_idle:
  assumes "writers_inv N s" "reader_inv N h s" "reader s = Start" "N > 0" "\<forall>t < length (threads s). threads s ! t = Idle"
  shows "\<exists>s'. drain N s = Some s' \<and> popped s' = contents N (heap s) \<and> pushed s' = pushed s"
  using assms
proof (induction "length (contents N (heap s)) - length (popped s)" arbitrary: s h rule: less_induct)
  case less
  from try_pop_idle [OF less.prems(1-4) idle_enqueued [OF less.prems(5)]] obtain b s1 h1 where
    t: "try_pop N s = Some (b, s1)" "writers_inv N s1" "reader_inv N h1 s1" "reader s1 = Start"
      "threads s1 = threads s" "pushed s1 = pushed s" "contents N (heap s1) = contents N (heap s)"
      "if slot_published N (heap s) (pop_count N h s) then b \<and> length (popped s1) = Suc (length (popped s))
       else \<not> b \<and> popped s1 = popped s \<and> heap s1 = heap s \<and> pop_count N h1 s1 = pop_count N h s" by blast
  show ?case
  proof (cases "slot_published N (heap s) (pop_count N h s)")
    case True
    have "length (popped s1) \<le> length (contents N (heap s1))" using popped_prefix [OF t(3) less.prems(4)] by simp
    with True t(7,8) have "length (contents N (heap s1)) - length (popped s1) < length (contents N (heap s)) - length (popped s)"
      by auto
    from less.hyps [OF this t(2-4) less.prems(4)] less.prems(5) t(5) obtain s' where
      "drain N s1 = Some s'" "popped s' = contents N (heap s1)" "pushed s' = pushed s1" by auto
    then show ?thesis using True t by (subst drain.simps) auto
  next
    case False
    then have "contents N (heap s) = popped s" using idle_unpublished [OF less.prems(1,2,5,4)] by simp
    then show ?thesis using False t by (subst drain.simps) auto
  qed
qed

lemmas action_defs = at_pc_def on_buffer_def reserve_def spin_def Buffer_construct_def Buffer_publish_def Buffer_count_def
  setup_alloc_def setup_enqueue_def pop_start_def pop_check_def pop_free_def Let_def

text \<open>
  C5: the queue of the logger loses no line and keeps the order of every thread: over all
  interleavings of any number of pushing threads and the reading thread that run without undefined
  behaviour, what was popped of a thread's lines is at any time the first part of what it pushed;
  and once no push is under way, emptying the queue ends and has popped every line that was pushed.
\<close>

theorem queue_keeps_every_line:
  assumes "N > 0" "run N es (QueueBuffer_new n) = Some s"
  shows "(\<forall>t. prefix (filter (\<lambda>x. fst x = t) (popped s)) (filter (\<lambda>x. fst x = t) (pushed s))) \<and>
    ((\<forall>t < length (threads s). threads s ! t = Idle) \<and> reader s = Start \<longrightarrow>
      (\<exists>s'. drain N s = Some s' \<and> (\<forall>t. filter (\<lambda>x. fst x = t) (popped s') = filter (\<lambda>x. fst x = t) (pushed s))))"
proof -
  have "queue_inv N s" using run_inv [OF queue_inv_new assms(1,2)] assms(1) .
  then obtain h where i: "writers_inv N s" "reader_inv N h s" by (auto simp: queue_inv_def)
  have o: "filter (\<lambda>x. fst x = t) (pushed s) = filter (\<lambda>x. fst x = t) (contents N (heap s)) @ under_way (threads s) t" for t
    using i(1) by (simp add: writers_inv_def order_inv_def)
  show ?thesis
  proof (intro conjI allI impI)
    fix t
    show "prefix (filter (\<lambda>x. fst x = t) (popped s)) (filter (\<lambda>x. fst x = t) (pushed s))"
      unfolding o popped_prefix [OF i(2) assms(1)] filter_append append_assoc by (rule prefixI [OF refl])
  next
    assume idle: "(\<forall>t < length (threads s). threads s ! t = Idle) \<and> reader s = Start"
    then obtain s' where s': "drain N s = Some s'" "popped s' = contents N (heap s)" using drain_idle [OF i _ assms(1)] by blast
    moreover have "under_way (threads s) t = []" for t using idle by (simp add: under_way_def)
    ultimately show "\<exists>s'. drain N s = Some s' \<and> (\<forall>t. filter (\<lambda>x. fst x = t) (popped s') = filter (\<lambda>x. fst x = t) (pushed s))"
      using o by auto
  qed
qed

theorem queue_keeps_every_line_witness:
  "\<exists>s s'. run 1 ([Call 0 CHR ''a'', Call 1 CHR ''b'', Push 0, Push 1] @ replicate 6 (Push 0) @ [Push 1, Pop, Pop, Pop] @ replicate 7 (Push 1))
        (QueueBuffer_new 2) = Some s \<and>
     drain 1 s = Some s' \<and> filter (\<lambda>x. fst x = 1) (popped s') = [(1, CHR ''b'')]"
proof -
  let ?es = "[Call 0 CHR ''a'', Call 1 CHR ''b'', Push 0, Push 1] @ replicate 6 (Push 0) @ [Push 1, Pop, Pop, Pop] @ replicate 7 (Push 1)"
  obtain s where s: "run 1 ?es (QueueBuffer_new 2) = Some s" "threads s = [Idle, Idle]" "reader s = Start"
    "filter (\<lambda>x. fst x = 1) (pushed s) = [(1, CHR ''b'')]"
    by (simp add: QueueBuffer_new_def Buffer_new_def action_defs numeral_eq_Suc)
  then have "\<forall>t < length (threads s). threads s ! t = Idle" by (auto simp: less_Suc_eq)
  with queue_keeps_every_line [OF _ s(1)] s obtain s' where
    "drain 1 s = Some s'" "filter (\<lambda>x. fst x = 1) (popped s') = filter (\<lambda>x. fst x = 1) (pushed s)" by auto
  with s show ?thesis by auto
qed

section \<open>The last access to a buffer\<close>

lemma unpublished_live:
  assumes "writers_inv N s" "reader_inv N h s" "N > 0" "heap s = bs @ [B]" "i < N" "\<not> m_write_state B i"
  shows "live B"
proof (rule ccontr)
  assume "\<not> live B"
  then have "length bs < h" using assms(2,4) by (auto simp: reader_inv_def dest!: spec [of _ "length bs"])
  then have "length bs * N + i < h * N" using assms(5) by (metis add_less_cancel_left less_le_trans mult_Suc mult_le_mono1 Suc_leI add.commute)
  then have "slot_published N (heap s) (length bs * N + i)" using assms(2) by (simp add: reader_inv_def pop_count_def)
  then show False using assms(4-6) by (simp add: slot_published_def)
qed

lemma step_undefined:
  assumes "queue_inv N s" "N > 0" "step N e s = None"
  shows "\<exists>t. e = Push t \<and> t < length (threads s) \<and> threads s ! t = Published (m_current_write_buffer s) \<and>
    \<not> live (heap s ! m_current_write_buffer s) \<and> (\<forall>i < N. m_write_state (heap s ! m_current_write_buffer s) i)"
proof -
  from assms(1) obtain h where inv: "writers_inv N s" "reader_inv N h s" by (auto simp: queue_inv_def)
  from inv(1) obtain bs B where b: "heap s = bs @ [B]"
    and i: "push_inv N (threads s) (m_write_index s) (m_current_write_buffer s) (bs @ [B])" by (rule writers_invE)
  have cur: "m_current_write_buffer s = length bs" using i by (simp add: push_inv_snoc)
  from assms(3) pop_step_inv [OF assms(1)] obtain t where t: "e = Push t" "t < length (threads s)" "push_step N t (threads s ! t) s = None"
    by (cases e) (auto split: if_splits)
  have n: "names (threads s ! t) = Some a \<Longrightarrow> a = length bs" for a using i t(2) cur by (auto simp: push_inv_snoc)
  have held: "holds (threads s ! t) = Some j \<Longrightarrow> live B" for j
    using unpublished_live [OF inv assms(2) b] held_slot [OF push_inv_current(1) [OF i] t(2), of j] by blast
  have full: "\<not> live B \<Longrightarrow> \<forall>j < N. m_write_state B j" using unpublished_live [OF inv assms(2) b] by blast
  show ?thesis
    using t n held full b cur by (cases "threads s ! t") (auto simp: on_buffer_def split: if_splits)
qed

lemma run_append: "run N (es @ es') s = Option.bind (run N es s) (run N es')"
  by (induction es arbitrary: s) (auto intro: bind_assoc [symmetric] split: bind_splits)

definition filled :: "nat \<Rightarrow> 'l QueueBuffer \<Rightarrow> bool" where
  "filled k s \<longleftrightarrow> threads s = [Idle, Idle] \<and> m_write_index s = k \<and> m_current_write_buffer s = 0 \<and> m_buffers s = [0] \<and>
     m_current_read_buffer s = None \<and> m_read_index s = 0 \<and> reader s = Start \<and>
     (\<exists>B. heap s = [B] \<and> live B \<and> m_write_count B = k \<and> (\<forall>i < k. m_write_state B i \<and> m_buffer B i \<noteq> None))"

lemma fill_next:
  assumes "filled k s" "k + 1 < N"
  shows "\<exists>s'. run N (Call 0 l # replicate 5 (Push 0)) s = Some s' \<and> filled (k + 1) s'"
  using assms by (auto simp: filled_def action_defs numeral_eq_Suc less_Suc_eq)

lemma fill: "k < N \<Longrightarrow> \<exists>es s. run N es (QueueBuffer_new 2 :: 'l QueueBuffer) = Some s \<and> filled k s"
proof (induction k)
  case 0
  have "filled 0 (QueueBuffer_new 2)" by (simp add: filled_def QueueBuffer_new_def Buffer_new_def numeral_eq_Suc)
  then show ?case by (intro exI [of _ "[]"]) simp
next
  case (Suc k)
  then obtain es s where s: "run N es (QueueBuffer_new 2 :: 'l QueueBuffer) = Some s" "filled k s" by auto
  with fill_next [OF s(2), of N undefined] Suc.prems obtain s' where
    "run N (Call 0 undefined # replicate 5 (Push 0)) s = Some s'" "filled (Suc k) s'" by auto
  with s(1) have "run N (es @ Call 0 undefined # replicate 5 (Push 0)) (QueueBuffer_new 2) = Some s'" by (simp add: run_append)
  with \<open>filled (Suc k) s'\<close> show ?case by blast
qed

definition reading :: "nat \<Rightarrow> nat \<Rightarrow> 'l QueueBuffer \<Rightarrow> bool" where
  "reading N r s \<longleftrightarrow> threads s = [Idle, Published 0] \<and> m_buffers s = [0] \<and> m_current_read_buffer s \<in> {None, Some 0} \<and>
     m_read_index s = r \<and> reader s = Start \<and>
     (\<exists>B. heap s = [B] \<and> live B \<and> (\<forall>i < N. m_write_state B i \<and> m_buffer B i \<noteq> None))"

lemma publish_last:
  assumes "filled k s" "N = Suc k"
  shows "\<exists>s'. run N (Call 1 l # replicate 4 (Push 1)) s = Some s' \<and> reading N 0 s'"
  using assms by (auto simp: filled_def reading_def action_defs numeral_eq_Suc less_Suc_eq)

lemma read_next:
  assumes "reading N r s" "r + 1 < N"
  shows "\<exists>s'. run N [Pop, Pop] s = Some s' \<and> reading N (r + 1) s'"
proof -
  from assms obtain B where "heap s = [B]" "live B" "\<forall>i < N. m_write_state B i \<and> m_buffer B i \<noteq> None" by (auto simp: reading_def)
  moreover from this assms(2) obtain x where "m_buffer B r = Some x" "m_write_state B r" by (metis add_lessD1 not_None_eq)
  ultimately show ?thesis using assms by (auto simp: reading_def action_defs split: option.splits)
qed

lemma read_all: "r < N \<Longrightarrow> reading N 0 s \<Longrightarrow> \<exists>es s'. run N es s = Some s' \<and> reading N r s'"
proof (induction r)
  case 0
  then show ?case by (intro exI [of _ "[]"]) simp
next
  case (Suc r)
  then obtain es s1 where s1: "run N es s = Some s1" "reading N r s1" by auto
  with read_next [OF s1(2)] Suc.prems(1) obtain s2 where "run N [Pop, Pop] s1 = Some s2" "reading N (Suc r) s2" by auto
  with s1(1) have "run N (es @ [Pop, Pop]) s = Some s2" by (simp add: run_append)
  with \<open>reading N (Suc r) s2\<close> show ?case by blast
qed

lemma count_after_free:
  assumes "reading N r s" "N = Suc r"
  shows "run N [Pop, Pop, Pop, Push 1] s = None"
proof -
  from assms obtain B where "heap s = [B]" "live B" "\<forall>i < N. m_write_state B i \<and> m_buffer B i \<noteq> None" by (auto simp: reading_def)
  moreover from this assms(2) obtain x where "m_buffer B r = Some x" "m_write_state B r" by (metis lessI not_None_eq)
  ultimately show ?thesis using assms by (auto simp: reading_def action_defs split: option.splits)
qed

text \<open>
  C37: the queue has one use after free: a schedule of two pushing threads and the reading thread
  leads to an access to a freed buffer, for every size of the buffers, and whenever an action is
  undefined it is the count of a thread whose line was already read together with all the others of
  the buffer.
\<close>

theorem queue_counts_in_freed_buffer:
  assumes "N > 0"
  shows "(\<exists>es. run N es (QueueBuffer_new 2 :: 'l QueueBuffer) = None) \<and>
    (\<forall>es n s e. run N es (QueueBuffer_new n :: 'l QueueBuffer) = Some s \<and> step N e s = None \<longrightarrow>
      (\<exists>t. e = Push t \<and> threads s ! t = Published (m_current_write_buffer s) \<and> \<not> live (heap s ! m_current_write_buffer s) \<and>
        (\<forall>i < N. m_write_state (heap s ! m_current_write_buffer s) i)))"
proof (intro conjI allI impI)
  obtain k where k: "N = Suc k" using assms by (cases N) auto
  obtain es s where s: "run N es (QueueBuffer_new 2 :: 'l QueueBuffer) = Some s" "filled k s" using fill [of k N] k by auto
  from publish_last [OF s(2) k, of undefined] obtain s1 where
    s1: "run N (Call 1 undefined # replicate 4 (Push 1)) s = Some s1" "reading N 0 s1" by blast
  from read_all [of k N s1] s1(2) k obtain es2 s2 where s2: "run N es2 s1 = Some s2" "reading N k s2" by auto
  have "run N (es @ (Call 1 undefined # replicate 4 (Push 1)) @ es2 @ [Pop, Pop, Pop, Push 1]) (QueueBuffer_new 2 :: 'l QueueBuffer) = None"
    unfolding run_append s(1) bind.simps s1(1) s2(1) using count_after_free [OF s2(2) k] by simp
  then show "\<exists>es. run N es (QueueBuffer_new 2 :: 'l QueueBuffer) = None" by blast
next
  fix es n e and s :: "'l QueueBuffer"
  assume "run N es (QueueBuffer_new n) = Some s \<and> step N e s = None"
  then show "\<exists>t. e = Push t \<and> threads s ! t = Published (m_current_write_buffer s) \<and> \<not> live (heap s ! m_current_write_buffer s) \<and>
        (\<forall>i < N. m_write_state (heap s ! m_current_write_buffer s) i)"
    using step_undefined [OF run_inv [OF queue_inv_new]] assms by blast
qed

theorem queue_counts_in_freed_buffer_witness:
  "\<exists>es. run Buffer_size es (QueueBuffer_new 2 :: char QueueBuffer) = None"
  using queue_counts_in_freed_buffer [of Buffer_size] by (auto simp: Buffer_size_def)

text \<open>
  The write index never exceeds the size of a buffer by more than the number of threads, so that
  with fewer than \<open>2 ^ 32 - N\<close> of them the 32-bit counter does not wrap around.
\<close>

lemma write_index_bound:
  assumes "N > 0" "run N es (QueueBuffer_new n) = Some s"
  shows "m_write_index s \<le> N + length (threads s)"
proof -
  have "queue_inv N s" using run_inv [OF queue_inv_new assms(1,2)] assms(1) .
  then obtain bs B where "push_inv N (threads s) (m_write_index s) (m_current_write_buffer s) (bs @ [B])"
    by (auto simp: queue_inv_def elim: writers_invE)
  from push_inv_current(2) [OF this] have "m_write_index s \<le> N + length (filter is_spin (threads s))" by (simp add: setup_ok_def)
  also have "\<dots> \<le> N + length (threads s)" by simp
  finally show ?thesis .
qed

end
