(* ===== verification/Logger.thy ===== *)
theory Logger
  imports Log_Line Log_Queue_Safe
begin

text \<open>
  The logger around its lines, \<open>src/log/NanoLog.cpp\<close> with \<open>day.hpp\<close> and \<open>tee.hpp\<close>: the ring buffer,
  the writer of a file per day, and the thread that takes the lines out of a buffer (\<open>BufferBase\<close>, a
  locale) and writes them.  The clock and the files that can be opened are parameters.
\<close>

section \<open>The buffer interface and the thread that empties it\<close>

text \<open>The last loop of \<open>NanoLogger::pop\<close> over any buffer.\<close>

partial_function (option) pop_all ::
  "('s \<Rightarrow> ('l option \<times> 's) option) \<Rightarrow> ('l \<Rightarrow> 'f \<Rightarrow> 'f) \<Rightarrow> 's \<Rightarrow> 'f \<Rightarrow> ('s \<times> 'f) option" where
  [code]: "pop_all take_line wr s f =
     Option.bind (take_line s) (\<lambda>(x, s'). case x of None \<Rightarrow> Some (s', f) | Some l \<Rightarrow> pop_all take_line wr s' (wr l f))"

text \<open>The loop while the logger is running: \<open>ready\<close> is what each test of the state finds.\<close>

fun pop_ready ::
  "('s \<Rightarrow> ('l option \<times> 's) option) \<Rightarrow> ('l \<Rightarrow> 'f \<Rightarrow> 'f) \<Rightarrow> bool list \<Rightarrow> 's \<Rightarrow> 'f \<Rightarrow> ('s \<times> 'f) option" where
  "pop_ready take_line wr [] s f = Some (s, f)"
| "pop_ready take_line wr (ready # rs) s f =
     (if \<not> ready then Some (s, f)
      else Option.bind (take_line s) (\<lambda>(x, s'). pop_ready take_line wr rs s' (case x of None \<Rightarrow> f | Some l \<Rightarrow> wr l f)))"

definition NanoLogger_pop ::
  "('s \<Rightarrow> ('l option \<times> 's) option) \<Rightarrow> ('l \<Rightarrow> 'f \<Rightarrow> 'f) \<Rightarrow> bool list \<Rightarrow> 's \<Rightarrow> 'f \<Rightarrow> ('s \<times> 'f) option" where
  "NanoLogger_pop take_line wr rs s f =
     Option.bind (pop_ready take_line wr rs s f) (\<lambda>(s, f). pop_all take_line wr s f)"

text \<open>What a buffer promises to the thread that empties it.\<close>

locale buffer_base =
  fixes take_line :: "'s \<Rightarrow> ('l option \<times> 's) option"
    and buffered :: "'s \<Rightarrow> 'l list"
    and buffer_inv :: "'s \<Rightarrow> bool"
  assumes pop_none: "buffer_inv s \<Longrightarrow> buffered s = [] \<Longrightarrow> \<exists>s'. take_line s = Some (None, s') \<and> buffer_inv s' \<and> buffered s' = []"
    and pop_some: "buffer_inv s \<Longrightarrow> buffered s = l # ls \<Longrightarrow> \<exists>s'. take_line s = Some (Some l, s') \<and> buffer_inv s' \<and> buffered s' = ls"
begin

lemma pop_all_writes:
  "buffer_inv s \<Longrightarrow> \<exists>s'. pop_all take_line wr s f = Some (s', fold wr (buffered s) f) \<and> buffer_inv s' \<and> buffered s' = []"
proof (induction "buffered s" arbitrary: s f)
  case Nil
  from pop_none [OF Nil.prems Nil.hyps [symmetric]] obtain s' where "take_line s = Some (None, s')" "buffer_inv s'" "buffered s' = []" by blast
  with Nil.hyps [symmetric] show ?case by (subst pop_all.simps) simp
next
  case (Cons l ls)
  from pop_some [OF Cons.prems Cons.hyps(2) [symmetric]] obtain s' where
    s': "take_line s = Some (Some l, s')" "buffer_inv s'" "buffered s' = ls" by blast
  from Cons.hyps(1) [OF s'(3) [symmetric] s'(2), of "wr l f"] s' Cons.hyps(2) [symmetric] show ?case
    by (subst pop_all.simps) simp
qed

lemma pop_ready_writes:
  "buffer_inv s \<Longrightarrow> \<exists>s' d. pop_ready take_line wr rs s f = Some (s', fold wr d f) \<and> buffer_inv s' \<and> d @ buffered s' = buffered s"
proof (induction rs arbitrary: s f)
  case (Cons r rs)
  show ?case
  proof (cases "r \<and> buffered s \<noteq> []")
    case True
    then obtain l ls where b: "buffered s = l # ls" by (cases "buffered s") auto
    from pop_some [OF Cons.prems b] obtain s' where s': "take_line s = Some (Some l, s')" "buffer_inv s'" "buffered s' = ls" by blast
    from Cons.IH [OF s'(2), of "wr l f"] obtain s'' d where
      "pop_ready take_line wr rs s' (wr l f) = Some (s'', fold wr d (wr l f))" "buffer_inv s''" "d @ buffered s'' = buffered s'" by blast
    with s' b True show ?thesis by (intro exI [of _ s''] exI [of _ "l # d"]) simp
  next
    case False
    show ?thesis
    proof (cases r)
      case True
      with False have "buffered s = []" by simp
      from pop_none [OF Cons.prems this] obtain s' where s': "take_line s = Some (None, s')" "buffer_inv s'" "buffered s' = []" by blast
      from Cons.IH [OF s'(2), of f] s' \<open>buffered s = []\<close> True show ?thesis by auto
    next
      case False
      then show ?thesis using Cons.prems by (intro exI [of _ s] exI [of _ "[]"]) simp
    qed
  qed
qed (auto intro: exI [of _ "[]"])

text \<open>However long the logger runs before it is shut down, every line is written once and in order.\<close>

lemma NanoLogger_pop_writes:
  assumes "buffer_inv s"
  shows "\<exists>s'. NanoLogger_pop take_line wr rs s f = Some (s', fold wr (buffered s) f) \<and> buffered s' = []"
proof -
  from pop_ready_writes [OF assms, of wr rs f] obtain s1 d where
    s1: "pop_ready take_line wr rs s f = Some (s1, fold wr d f)" "buffer_inv s1" "d @ buffered s1 = buffered s" by blast
  from pop_all_writes [OF s1(2), of wr "fold wr d f"] obtain s' where
    "pop_all take_line wr s1 (fold wr d f) = Some (s', fold wr (buffered s1) (fold wr d f))" "buffered s' = []" by blast
  with s1 show ?thesis by (auto simp: NanoLogger_pop_def simp flip: s1(3))
qed

end

section \<open>The queue as a buffer\<close>

definition next_line :: "nat \<Rightarrow> 'l QueueBuffer \<Rightarrow> ((nat \<times> 'l) option \<times> 'l QueueBuffer) option" where
  "next_line N s = map_option (\<lambda>(b, s'). (if b then Some (last (popped s')) else None, s')) (try_pop N s)"

definition queued :: "nat \<Rightarrow> 'l QueueBuffer \<Rightarrow> (nat \<times> 'l) list" where
  "queued N s = drop (length (popped s)) (contents N (heap s))"

definition idle_inv :: "nat \<Rightarrow> 'l QueueBuffer \<Rightarrow> bool" where
  "idle_inv N s \<longleftrightarrow> queue_inv N s \<and> reader s = Start \<and> (\<forall>t < length (threads s). threads s ! t = Idle)"

lemma queued_rest:
  assumes "reader_inv N h s" "N > 0"
  shows "popped s @ drop (length (popped s)) (contents N (heap s)) = contents N (heap s)"
  by (subst (1 2) popped_prefix [OF assms]) simp

lemma queue_takes:
  assumes "idle_inv N s" "N > 0"
  shows "\<exists>s'. next_line N s = Some (case queued N s of [] \<Rightarrow> None | l # ls \<Rightarrow> Some l, s') \<and> idle_inv N s' \<and>
    queued N s' = tl (queued N s)"
proof -
  from assms(1) obtain h where i: "writers_inv N s" "reader_inv N h s" "reader s = Start"
    and idle: "\<forall>t < length (threads s). threads s ! t = Idle" by (auto simp: idle_inv_def queue_inv_def)
  from try_pop_idle [OF i assms(2) idle_enqueued [OF idle]] obtain b s1 h1 where
    t: "try_pop N s = Some (b, s1)" "writers_inv N s1" "reader_inv N h1 s1" "reader s1 = Start"
      "threads s1 = threads s" "contents N (heap s1) = contents N (heap s)"
      "if slot_published N (heap s) (pop_count N h s) then b \<and> length (popped s1) = Suc (length (popped s))
       else \<not> b \<and> popped s1 = popped s \<and> heap s1 = heap s \<and> pop_count N h1 s1 = pop_count N h s" by blast
  have inv: "idle_inv N s1" using t(2-5) idle by (auto simp: idle_inv_def queue_inv_def)
  have c: "contents N (heap s) = popped s @ queued N s" "contents N (heap s) = popped s1 @ queued N s1"
    unfolding queued_def t(6) using queued_rest [OF i(2) assms(2)] queued_rest [OF t(3) assms(2)] t(6) by simp_all
  show ?thesis
  proof (cases "slot_published N (heap s) (pop_count N h s)")
    case True
    then have l: "b" "length (popped s1) = Suc (length (popped s))" using t(7) by auto
    have "queued N s \<noteq> []"
    proof
      assume "queued N s = []"
      with c l(2) show False by (metis append_Nil2 length_append not_add_less1 less_add_Suc1 add_Suc)
    qed
    then obtain x xs where q: "queued N s = x # xs" by (cases "queued N s") auto
    have "popped s1 @ queued N s1 = (popped s @ [x]) @ xs" "length (popped s1) = length (popped s @ [x])" using c q l(2) by simp_all
    then have "popped s1 = popped s @ [x] \<and> queued N s1 = xs" using append_eq_append_conv by blast
    with inv t(1) l(1) q show ?thesis by (simp add: next_line_def)
  next
    case False
    then have "queued N s = []" using idle_unpublished [OF i(1,2) idle assms(2)] c(1) by simp
    with False t inv c show ?thesis by (auto simp: next_line_def)
  qed
qed

interpretation log_queue: buffer_base "next_line Buffer_size" "queued Buffer_size" "idle_inv Buffer_size"
proof
  have n: "Buffer_size > 0" by (simp add: Buffer_size_def)
  fix s :: "'l QueueBuffer" and l ls
  assume i: "idle_inv Buffer_size s"
  show "\<exists>s'. next_line Buffer_size s = Some (None, s') \<and> idle_inv Buffer_size s' \<and> queued Buffer_size s' = []"
    if "queued Buffer_size s = []" using queue_takes [OF i n] that by simp
  show "\<exists>s'. next_line Buffer_size s = Some (Some l, s') \<and> idle_inv Buffer_size s' \<and> queued Buffer_size s' = ls"
    if "queued Buffer_size s = l # ls" using queue_takes [OF i n] that by simp
qed

section \<open>The ring buffer\<close>

text \<open>A slot that is not written is \<^term>\<open>None\<close>; both indexes are unsigned 32-bit numbers.\<close>

record 'l RingBuffer =
  m_ring :: "'l option list"
  ring_write_index :: u32
  ring_read_index :: u32

text \<open>The size in megabytes times 4096, in 32 bits; a size of 0 makes the remainder undefined.\<close>

definition ring_size :: "u32 \<Rightarrow> nat" where
  "ring_size mb = unat (max 1 mb * 1024 * 4)"

definition RingBuffer_new :: "nat \<Rightarrow> 'l RingBuffer" where
  "RingBuffer_new n = \<lparr>m_ring = replicate n None, ring_write_index = 0, ring_read_index = 0\<rparr>"

definition ring_push :: "'l \<Rightarrow> 'l RingBuffer \<Rightarrow> 'l RingBuffer option" where
  "ring_push l r =
     (if m_ring r = [] then None
      else Some (r\<lparr>m_ring := (m_ring r)[unat (ring_write_index r) mod length (m_ring r) := Some l],
        ring_write_index := ring_write_index r + 1\<rparr>))"

definition ring_take :: "'l RingBuffer \<Rightarrow> ('l option \<times> 'l RingBuffer) option" where
  "ring_take r =
     (if m_ring r = [] then None
      else let i = unat (ring_read_index r) mod length (m_ring r) in
        case m_ring r ! i of
          None \<Rightarrow> Some (None, r)
        | Some l \<Rightarrow> Some (Some l, r\<lparr>m_ring := (m_ring r)[i := None], ring_read_index := ring_read_index r + 1\<rparr>))"

text \<open>The slots from the one that is read next on.\<close>

definition from_read :: "'l RingBuffer \<Rightarrow> 'l option list" where
  "from_read r = rotate (unat (ring_read_index r)) (m_ring r)"

definition ring_lines :: "'l RingBuffer \<Rightarrow> 'l list" where
  "ring_lines r = map the (takeWhile (\<lambda>x. x \<noteq> None) (from_read r))"

definition ring_inv :: "'l RingBuffer \<Rightarrow> bool" where
  "ring_inv r \<longleftrightarrow> m_ring r \<noteq> [] \<and> length (m_ring r) dvd 2 ^ 32"

lemma mod_shift_inject:
  fixes k j m n :: nat
  assumes "k < m" "j < m"
  shows "(n + k) mod m = (n + j) mod m \<longleftrightarrow> k = j"
proof
  assume "(n + k) mod m = (n + j) mod m"
  then have "int (n + k) mod int m = int (n + j) mod int m" by (metis zmod_int)
  then have "int m dvd int k - int j" by (simp add: mod_eq_dvd_iff)
  moreover have "\<bar>int k - int j\<bar> < \<bar>int m\<bar>" using assms by linarith
  ultimately show "k = j" using dvd_imp_le_int [of "int k - int j" "int m"] by linarith
qed simp

lemma rotate_update:
  assumes "xs \<noteq> []" "k < length xs"
  shows "rotate n (xs[(n + k) mod length xs := x]) = (rotate n xs)[k := x]"
proof (rule nth_equalityI)
  fix j assume "j < length (rotate n (xs[(n + k) mod length xs := x]))"
  then have j: "j < length xs" by simp
  have "(n + k) mod length xs = (n + j) mod length xs \<longleftrightarrow> k = j" by (rule mod_shift_inject [OF assms(2) j])
  then show "rotate n (xs[(n + k) mod length xs := x]) ! j = (rotate n xs)[k := x] ! j"
    using assms j by (simp add: nth_rotate nth_list_update)
qed simp

lemma rotate_index_Suc: "length xs dvd 2 ^ 32 \<Longrightarrow> rotate (unat (i + 1 :: u32)) xs = rotate1 (rotate (unat i) xs)"
proof -
  assume "length xs dvd 2 ^ 32"
  then have "unat (i + 1) mod length xs = Suc (unat i) mod length xs"
    by (simp add: unat_word_ariths mod_mod_cancel)
  then have "rotate (unat (i + 1)) xs = rotate (Suc (unat i)) xs" by (metis rotate_conv_mod)
  then show ?thesis by simp
qed

lemma from_read_hd: "m_ring r \<noteq> [] \<Longrightarrow> from_read r = m_ring r ! (unat (ring_read_index r) mod length (m_ring r)) # tl (from_read r)"
  using nth_rotate [of 0 "m_ring r" "unat (ring_read_index r)"] hd_conv_nth [of "from_read r"]
  by (simp add: from_read_def) (metis list.collapse rotate_is_Nil_conv)

lemma ring_takes:
  assumes "ring_inv r"
  shows "\<exists>r'. ring_take r = Some (case ring_lines r of [] \<Rightarrow> None | l # ls \<Rightarrow> Some l, r') \<and> ring_inv r' \<and> ring_lines r' = tl (ring_lines r)"
proof -
  let ?i = "unat (ring_read_index r) mod length (m_ring r)"
  have ne: "m_ring r \<noteq> []" "length (m_ring r) dvd 2 ^ 32" using assms by (auto simp: ring_inv_def)
  note hd = from_read_hd [OF ne(1)]
  show ?thesis
  proof (cases "m_ring r ! ?i")
    case None
    then have "ring_lines r = []" unfolding ring_lines_def by (subst hd) simp
    then show ?thesis using None ne assms by (simp add: ring_take_def Let_def)
  next
    case (Some l)
    let ?r = "r\<lparr>m_ring := (m_ring r)[?i := None], ring_read_index := ring_read_index r + 1\<rparr>"
    have "from_read ?r = rotate1 ((from_read r)[0 := None])"
      using rotate_update [OF ne(1), of 0 "unat (ring_read_index r)" None] ne
        rotate_index_Suc [of "(m_ring r)[?i := None]" "ring_read_index r"] by (simp add: from_read_def)
    also have "\<dots> = tl (from_read r) @ [None]" by (subst hd) simp
    finally have n: "ring_lines ?r = map the (takeWhile (\<lambda>x. x \<noteq> None) (tl (from_read r)))"
      by (simp add: ring_lines_def takeWhile_tail)
    have "ring_lines r = l # map the (takeWhile (\<lambda>x. x \<noteq> None) (tl (from_read r)))"
      unfolding ring_lines_def by (subst hd) (simp add: Some)
    with n Some ne show ?thesis by (simp add: ring_take_def Let_def ring_inv_def)
  qed
qed

interpretation log_ring: buffer_base ring_take ring_lines ring_inv
proof
  fix r :: "'l RingBuffer" and l ls
  assume i: "ring_inv r"
  show "\<exists>r'. ring_take r = Some (None, r') \<and> ring_inv r' \<and> ring_lines r' = []" if "ring_lines r = []"
    using ring_takes [OF i] that by simp
  show "\<exists>r'. ring_take r = Some (Some l, r') \<and> ring_inv r' \<and> ring_lines r' = ls" if "ring_lines r = l # ls"
    using ring_takes [OF i] that by simp
qed

text \<open>
  As long as the ring is not full it is a queue; a line pushed into a full ring takes the place of
  the oldest one and is read before all the others.
\<close>

definition ring_queue :: "'l RingBuffer \<Rightarrow> 'l list \<Rightarrow> bool" where
  "ring_queue r ls \<longleftrightarrow> ring_inv r \<and> length ls \<le> length (m_ring r) \<and>
     ring_write_index r = ring_read_index r + of_nat (length ls) \<and>
     from_read r = map Some ls @ replicate (length (m_ring r) - length ls) None"

lemma ring_queue_lines: "ring_queue r ls \<Longrightarrow> ring_lines r = ls"
  by (auto simp: ring_queue_def ring_lines_def takeWhile_append o_def)

lemma write_position:
  assumes "ring_queue r ls"
  shows "unat (ring_write_index r) mod length (m_ring r) = (unat (ring_read_index r) + length ls) mod length (m_ring r)"
proof -
  have d: "length (m_ring r) dvd 2 ^ 32" using assms by (simp add: ring_queue_def ring_inv_def)
  have "unat (ring_write_index r) = (unat (ring_read_index r) + length ls mod 2 ^ 32) mod 2 ^ 32"
    using assms by (simp add: ring_queue_def unat_word_ariths unat_of_nat take_bit_eq_mod)
  then show ?thesis using d by (simp add: mod_simps mod_mod_cancel)
qed

lemma ring_push_queue:
  assumes "ring_queue r ls" "length ls < length (m_ring r)"
  shows "\<exists>r'. ring_push l r = Some r' \<and> ring_queue r' (ls @ [l])"
proof -
  have ne: "m_ring r \<noteq> []" using assms(2) by auto
  let ?r = "r\<lparr>m_ring := (m_ring r)[unat (ring_write_index r) mod length (m_ring r) := Some l], ring_write_index := ring_write_index r + 1\<rparr>"
  have "from_read ?r = (from_read r)[length ls := Some l]"
    using rotate_update [OF ne assms(2)] by (simp add: from_read_def write_position [OF assms(1)])
  moreover have "from_read r = map Some ls @ None # replicate (length (m_ring r) - Suc (length ls)) None"
    using assms by (metis ring_queue_def Suc_diff_Suc replicate_Suc)
  then have "(from_read r)[length ls := Some l] = map Some (ls @ [l]) @ replicate (length (m_ring r) - Suc (length ls)) None"
    by (simp add: list_update_append)
  ultimately show ?thesis using assms ne by (simp add: ring_push_def ring_queue_def ring_inv_def)
qed

lemma ring_push_full:
  assumes "ring_queue r ls" "length ls = length (m_ring r)"
  shows "\<exists>r'. ring_push l r = Some r' \<and> ring_lines r' = l # tl ls"
proof -
  have ne: "m_ring r \<noteq> []" using assms(1) by (simp add: ring_queue_def ring_inv_def)
  let ?r = "r\<lparr>m_ring := (m_ring r)[unat (ring_write_index r) mod length (m_ring r) := Some l], ring_write_index := ring_write_index r + 1\<rparr>"
  have "from_read ?r = (from_read r)[0 := Some l]"
    using rotate_update [OF ne, of 0] ne by (simp add: from_read_def write_position [OF assms(1)] assms(2))
  also have "\<dots> = map Some (l # tl ls)" using assms ne by (cases ls) (auto simp: ring_queue_def)
  finally have "ring_lines ?r = l # tl ls" by (simp add: ring_lines_def o_def takeWhile_eq_all_conv [THEN iffD2] del: list.map)
  then show ?thesis using ne by (simp add: ring_push_def)
qed

text \<open>The ring of 2^20 megabytes and more has no slots left after the wrap-around.\<close>

lemma ring_size_wraps: "ring_size (2 ^ 20) = 0"
  by (simp add: ring_size_def)

section \<open>Files\<close>

record Day =
  year :: int
  month :: int
  day_of_month :: int

definition pad2 :: "int \<Rightarrow> string" where
  "pad2 n = (let s = int_to_string n in replicate (2 - length s) (CHR ''0'') @ s)"

definition show_day :: "Day \<Rightarrow> string" where
  "show_day d = int_to_string (year d) @ ''-'' @ pad2 (month d) @ ''-'' @ pad2 (day_of_month d)"

text \<open>The readings of the clock as a day and as a text, and the files that can be opened.\<close>

record LogPlatform =
  today :: "nat \<Rightarrow> Day"
  stamp :: "nat \<Rightarrow> string"
  can_open :: "string \<Rightarrow> bool"
  log_env :: LogEnv

record FileWriter =
  fw_name :: string
  fw_day :: Day
  fw_os :: "string option"
  fw_echo :: bool
  tee_good :: bool
  fw_files :: "string \<Rightarrow> string"
  fw_console :: string
  fw_ticks :: nat

definition day_file :: "string \<Rightarrow> Day \<Rightarrow> string" where
  "day_file name d = name @ ''-'' @ show_day d @ ''.log''"

text \<open>A file that cannot be opened leaves a stream that accepts nothing.\<close>

definition roll_file :: "LogPlatform \<Rightarrow> FileWriter \<Rightarrow> FileWriter" where
  "roll_file P w =
     (let d = today P (fw_ticks w); f = day_file (fw_name w) d in
      w\<lparr>fw_day := d, fw_os := (if can_open P f then Some f else None), tee_good := True, fw_ticks := Suc (fw_ticks w)\<rparr>)"

definition FileWriter_new :: "LogPlatform \<Rightarrow> string \<Rightarrow> string \<Rightarrow> bool \<Rightarrow> (string \<Rightarrow> string) \<Rightarrow> FileWriter" where
  "FileWriter_new P log_directory log_file_name echo files =
     roll_file P \<lparr>fw_name = log_directory @ log_file_name, fw_day = today P 0, fw_os = None, fw_echo = echo, tee_good = True,
       fw_files = files, fw_console = [], fw_ticks = 1\<rparr>"

definition file_put :: "string \<Rightarrow> FileWriter \<Rightarrow> bool \<times> FileWriter" where
  "file_put out w = (case fw_os w of None \<Rightarrow> (False, w) | Some f \<Rightarrow> (True, w\<lparr>fw_files := (fw_files w)(f := fw_files w f @ out)\<rparr>))"

text \<open>\<open>teebuf::overflow\<close>: the character goes to the console first; failing to put it into the file fails.\<close>

definition tee_overflow :: "char \<Rightarrow> FileWriter \<Rightarrow> bool \<times> FileWriter" where
  "tee_overflow c w = file_put [c] (w\<lparr>fw_console := fw_console w @ [c]\<rparr>)"

text \<open>A stream whose buffer has failed writes nothing more.\<close>

fun tee_write :: "string \<Rightarrow> FileWriter \<Rightarrow> FileWriter" where
  "tee_write [] w = w"
| "tee_write (c # cs) w =
     (if \<not> tee_good w then w
      else let (r, w) = tee_overflow c w in tee_write cs (if r then w else w\<lparr>tee_good := False\<rparr>))"

definition FileWriter_write :: "LogPlatform \<Rightarrow> NanoLogLine \<Rightarrow> FileWriter \<Rightarrow> FileWriter option" where
  "FileWriter_write P l w =
     (let w = (if fw_day w \<noteq> today P (fw_ticks w) then roll_file P (w\<lparr>fw_ticks := Suc (fw_ticks w)\<rparr>)
               else w\<lparr>fw_ticks := Suc (fw_ticks w)\<rparr>) in
      case stringify (log_env P) (stamp P (fw_ticks w)) l of
        None \<Rightarrow> None
      | Some out \<Rightarrow> Some (let w = w\<lparr>fw_ticks := Suc (fw_ticks w)\<rparr> in if fw_echo w then tee_write out w else snd (file_put out w)))"

lemma tee_write_open:
  "fw_os w = Some f \<Longrightarrow> tee_good w \<Longrightarrow>
   tee_write out w = w\<lparr>fw_files := (fw_files w)(f := fw_files w f @ out), fw_console := fw_console w @ out\<rparr>"
proof (induction out arbitrary: w)
  case (Cons c cs)
  let ?w = "w\<lparr>fw_console := fw_console w @ [c], fw_files := (fw_files w)(f := fw_files w f @ [c])\<rparr>"
  have "tee_write (c # cs) w = tee_write cs ?w" using Cons.prems by (simp add: tee_overflow_def file_put_def)
  also have "\<dots> = ?w\<lparr>fw_files := (fw_files ?w)(f := fw_files ?w f @ cs), fw_console := fw_console ?w @ cs\<rparr>"
    using Cons.prems by (intro Cons.IH) simp_all
  finally show ?case by (cases w) (auto simp: fun_eq_iff)
qed (auto simp: fun_eq_iff fun_upd_def)

text \<open>Without a file the console shows one character of all that is logged.\<close>

lemma tee_write_closed:
  "fw_os w = None \<Longrightarrow> tee_good w \<Longrightarrow> tee_write (c # cs) w = w\<lparr>fw_console := fw_console w @ [c], tee_good := False\<rparr>"
  by (cases cs) (simp_all add: tee_overflow_def file_put_def)

lemma tee_write_failed: "\<not> tee_good w \<Longrightarrow> tee_write out w = w"
  by (cases out) simp_all

section \<open>Every line reaches its file\<close>

definition writer_ok :: "LogPlatform \<Rightarrow> FileWriter \<Rightarrow> bool" where
  "writer_ok P w \<longleftrightarrow> fw_os w = Some (day_file (fw_name w) (fw_day w)) \<and> tee_good w"

lemma FileWriter_new_ok: "\<forall>f. can_open P f \<Longrightarrow> writer_ok P (FileWriter_new P dir name echo files)"
  by (simp add: writer_ok_def FileWriter_new_def roll_file_def Let_def)

text \<open>A line is added to the file of the day, after a change of the day to a new one.\<close>

lemma FileWriter_write_ok:
  assumes "writer_ok P w" "\<forall>f. can_open P f" "stringify (log_env P) (stamp P k) l = Some out"
    "k = (if fw_day w = today P (fw_ticks w) then fw_ticks w + 1 else fw_ticks w + 2)"
  defines "d \<equiv> if fw_day w = today P (fw_ticks w) then fw_day w else today P (fw_ticks w + 1)"
  defines "f \<equiv> day_file (fw_name w) d"
  shows "\<exists>w'. FileWriter_write P l w = Some w' \<and> writer_ok P w' \<and> fw_day w' = d \<and> fw_name w' = fw_name w \<and> fw_echo w' = fw_echo w \<and>
    fw_files w' = (fw_files w)(f := fw_files w f @ out) \<and> fw_console w' = (if fw_echo w then fw_console w @ out else fw_console w)"
proof (cases "fw_day w = today P (fw_ticks w)")
  case True
  let ?w = "w\<lparr>fw_ticks := fw_ticks w + 2\<rparr>"
  have "fw_os ?w = Some f" "tee_good ?w" using assms(1) True by (simp_all add: writer_ok_def f_def d_def)
  from tee_write_open [OF this, of out] assms(1,3,4) True show ?thesis
    by (auto simp: FileWriter_write_def Let_def file_put_def writer_ok_def f_def d_def)
next
  case False
  let ?w = "(roll_file P (w\<lparr>fw_ticks := Suc (fw_ticks w)\<rparr>))\<lparr>fw_ticks := fw_ticks w + 3\<rparr>"
  have "fw_os ?w = Some f" "tee_good ?w" using assms(2) False by (simp_all add: roll_file_def Let_def f_def d_def)
  from tee_write_open [OF this, of out] assms(2-4) False show ?thesis
    by (auto simp: FileWriter_write_def Let_def file_put_def writer_ok_def roll_file_def f_def d_def numeral_eq_Suc)
qed

definition write_line :: "LogPlatform \<Rightarrow> nat \<times> NanoLogLine \<Rightarrow> FileWriter option \<Rightarrow> FileWriter option" where
  "write_line P x w = Option.bind w (FileWriter_write P (snd x))"

text \<open>The text of lines that are written on one day, the first at the given reading of the clock.\<close>

fun log_text :: "LogPlatform \<Rightarrow> nat \<Rightarrow> NanoLogLine list \<Rightarrow> string" where
  "log_text P k [] = []"
| "log_text P k (l # ls) = the (stringify (log_env P) (stamp P (k + 1)) l) @ log_text P (k + 2) ls"

lemma write_line_same_day:
  assumes "writer_ok P w" "\<forall>f. can_open P f" "today P (fw_ticks w) = fw_day w" "stringify (log_env P) (stamp P (fw_ticks w + 1)) (snd x) \<noteq> None"
  defines "f \<equiv> day_file (fw_name w) (fw_day w)"
  shows "\<exists>w'. write_line P x (Some w) = Some w' \<and> writer_ok P w' \<and> fw_day w' = fw_day w \<and> fw_name w' = fw_name w \<and>
    fw_ticks w' = fw_ticks w + 2 \<and> fw_files w' f = fw_files w f @ the (stringify (log_env P) (stamp P (fw_ticks w + 1)) (snd x))"
proof -
  from assms(4) obtain out where o: "stringify (log_env P) (stamp P (fw_ticks w + 1)) (snd x) = Some out" by blast
  from FileWriter_write_ok [OF assms(1,2) o] assms(3) obtain w' where w': "FileWriter_write P (snd x) w = Some w'" "writer_ok P w'"
    "fw_day w' = fw_day w" "fw_name w' = fw_name w" "fw_files w' = (fw_files w)(f := fw_files w f @ out)"
    by (auto simp: f_def)
  have t: "fw_ticks (tee_write u v) = fw_ticks v" "fw_ticks (snd (file_put u v)) = fw_ticks v" for u v
  proof -
    show "fw_ticks (snd (file_put u v)) = fw_ticks v" by (simp add: file_put_def split: option.splits)
    show "fw_ticks (tee_write u v) = fw_ticks v"
      by (induction u arbitrary: v) (auto simp: tee_overflow_def file_put_def Let_def split: option.splits)
  qed
  have "fw_ticks w' = fw_ticks w + 2" using w'(1) assms(3) o t by (auto simp: FileWriter_write_def Let_def)
  with w' o show ?thesis by (simp add: write_line_def)
qed

lemma write_lines_same_day:
  assumes "writer_ok P w" "\<forall>f. can_open P f" "\<forall>k. today P k = fw_day w" "\<forall>x \<in> set xs. \<forall>t. stringify (log_env P) t (snd x) \<noteq> None"
  shows "\<exists>w'. fold (write_line P) xs (Some w) = Some w' \<and>
    fw_files w' (day_file (fw_name w) (fw_day w)) =
      fw_files w (day_file (fw_name w) (fw_day w)) @ log_text P (fw_ticks w) (map snd xs)"
  using assms(1,3,4)
proof (induction xs arbitrary: w)
  case (Cons x xs)
  from write_line_same_day [OF Cons.prems(1) assms(2), of x] Cons.prems(2,3) obtain w1 where
    w1: "write_line P x (Some w) = Some w1" "writer_ok P w1" "fw_day w1 = fw_day w" "fw_name w1 = fw_name w"
    "fw_ticks w1 = fw_ticks w + 2" "fw_files w1 (day_file (fw_name w) (fw_day w)) =
      fw_files w (day_file (fw_name w) (fw_day w)) @ the (stringify (log_env P) (stamp P (fw_ticks w + 1)) (snd x))" by auto
  from Cons.IH [OF w1(2)] Cons.prems(2,3) w1 show ?case by auto
qed simp

lemma idle_lines:
  assumes "queue_inv N s" "\<forall>t < length (threads s). threads s ! t = Idle" "N > 0"
  shows "filter (\<lambda>x. fst x = t) (popped s @ queued N s) = filter (\<lambda>x. fst x = t) (pushed s)"
proof -
  from assms(1) obtain h where i: "writers_inv N s" "reader_inv N h s" by (auto simp: queue_inv_def)
  have "under_way (threads s) t = []" using assms(2) by (simp add: under_way_def)
  with i(1) have "filter (\<lambda>x. fst x = t) (pushed s) = filter (\<lambda>x. fst x = t) (contents N (heap s))"
    by (simp add: writers_inv_def order_inv_def)
  then show ?thesis unfolding queued_def queued_rest [OF i(2) assms(3)] by simp
qed

text \<open>A line and a platform for examples.\<close>

definition sample_line :: NanoLogLine where
  "sample_line = the (Option.bind (NanoLogLine_new 0 1 2 3 4 WARN) (log_args [Literal 5]))"

definition sample_platform :: LogPlatform where
  "sample_platform = \<lparr>today = (\<lambda>_. \<lparr>year = 2024, month = 1, day_of_month = 2\<rparr>), stamp = (\<lambda>_. ''[t]''), can_open = (\<lambda>_. True),
     log_env = sample_log_env\<rparr>"

lemma sample_line_prints: "stringify L t sample_line \<noteq> None"
proof -
  obtain l where l: "NanoLogLine_new 0 1 2 3 4 WARN = Some l" "line_bytes l = header_bytes 0 1 2 3 4 WARN" "line_ok l"
    using NanoLogLine_new_ok by blast
  from log_args_ok [OF l(3), of "[Literal 5]"] obtain l' where
    l': "log_args [Literal 5] l = Some l'" "line_bytes l' = header_bytes 0 1 2 3 4 WARN @ concat (map arg_bytes [Literal 5])"
    using l(2) by auto
  have "sample_line = l'" using l(1) l'(1) by (simp add: sample_line_def)
  then show ?thesis using stringify_bytes [OF l'(2), of L t] by simp
qed

end
