(* ===== verification/Log_Lifetime.thy ===== *)
theory Log_Lifetime
  imports Logger
begin

text \<open>
  The life of the logger, \<open>src/log/NanoLog.cpp\<close> and \<open>NanoLog.hpp\<close>: \<open>initialize\<close>, the statements
  \<open>LOG_DEBUG\<close> to \<open>LOG_CRIT\<close> of any number of threads with the test of the level, the thread that writes
  while they go on, and the destructor, which empties the queue.
\<close>

section \<open>State and operations\<close>

datatype State = INIT | READY | SHUTDOWN

record NanoLogger =
  m_state :: State
  m_buffer_base :: "NanoLogLine QueueBuffer"
  m_file_writer :: "FileWriter option"

text \<open>\<open>atomic_nanologger\<close> is null before \<open>initialize\<close>.\<close>

record LogGlobals =
  atomic_nanologger :: "NanoLogger option"
  loglevel :: nat

definition LogGlobals_init :: LogGlobals where
  "LogGlobals_init = \<lparr>atomic_nanologger = None, loglevel = 0\<rparr>"

text \<open>The constructor; \<open>n\<close> is the number of threads that log.\<close>

definition NanoLogger_new :: "LogPlatform \<Rightarrow> nat \<Rightarrow> string \<Rightarrow> string \<Rightarrow> bool \<Rightarrow> (string \<Rightarrow> string) \<Rightarrow> NanoLogger" where
  "NanoLogger_new P n log_directory log_file_name echo files =
     \<lparr>m_state = READY, m_buffer_base = QueueBuffer_new n,
      m_file_writer = Some (FileWriter_new P log_directory log_file_name echo files)\<rparr>"

definition initialize :: "LogPlatform \<Rightarrow> nat \<Rightarrow> string \<Rightarrow> string \<Rightarrow> bool \<Rightarrow> (string \<Rightarrow> string) \<Rightarrow> LogGlobals \<Rightarrow> LogGlobals" where
  "initialize P n log_directory log_file_name echo files g =
     g\<lparr>atomic_nanologger := Some (NanoLogger_new P n log_directory log_file_name echo files)\<rparr>"

text \<open>
  A statement of thread \<open>t\<close> that is not in a statement already: it begins to push the line (\<open>add\<close>).
  Without a logger a statement of a sufficient level follows a null pointer.
\<close>

definition log_statement :: "LogLevel \<Rightarrow> nat \<Rightarrow> NanoLogLine \<Rightarrow> LogGlobals \<Rightarrow> LogGlobals option" where
  "log_statement l t line g =
     (if \<not> is_logged l (loglevel g) then Some g
      else do {
        lg \<leftarrow> atomic_nanologger g;
        let b = m_buffer_base lg;
        if t < length (threads b) \<and> threads b ! t = Idle
        then do { b \<leftarrow> step Buffer_size (Call t line) b; Some (g\<lparr>atomic_nanologger := Some (lg\<lparr>m_buffer_base := b\<rparr>)\<rparr>) }
        else None })"

text \<open>A step of the queue, by a thread that pushes or by the thread that writes, which writes what it takes out.\<close>

definition logger_step :: "LogPlatform \<Rightarrow> NanoLogLine event \<Rightarrow> LogGlobals \<Rightarrow> LogGlobals option" where
  "logger_step P e g = do {
     lg \<leftarrow> atomic_nanologger g;
     b \<leftarrow> step Buffer_size e (m_buffer_base lg);
     Some (g\<lparr>atomic_nanologger := Some (lg\<lparr>m_buffer_base := b,
       m_file_writer := fold (write_line P) (drop (length (popped (m_buffer_base lg))) (popped b)) (m_file_writer lg)\<rparr>)\<rparr>) }"

datatype log_event = Statement LogLevel nat NanoLogLine | Pushing nat | Writing_thread

fun log_event_step :: "LogPlatform \<Rightarrow> log_event \<Rightarrow> LogGlobals \<Rightarrow> LogGlobals option" where
  "log_event_step P (Statement l t line) g = log_statement l t line g"
| "log_event_step P (Pushing t) g = logger_step P (Push t) g"
| "log_event_step P Writing_thread g = logger_step P Pop g"

fun log_events :: "LogPlatform \<Rightarrow> log_event list \<Rightarrow> LogGlobals \<Rightarrow> LogGlobals option" where
  "log_events P [] g = Some g"
| "log_events P (e # es) g = do { g \<leftarrow> log_event_step P e g; log_events P es g }"

text \<open>The destructor: \<open>rs\<close> is what the writing thread still finds before it sees the shutdown.\<close>

definition NanoLogger_destroy :: "LogPlatform \<Rightarrow> bool list \<Rightarrow> NanoLogger \<Rightarrow> NanoLogger option" where
  "NanoLogger_destroy P rs lg = do {
     (b, w) \<leftarrow> NanoLogger_pop (next_line Buffer_size) (write_line P) rs (m_buffer_base lg) (m_file_writer lg);
     Some \<lparr>m_state = SHUTDOWN, m_buffer_base = b, m_file_writer = w\<rparr> }"

section \<open>A statement before \<open>initialize\<close>\<close>

lemma statement_before_initialize: "is_logged l 0 \<Longrightarrow> log_statement l t line LogGlobals_init = None"
  by (simp add: log_statement_def LogGlobals_init_def)

section \<open>From the first statement to the end\<close>

text \<open>The statements of a thread that are logged at a level, in their order.\<close>

fun statements :: "nat \<Rightarrow> log_event list \<Rightarrow> (nat \<times> NanoLogLine) list" where
  "statements level [] = []"
| "statements level (Statement l t line # es) = (if is_logged l level then [(t, line)] else []) @ statements level es"
| "statements level (_ # es) = statements level es"

lemma Push_pushed: "step N (Push t) s = Some s' \<Longrightarrow> pushed s' = pushed s \<and> popped s' = popped s"
  by (cases "threads s ! t")
    (auto simp: action_defs Let_def split: if_splits option.splits bind_splits)

lemma Pop_pushed: "step N Pop s = Some s' \<Longrightarrow> pushed s' = pushed s \<and> (\<exists>d. popped s' = popped s @ d)"
  by (cases "reader s")
    (auto simp: action_defs Let_def on_buffer_def split: if_splits option.splits bind_splits list.splits)

text \<open>One event: the queue takes a step, and the writer has written what has been taken out.\<close>

definition written_out :: "LogPlatform \<Rightarrow> FileWriter option \<Rightarrow> NanoLogger \<Rightarrow> bool" where
  "written_out P w lg \<longleftrightarrow> m_file_writer lg = fold (write_line P) (popped (m_buffer_base lg)) w"

lemma log_event_runs:
  assumes "log_event_step P e g = Some g'" and "atomic_nanologger g = Some lg" and "written_out P w lg"
  shows "\<exists>lg' qs. atomic_nanologger g' = Some lg' \<and> loglevel g' = loglevel g \<and> written_out P w lg' \<and>
    run Buffer_size qs (m_buffer_base lg) = Some (m_buffer_base lg') \<and>
    pushed (m_buffer_base lg') = pushed (m_buffer_base lg) @ statements (loglevel g) [e]"
proof (cases e)
  case (Statement l t line)
  show ?thesis
  proof (cases "is_logged l (loglevel g)")
    case True
    with assms Statement show ?thesis
      by (intro exI [of _ "the (atomic_nanologger g')"] exI [of _ "[Call t line]"])
        (auto simp: log_statement_def Let_def written_out_def at_pc_def split: if_splits)
  next
    case False
    with assms Statement show ?thesis by (intro exI [of _ lg] exI [of _ "[]"]) (auto simp: log_statement_def)
  qed
next
  case (Pushing t)
  then obtain b where b: "step Buffer_size (Push t) (m_buffer_base lg) = Some b"
    "g' = g\<lparr>atomic_nanologger := Some (lg\<lparr>m_buffer_base := b,
       m_file_writer := fold (write_line P) (drop (length (popped (m_buffer_base lg))) (popped b)) (m_file_writer lg)\<rparr>)\<rparr>"
    using assms(1,2) by (auto simp: logger_step_def bind_eq_Some_conv simp del: step.simps)
  from Push_pushed [OF b(1)] b assms(3) Pushing show ?thesis
    by (intro exI [of _ "the (atomic_nanologger g')"] exI [of _ "[Push t]"]) (simp add: written_out_def del: step.simps)
next
  case Writing_thread
  then obtain b where b: "step Buffer_size Pop (m_buffer_base lg) = Some b"
    "g' = g\<lparr>atomic_nanologger := Some (lg\<lparr>m_buffer_base := b,
       m_file_writer := fold (write_line P) (drop (length (popped (m_buffer_base lg))) (popped b)) (m_file_writer lg)\<rparr>)\<rparr>"
    using assms(1,2) by (auto simp: logger_step_def bind_eq_Some_conv simp del: step.simps)
  from Pop_pushed [OF b(1)] b assms(3) Writing_thread show ?thesis
    by (intro exI [of _ "the (atomic_nanologger g')"] exI [of _ "[Pop]"]) (auto simp add: written_out_def simp del: step.simps)
qed

lemma statements_Cons: "statements level (e # es) = statements level [e] @ statements level es"
  by (cases e) simp_all

lemma log_events_run:
  "log_events P es g = Some g' \<Longrightarrow> atomic_nanologger g = Some lg \<Longrightarrow> written_out P w lg \<Longrightarrow>
   \<exists>lg' qs. atomic_nanologger g' = Some lg' \<and> written_out P w lg' \<and>
     run Buffer_size qs (m_buffer_base lg) = Some (m_buffer_base lg') \<and>
     pushed (m_buffer_base lg') = pushed (m_buffer_base lg) @ statements (loglevel g) es"
proof (induction es arbitrary: g lg)
  case Nil
  then show ?case by (intro exI [of _ lg] exI [of _ "[]"]) simp
next
  case (Cons e es)
  then obtain g1 where g1: "log_event_step P e g = Some g1" "log_events P es g1 = Some g'" by (auto simp: bind_eq_Some_conv)
  from log_event_runs [OF g1(1) Cons.prems(2,3)] obtain lg1 qs where
    one: "atomic_nanologger g1 = Some lg1" "loglevel g1 = loglevel g" "written_out P w lg1"
    "run Buffer_size qs (m_buffer_base lg) = Some (m_buffer_base lg1)"
    "pushed (m_buffer_base lg1) = pushed (m_buffer_base lg) @ statements (loglevel g) [e]" by blast
  from Cons.IH [OF g1(2) one(1,3)] obtain lg' rs where
    "atomic_nanologger g' = Some lg'" "written_out P w lg'" "run Buffer_size rs (m_buffer_base lg1) = Some (m_buffer_base lg')"
    "pushed (m_buffer_base lg') = pushed (m_buffer_base lg1) @ statements (loglevel g1) es" by blast
  with one show ?case
    by (intro exI [of _ lg'] exI [of _ "qs @ rs"]) (simp add: run_append statements_Cons [of _ e es])
qed


definition sample_events :: "log_event list" where
  "sample_events = [Statement DEBUG 0 sample_line, Statement WARN 0 sample_line, Pushing 0, Pushing 0, Pushing 0, Pushing 0, Pushing 0]"


end
