(* ===== verification/Wire.thy ===== *)
theory Wire
  imports Messages
begin

text \<open>
  The byte level of the TCP services: the length prefix that \<open>src/service/tcp/server.cpp\<close>,
  \<open>listener.cpp\<close>, \<open>notifier.cpp\<close> and \<open>src/api/impl/connection.cpp\<close> put before every
  document (the four bytes of a \<open>uint32_t\<close> in memory order on a little-endian machine), sockets,
  and the loops that read a document of a known size in pieces.

  A socket is what is still to arrive, as a list of segments, and what has been written.  A call of
  \<open>async_read_some\<close> returns bytes of the first segment only, at most as many as the buffer holds;
  with no segment left the peer has closed the connection.  Every statement about a socket holds
  for every way of cutting the stream into segments that it does not exclude.
\<close>

section \<open>Length prefixes\<close>

definition le32 :: "u32 \<Rightarrow> bytes" where
  "le32 w = map char_of [unat w mod 256, unat w div 256 mod 256, unat w div 65536 mod 256, unat w div 16777216 mod 256]"

definition of_le32 :: "bytes \<Rightarrow> u32" where
  "of_le32 bs = word_of_nat (of_char (bs ! 0) + 256 * of_char (bs ! 1) + 65536 * of_char (bs ! 2) +
     16777216 * of_char (bs ! 3))"

definition frame_bytes :: "bytes \<Rightarrow> bytes" where
  "frame_bytes payload = le32 (word_of_nat (length payload)) @ payload"

lemma length_le32 [simp]: "length (le32 w) = 4"
  by (simp add: le32_def)

lemma base_256:
  "n < 4294967296 \<Longrightarrow> n mod 256 + 256 * (n div 256 mod 256) + 65536 * (n div 65536 mod 256) +
     16777216 * (n div 16777216 mod 256) = (n :: nat)"
proof -
  assume n: "n < 4294967296"
  define a b c where "a = n div 256" and "b = a div 256" and "c = b div 256"
  have "n = 256 * a + n mod 256" "a = 256 * b + a mod 256" "b = 256 * c + b mod 256"
    unfolding a_def b_def c_def by (simp_all only: mult_div_mod_eq)
  moreover have "c < 256" using n by (simp add: a_def b_def c_def div_mult2_eq [symmetric] less_mult_imp_div_less)
  moreover have "n div 65536 = b" "n div 16777216 = c" by (simp_all add: a_def b_def c_def div_mult2_eq [symmetric])
  ultimately show ?thesis by (simp flip: a_def)
qed

lemma of_le32_le32 [simp]: "of_le32 (le32 w @ bs) = w"
proof -
  have "unat w < 4294967296" using unsigned_less [of w, where 'a = nat] by simp
  then have "word_of_nat (unat w mod 256 + 256 * (unat w div 256 mod 256) + 65536 * (unat w div 65536 mod 256) +
     16777216 * (unat w div 16777216 mod 256)) = w" by (simp only: base_256 of_nat_unat ucast_id)
  then show ?thesis by (simp add: of_le32_def le32_def numeral_2_eq_2 numeral_3_eq_3)
qed

lemma of_le32_prefix: "4 \<le> n \<Longrightarrow> of_le32 (take n bs) = of_le32 bs"
  by (simp add: of_le32_def)

lemma length_frame_bytes [simp]: "length (frame_bytes p) = length p + 4"
  by (simp add: frame_bytes_def)

lemma drop_frame_bytes [simp]: "drop 4 (frame_bytes p) = p"
  by (simp add: frame_bytes_def)

text \<open>\<open>documentSize\<close>: the size of the whole document, prefix included; fewer than five bytes are a
  document of their own.\<close>

definition documentSize :: "bytes \<Rightarrow> nat" where
  "documentSize data = (if length data < 5 then length data else unat (of_le32 data) + 4)"

lemma documentSize_frame:
  assumes "length p < 2 ^ 32" and "5 \<le> n" and "p \<noteq> []"
  shows "documentSize (take n (frame_bytes p)) = length (frame_bytes p)"
proof -
  have "unat (word_of_nat (length p) :: u32) = length p" using assms(1) by (simp add: unat_of_nat take_bit_nat_eq_self)
  moreover have "\<not> length (take n (frame_bytes p)) < 5" using assms(2,3) by (cases p) auto
  ultimately show ?thesis using assms(2) by (simp add: documentSize_def of_le32_prefix) (simp add: frame_bytes_def)
qed

section \<open>Sockets\<close>

record Socket =
  incoming :: "bytes list"
  outgoing :: bytes
  is_open :: bool

text \<open>\<open>async_read_some\<close> with a buffer of \<open>n\<close> bytes.\<close>

fun read_some :: "nat \<Rightarrow> bytes list \<Rightarrow> (bytes \<times> bytes list) option" where
  "read_some n [] = None"
| "read_some n (c # cs) =
     (if c = [] then read_some n cs
      else if length c \<le> n then Some (c, cs)
      else Some (take n c, drop n c # cs))"

definition async_write :: "bytes \<Rightarrow> Socket \<Rightarrow> Socket" where
  "async_write bs s = s\<lparr>outgoing := outgoing s @ bs\<rparr>"

lemma async_write_simps [simp]:
  "incoming (async_write bs s) = incoming s" "outgoing (async_write bs s) = outgoing s @ bs"
  "is_open (async_write bs s) = is_open s"
  by (simp_all add: async_write_def)

lemma read_some_concat: "read_some n segs = Some (d, segs') \<Longrightarrow> concat segs = d @ concat segs'"
  by (induction n segs rule: read_some.induct) (auto split: if_splits)

lemma read_some_size: "read_some n segs = Some (d, segs') \<Longrightarrow> 0 < n \<Longrightarrow> d \<noteq> [] \<and> length d \<le> n"
  by (induction n segs rule: read_some.induct) (auto split: if_splits)

lemma read_some_None: "read_some n segs = None \<longleftrightarrow> concat segs = []"
  by (induction n segs rule: read_some.induct) auto

lemma read_some_append:
  "read_some n segs = Some (d, segs') \<Longrightarrow> read_some n (segs @ rest) = Some (d, segs' @ rest)"
  by (induction n segs rule: read_some.induct) (auto split: if_splits)

lemma read_some_shorter:
  assumes "read_some n segs = Some (d, segs')" and "0 < n"
  shows "length (concat segs') < length (concat segs)"
  using read_some_concat [OF assms(1)] read_some_size [OF assms] by auto

section \<open>Reading a document in pieces\<close>

text \<open>
  \<open>while ( docSize < maxBytes && read != docSize )\<close> of \<open>respond\<close> and of the peer listener: the loop
  stops only when exactly \<open>docSize\<close> bytes have been read; \<^term>\<open>None\<close> is the end of the stream.
\<close>

definition bufSize :: nat where "bufSize = 128"

definition maxBytes :: nat where "maxBytes = 8 * 1024 * 1024"

function (sequential) read_loop :: "nat \<Rightarrow> nat \<Rightarrow> bytes \<Rightarrow> bytes list \<Rightarrow> (bytes \<times> bytes list) option" where
  "read_loop docSize rd rbuf segs =
     (if docSize < maxBytes \<and> rd \<noteq> docSize
      then case read_some bufSize segs of
             None \<Rightarrow> None
           | Some (data, segs') \<Rightarrow> read_loop docSize (rd + length data) (rbuf @ data) segs'
      else Some (rbuf, segs))"
  by pat_completeness auto
termination
  by (relation "measure (\<lambda>(_, _, _, segs). length (concat segs))")
    (auto simp: bufSize_def dest: read_some_shorter)

declare read_loop.simps [simp del]

lemma read_loop_exact:
  assumes "docSize < maxBytes" and "rd + length (concat segs) = docSize" and "[] \<notin> set segs"
  shows "read_loop docSize rd rbuf (segs @ rest) = Some (rbuf @ concat segs, rest)"
  using assms(2,3)
proof (induction "length (concat segs)" arbitrary: rd rbuf segs rule: less_induct)
  case less
  show ?case
  proof (cases segs)
    case Nil
    then show ?thesis using less.prems by (simp add: read_loop.simps)
  next
    case (Cons c cs)
    then have c: "c \<noteq> []" using less.prems(2) by auto
    then have rd: "rd \<noteq> docSize" using less.prems(1) Cons by (cases c) auto
    define d where "d = take bufSize c"
    define segs' where "segs' = (if length c \<le> bufSize then cs else drop bufSize c # cs)"
    have read: "read_some bufSize (segs @ rest) = Some (d, segs' @ rest)"
      using Cons c by (simp add: d_def segs'_def)
    have cat: "concat segs = d @ concat segs'" using Cons by (simp add: d_def segs'_def)
    have "d \<noteq> []" using c by (simp add: d_def bufSize_def)
    then have less': "length (concat segs') < length (concat segs)" using cat by simp
    have "[] \<notin> set segs'" using less.prems(2) Cons by (simp add: segs'_def)
    with less.hyps [OF less', of "rd + length d" "rbuf @ d"] less.prems(1) cat
    show ?thesis using read rd assms(1) by (simp add: read_loop.simps [of docSize rd])
  qed
qed

text \<open>Once more has been read than the document has, the loop runs to the end of the stream.\<close>

lemma read_loop_overrun:
  assumes "docSize < maxBytes" and "docSize < rd"
  shows "read_loop docSize rd rbuf segs = None"
  using assms(2)
proof (induction "length (concat segs)" arbitrary: rd rbuf segs rule: less_induct)
  case less
  then show ?case using assms(1)
    by (subst read_loop.simps)
      (auto split: option.splits simp: bufSize_def dest: read_some_shorter)
qed

lemma read_loop_shorter:
  "read_loop docSize rd rbuf segs = Some (b, segs') \<Longrightarrow> length (concat segs') \<le> length (concat segs)"
proof (induction docSize rd rbuf segs rule: read_loop.induct)
  case (1 docSize rd rbuf segs)
  show ?case
  proof (cases "docSize < maxBytes \<and> rd \<noteq> docSize")
    case True
    with "1.prems" obtain d r where r: "read_some bufSize segs = Some (d, r)"
      "read_loop docSize (rd + length d) (rbuf @ d) r = Some (b, segs')"
      by (auto simp: read_loop.simps [of docSize rd rbuf segs] split: option.splits)
    from "1.IH" [OF True r(1) refl r(2)] read_some_shorter [OF r(1)] show ?thesis by (simp add: bufSize_def)
  qed (use "1.prems" in \<open>auto simp: read_loop.simps [of docSize rd rbuf segs]\<close>)
qed

section \<open>Framing\<close>

text \<open>
  The ways of cutting a framed document into segments that the services cope with: no empty
  segment, at least five bytes in the first, and a document of at most 128 bytes in one piece.
\<close>

definition delivered :: "bytes \<Rightarrow> bytes list \<Rightarrow> bool" where
  "delivered payload segs \<longleftrightarrow> concat segs = frame_bytes payload \<and> [] \<notin> set segs \<and> payload \<noteq> [] \<and>
     5 \<le> length (hd segs) \<and> (length (frame_bytes payload) \<le> bufSize \<longrightarrow> segs = [frame_bytes payload]) \<and>
     length (frame_bytes payload) < maxBytes"

lemma delivered_nonempty: "delivered payload segs \<Longrightarrow> segs \<noteq> []"
  by (auto simp: delivered_def frame_bytes_def)

text \<open>How the first bytes of such a document are read, and then the rest.\<close>

lemma delivered_read [consumes 1, case_names whole pieces]:
  assumes "delivered payload segs"
  obtains (whole) data where "read_some bufSize (segs @ rest) = Some (data, rest)"
      "\<not> documentSize data < 5" "documentSize data \<le> bufSize" "drop 4 data = payload"
    | (pieces) data segs' where "read_some bufSize (segs @ rest) = Some (data, segs')"
      "\<not> documentSize data < 5" "\<not> documentSize data \<le> bufSize"
      "read_loop (documentSize data) (length data) (drop 4 data) segs' = Some (payload, rest)"
proof -
  obtain c cs where segs: "segs = c # cs" using delivered_nonempty [OF assms(1)] by (cases segs) auto
  have c: "c \<noteq> []" "5 \<le> length c" "[] \<notin> set cs" "payload \<noteq> []" "c @ concat cs = frame_bytes payload"
    and small: "length (frame_bytes payload) \<le> bufSize \<longrightarrow> c = frame_bytes payload \<and> cs = []"
    and max: "length (frame_bytes payload) < maxBytes"
    using assms(1) by (auto simp: delivered_def segs)
  define data where "data = take bufSize c"
  define segs' where "segs' = (if length c \<le> bufSize then cs else drop bufSize c # cs)"
  have read: "read_some bufSize (segs @ rest) = Some (data, segs' @ rest)"
    using c(1) by (simp add: segs data_def segs'_def)
  have cat: "data @ concat segs' = frame_bytes payload"
    using c(5) by (auto simp: data_def segs'_def simp flip: append_assoc)
  have len: "5 \<le> length data" using c(2) by (simp add: data_def bufSize_def)
  have "data = take (length data) (frame_bytes payload)" by (simp flip: cat)
  then have doc: "documentSize data = length (frame_bytes payload)"
    using documentSize_frame [of payload "length data"] max len c(4) by (simp add: maxBytes_def)
  have "drop 4 data @ concat segs' = drop 4 (data @ concat segs')" using len by simp
  then have pay: "drop 4 data @ concat segs' = payload" by (simp add: cat)
  have ge: "\<not> documentSize data < 5" using doc c(4) by (cases payload) auto
  show ?thesis
  proof (cases "length (frame_bytes payload) \<le> bufSize")
    case True
    then have "segs' = []" using small by (simp add: segs'_def)
    then show ?thesis using read doc True ge pay by (intro whole [of data]) simp_all
  next
    case False
    have "length data + length (concat segs') = length (frame_bytes payload)" by (simp flip: cat)
    moreover have "[] \<notin> set segs'" using c(3) by (simp add: segs'_def)
    ultimately have "read_loop (documentSize data) (length data) (drop 4 data) (segs' @ rest) = Some (payload, rest)"
      using read_loop_exact [of "documentSize data" "length data" segs' "drop 4 data" rest] doc max pay by simp
    then show ?thesis by (intro pieces [OF read ge]) (use doc False in simp_all)
  qed
qed

end
