(* ===== verification/Flatbuffers.thy ===== *)
theory Flatbuffers
  imports Wire RocksDB
begin

text \<open>
  The flatbuffers library as a parameter: building, verifying and reading the buffers of the root
  types \<open>Request\<close> and \<open>Response\<close> (\<open>src/common/model/request.fbs\<close> and \<open>response.fbs\<close>).  Reading a
  buffer that is not one of the root type is undefined, the value \<^term>\<open>None\<close>.  The locale states
  what the library documents: what was built is accepted by the verifier and read back unchanged,
  whatever bytes follow it (a buffer is read by the offsets it starts with), and a buffer that the
  verifier accepts can be read.
\<close>

record FlatBuffers =
  FinishRequest :: "Request \<Rightarrow> bytes"
  VerifyRequestBuffer :: "bytes \<Rightarrow> bool"
  GetRequest :: "bytes \<Rightarrow> Request option"
  FinishResponse :: "ResultVariant \<Rightarrow> bytes"
  VerifyResponseBuffer :: "bytes \<Rightarrow> bool"
  GetResponse :: "bytes \<Rightarrow> ResultVariant option"

locale flatbuffers =
  fixes fb :: FlatBuffers
  assumes verify_request: "VerifyRequestBuffer fb (FinishRequest fb r)"
    and get_request: "GetRequest fb (FinishRequest fb r @ trailing) = Some r"
    and request_nonempty: "FinishRequest fb r \<noteq> []"
    and verified_request: "VerifyRequestBuffer fb b \<Longrightarrow> GetRequest fb b \<noteq> None"
    and verify_response: "VerifyResponseBuffer fb (FinishResponse fb v)"
    and get_response: "GetResponse fb (FinishResponse fb v) = Some v"
    and response_nonempty: "FinishResponse fb v \<noteq> []"
    and verified_response: "VerifyResponseBuffer fb b \<Longrightarrow> GetResponse fb b \<noteq> None"

section \<open>An instance\<close>

text \<open>Every table is a list of its fields, and a list is written as \<^const>\<open>unary_item\<close> does.\<close>

definition pack :: "string list \<Rightarrow> bytes" where
  "pack xs = concat (map unary_item xs)"

lemma unary_decode_pack [simp]: "unary_decode (pack xs) = xs"
  unfolding pack_def by (induction xs) (simp_all add: unary_decode_item unary_decode.simps [of "[]"])

definition flag :: "bool \<Rightarrow> string" where
  "flag b = (if b then ''1'' else ''0'')"

lemma flag_eq [simp]: "flag b = ''1'' \<longleftrightarrow> b"
  by (simp add: flag_def)

definition opt_out :: "('a \<Rightarrow> string) \<Rightarrow> 'a option \<Rightarrow> string" where
  "opt_out f x = (case x of None \<Rightarrow> [] | Some a \<Rightarrow> CHR ''+'' # f a)"

definition opt_in :: "(string \<Rightarrow> 'a) \<Rightarrow> string \<Rightarrow> 'a option" where
  "opt_in g s = (case s of [] \<Rightarrow> None | c # r \<Rightarrow> Some (g r))"

lemma opt_in_out: "(\<And>a. g (f a) = a) \<Longrightarrow> opt_in g (opt_out f x) = x"
  by (simp add: opt_in_def opt_out_def split: option.splits)

definition options_out :: "OptionsTable \<Rightarrow> string" where
  "options_out t = flag (if_not_exists t) @ flag (cache t) @ le32 (expiration_in_seconds t)"

definition options_in :: "string \<Rightarrow> OptionsTable" where
  "options_in s = \<lparr>if_not_exists = take 1 s = ''1'', expiration_in_seconds = of_le32 (drop 2 s), cache = take 1 (drop 1 s) = ''1''\<rparr>"

lemma options_in_out: "options_in (options_out t) = t"
  using of_le32_le32 [of "expiration_in_seconds t" "[]"]
  by (auto simp: options_in_def options_out_def flag_def)

definition kv_out :: "KeyValueTable \<Rightarrow> string" where
  "kv_out t = pack [opt_out (\<lambda>s. s) (kv_key t), opt_out (\<lambda>s. s) (kv_value t), opt_out options_out (kv_options t)]"

definition kv_in :: "string \<Rightarrow> KeyValueTable" where
  "kv_in s = (let xs = unary_decode s in
     \<lparr>kv_key = opt_in (\<lambda>s. s) (xs ! 0), kv_value = opt_in (\<lambda>s. s) (xs ! 1), kv_options = opt_in options_in (xs ! 2)\<rparr>)"

lemma kv_in_out: "kv_in (kv_out t) = t"
  by (simp add: kv_in_def kv_out_def opt_in_out options_in_out Let_def)

definition actions :: "Action list" where
  "actions = [Get, Put, Delete, List, Move, TTL]"

definition action_out :: "Action \<Rightarrow> string" where
  "action_out a = replicate (length (takeWhile (\<lambda>b. b \<noteq> a) actions)) (CHR ''.'')"

definition action_in :: "string \<Rightarrow> Action" where
  "action_in s = actions ! length s"

lemma action_in_out: "action_in (action_out a) = a"
  by (cases a) (simp_all add: action_in_def action_out_def actions_def)

definition request_out :: "Request \<Rightarrow> bytes" where
  "request_out r = pack [action_out (req_action r), opt_out (\<lambda>kvs. pack (map kv_out kvs)) (req_data r)]"

definition request_in :: "bytes \<Rightarrow> Request" where
  "request_in s = (let xs = unary_decode s in
     \<lparr>req_action = action_in (xs ! 0), req_data = opt_in (\<lambda>s. map kv_in (unary_decode s)) (xs ! 1)\<rparr>)"

lemma unary_decode_pack_append: "unary_decode (pack xs @ rest) = xs @ unary_decode rest"
  unfolding pack_def by (induction xs) (simp_all add: unary_decode_item)

lemma request_in_out: "request_in (request_out r @ rest) = r"
  by (simp add: request_in_def request_out_def unary_decode_pack_append opt_in_out action_in_out kv_in_out Let_def comp_def)

fun value_out :: "ValueVariant \<Rightarrow> string list" where
  "value_out NoValue = []"
| "value_out (Value v) = [''v'', v]"
| "value_out (Children xs) = ''c'' # xs"
| "value_out (Success b) = [''s'', flag b]"

definition value_in :: "string list \<Rightarrow> ValueVariant" where
  "value_in xs = (case xs of [] \<Rightarrow> NoValue
     | t # r \<Rightarrow> if t = ''v'' then Value (hd r) else if t = ''c'' then Children r else Success (hd r = ''1''))"

lemma value_in_out: "value_in (value_out v) = v"
  by (cases v) (simp_all add: value_in_def)

definition result_out :: "KeyValueResult \<Rightarrow> string" where
  "result_out t = pack (kvr_key t # value_out (kvr_value t))"

definition result_in :: "string \<Rightarrow> KeyValueResult" where
  "result_in s = (let xs = unary_decode s in \<lparr>kvr_key = hd xs, kvr_value = value_in (tl xs)\<rparr>)"

lemma result_in_out: "result_in (result_out t) = t"
  by (simp add: result_in_def result_out_def value_in_out)

fun response_out :: "ResultVariant \<Rightarrow> bytes" where
  "response_out NoResult = pack [''n'']"
| "response_out (KeyValueResults rs) = pack (''k'' # map result_out rs)"
| "response_out (SuccessResult b) = pack [''s'', flag b]"

definition response_in :: "bytes \<Rightarrow> ResultVariant" where
  "response_in s = (let xs = unary_decode s in
     if hd xs = ''n'' then NoResult else if hd xs = ''k'' then KeyValueResults (map result_in (tl xs))
     else SuccessResult (xs ! 1 = ''1''))"

lemma response_in_out: "response_in (response_out v) = v"
  by (cases v) (simp_all add: response_in_def result_in_out Let_def comp_def)

text \<open>The verifier of the instance accepts exactly the buffers that were built, with bytes after a request.\<close>

definition unary_flatbuffers :: FlatBuffers where
  "unary_flatbuffers = \<lparr>FinishRequest = request_out,
     VerifyRequestBuffer = (\<lambda>b. take (length (request_out (request_in b))) b = request_out (request_in b)),
     GetRequest = (\<lambda>b. if take (length (request_out (request_in b))) b = request_out (request_in b)
       then Some (request_in b) else None),
     FinishResponse = response_out,
     VerifyResponseBuffer = (\<lambda>b. response_out (response_in b) = b),
     GetResponse = (\<lambda>b. if response_out (response_in b) = b then Some (response_in b) else None)\<rparr>"

lemma pack_nonempty: "pack (x # xs) \<noteq> []"
  by (simp add: pack_def unary_item_def)

lemma request_out_nonempty: "request_out r \<noteq> []"
  by (simp add: request_out_def pack_nonempty)

lemma response_out_nonempty: "response_out v \<noteq> []"
  by (cases v) (simp_all add: pack_nonempty)

interpretation unary_fb: flatbuffers unary_flatbuffers
  by unfold_locales (simp_all add: unary_flatbuffers_def request_in_out request_in_out [where rest = "[]", simplified]
      response_in_out request_out_nonempty response_out_nonempty)

end
