(* ===== verification/Client_Connection.thy ===== *)
theory Client_Connection
  imports Flatbuffers
begin

text \<open>
  The connections of the client library, \<open>src/api/impl/connection.hpp\<close> and \<open>connection.cpp\<close>: building
  the request of every operation, \<open>writeImpl\<close> that sends it and reads the response, and \<open>import\<close>
  that reads a file of keys and values.

  The other side is a parameter: what it does with the bytes sent to it, in a state of its own, and
  the segments that arrive in return.  \<^term>\<open>None\<close> is an exception, as of reading from a connection
  that the server has closed.
\<close>

record 'w Remote =
  exchange :: "bytes \<Rightarrow> 'w \<Rightarrow> bytes list \<times> 'w"
  connect_again :: "'w \<Rightarrow> bool \<times> 'w"
  client_fbs :: FlatBuffers
  warn_logged :: bool

record BaseConnection =
  status :: bool
  opened :: bool
  buffer :: bytes
  arriving :: "bytes list"

definition Connection_new :: BaseConnection where
  "Connection_new = \<lparr>status = True, opened = True, buffer = [], arriving = []\<rparr>"

definition Connection_valid :: "BaseConnection \<Rightarrow> bool" where
  "Connection_valid c = status c"

section \<open>Sending a request and reading the response\<close>

definition reopen_socket :: "'w Remote \<Rightarrow> BaseConnection \<Rightarrow> 'w \<Rightarrow> BaseConnection \<times> 'w" where
  "reopen_socket R c w =
     (if opened c then (c, w)
      else let (ok, w) = connect_again R w
           in (if ok then c\<lparr>opened := True, arriving := []\<rparr> else c\<lparr>status := False\<rparr>, w))"

definition max_message_size :: nat where
  "max_message_size = 4 * 1024 * 1024"

text \<open>\<open>while ( read < ( len + sizeof(len) ) )\<close>, \<open>read\<close> being the size of what is in the buffer.\<close>

function client_read_loop :: "nat \<Rightarrow> bytes \<Rightarrow> bytes list \<Rightarrow> (bytes \<times> bytes list) option" where
  "client_read_loop n buf segs =
     (if length buf < n
      then case read_some 256 segs of
             None \<Rightarrow> None
           | Some (data, segs') \<Rightarrow> client_read_loop n (buf @ data) segs'
      else Some (buf, segs))"
  by pat_completeness auto
termination
  by (relation "measure (\<lambda>(_, _, segs). length (concat segs))") (auto dest: read_some_shorter)

declare client_read_loop.simps [simp del]

text \<open>
  What has been read: the length is limited, the message verified.  Logging that the length exceeds
  the limit converts it to \<open>int32_t\<close> with a conversion that throws.
\<close>

definition read_response ::
  "'w Remote \<Rightarrow> bytes \<Rightarrow> bytes list \<Rightarrow> (ResultVariant option \<times> bool \<times> bytes list) option" where
  "read_response R data segs =
     (let sent = unat (of_le32 data); len = min sent max_message_size in
      if warn_logged R \<and> 2 ^ 31 \<le> sent then None
      else do {
        (buf, segs) \<leftarrow> client_read_loop (len + 4) data segs;
        let message = take len (drop 4 buf);
        if VerifyResponseBuffer (client_fbs R) message then do {
          r \<leftarrow> GetResponse (client_fbs R) message;
          Some (Some r, True, segs) }
        else Some (None, False, segs) })"

definition writeImpl ::
  "'w Remote \<Rightarrow> Request \<Rightarrow> BaseConnection \<Rightarrow> 'w \<Rightarrow> (ResultVariant option \<times> BaseConnection \<times> 'w) option" where
  "writeImpl R request c w =
     (let (c, w) = reopen_socket R c w; payload = FinishRequest (client_fbs R) request in
      if \<not> Connection_valid c then Some (None, c, w)
      else let n = (word_of_nat (length payload) :: u32);
               (segs, w) = exchange R (buffer c @ le32 n @ take (unat n) payload) w;
               c = c\<lparr>buffer := []\<rparr> in
        case read_some 256 (arriving c @ segs) of
          None \<Rightarrow> None
        | Some (data, segs) \<Rightarrow>
            if length data < 5 then Some (None, c\<lparr>buffer := data, arriving := segs\<rparr>, w)
            else do {
              (r, ok, segs) \<leftarrow> read_response R data segs;
              Some (r, c\<lparr>status := ok, arriving := segs\<rparr>, w) })"

section \<open>The operations\<close>

definition key_item :: "string \<Rightarrow> KeyValueTable" where
  "key_item key = CreateKeyValue key None None"

definition data_item :: "RequestData \<Rightarrow> KeyValueTable" where
  "data_item data = CreateKeyValue (rd_key data) (Some (rd_value data))
     (Some (CreateOptions (ifNotExists (rd_options data)) (expirationInSeconds (rd_options data)) (cacheEntry (rd_options data))))"

type_synonym 'w call = "'w Remote \<Rightarrow> BaseConnection \<Rightarrow> 'w \<Rightarrow> (ResultVariant option \<times> BaseConnection \<times> 'w) option"

definition conn_list :: "string \<Rightarrow> 'w call" where
  "conn_list key R = writeImpl R (CreateRequest List [key_item key])"

definition conn_get :: "string \<Rightarrow> 'w call" where
  "conn_get key R = writeImpl R (CreateRequest Get [key_item key])"

definition conn_set :: "RequestData \<Rightarrow> 'w call" where
  "conn_set data R = writeImpl R (CreateRequest Put [data_item data])"

definition conn_remove :: "string \<Rightarrow> 'w call" where
  "conn_remove key R = writeImpl R (CreateRequest Delete [key_item key])"

definition conn_move :: "RequestData \<Rightarrow> 'w call" where
  "conn_move data R = writeImpl R (CreateRequest Move [data_item data])"

definition conn_ttl :: "string \<Rightarrow> 'w call" where
  "conn_ttl key R = writeImpl R (CreateRequest TTL [key_item key])"

definition conn_list_batch :: "string list \<Rightarrow> 'w call" where
  "conn_list_batch keys R = writeImpl R (CreateRequest List (map key_item keys))"

definition conn_get_batch :: "string list \<Rightarrow> 'w call" where
  "conn_get_batch keys R = writeImpl R (CreateRequest Get (map key_item keys))"

definition conn_set_batch :: "RequestData list \<Rightarrow> 'w call" where
  "conn_set_batch kvs R = writeImpl R (CreateRequest Put (map data_item kvs))"

definition conn_remove_batch :: "string list \<Rightarrow> 'w call" where
  "conn_remove_batch keys R = writeImpl R (CreateRequest Delete (map key_item keys))"

definition conn_move_batch :: "RequestData list \<Rightarrow> 'w call" where
  "conn_move_batch kvs R = writeImpl R (CreateRequest Move (map data_item kvs))"

definition conn_ttl_batch :: "string list \<Rightarrow> 'w call" where
  "conn_ttl_batch keys R = writeImpl R (CreateRequest TTL (map key_item keys))"

section \<open>Importing a file\<close>

text \<open>
  The inner loop of \<open>import\<close>: \<open>end\<close> is moved over the spaces behind the key as long as another space
  follows.  A call of \<open>substr\<close> past the end of the line would throw.
\<close>

function skip_spaces :: "string \<Rightarrow> nat \<Rightarrow> nat option" where
  "skip_spaces lv end' =
     (let vidx = sv_find lv (CHR '' '') (end' + 1) in
      if vidx \<noteq> npos then do {
        between \<leftarrow> sv_substr lv (end' + 1) (vidx - end' - 1);
        if between = [] then skip_spaces lv (end' + 1) else Some end' }
      else Some end')"
  by pat_completeness auto
termination
proof (relation "measure (\<lambda>(lv, end'). length lv - end')")
  fix lv end' vidx between
  assume "vidx = sv_find lv (CHR '' '') (end' + 1)" and "vidx \<noteq> npos"
  then show "((lv, end' + 1), (lv, end')) \<in> measure (\<lambda>(lv, end'). length lv - end')"
    using sv_find_bounds [of lv "CHR '' ''" "end' + 1" vidx] by auto
qed simp

declare skip_spaces.simps [simp del]

text \<open>A line without a space is ignored (the inner \<^term>\<open>None\<close>).\<close>

definition import_line :: "string \<Rightarrow> RequestData option option" where
  "import_line lv =
     (let idx = sv_find lv (CHR '' '') 0 in
      if idx = npos then Some None
      else do {
        end' \<leftarrow> skip_spaces lv idx;
        key \<leftarrow> sv_substr lv 0 idx;
        val \<leftarrow> sv_substr lv (end' + 1) npos;
        Some (Some (RequestData_kv key val)) })"

fun import_lines :: "string list \<Rightarrow> u32 \<Rightarrow> u32 \<Rightarrow> RequestData list \<Rightarrow> (RequestData list \<times> u32 \<times> u32) option" where
  "import_lines [] count' total' kvs = Some (kvs, count', total')"
| "import_lines (line # lines) count' total' kvs = do {
     item \<leftarrow> import_line line;
     case item of
       None \<Rightarrow> import_lines lines count' (total' + 1) kvs
     | Some data \<Rightarrow> import_lines lines (count' + 1) (total' + 1) (kvs @ [data]) }"

text \<open>The file is its lines, \<^term>\<open>None\<close> when it cannot be opened.\<close>

definition conn_import :: "string list option \<Rightarrow> 'w Remote \<Rightarrow> BaseConnection \<Rightarrow> 'w \<Rightarrow>
    ((ResultVariant option \<times> u32 \<times> u32) \<times> BaseConnection \<times> 'w) option" where
  "conn_import file R c w =
     (case file of
        None \<Rightarrow> Some ((None, 0, 0), c, w)
      | Some lines \<Rightarrow> do {
          (kvs, count', total') \<leftarrow> import_lines lines 0 0 [];
          (r, c, w) \<leftarrow> conn_set_batch kvs R c w;
          Some ((r, count', total'), c, w) })"


lemma skip_spaces_spec:
  assumes "length lv \<le> npos" and "lv = pre @ CHR '' '' # rest" and "end' = length pre"
  shows "\<exists>e. skip_spaces lv end' = Some e \<and> e + 1 \<le> length lv \<and> drop (e + 1) lv = dropWhile (\<lambda>c. c = CHR '' '') rest"
  using assms
proof (induction rest arbitrary: pre end')
  case Nil
  then have "sv_find lv (CHR '' '') (end' + 1) = npos" by (intro sv_find_notin) simp
  with Nil show ?case by (subst skip_spaces.simps) simp
next
  case (Cons c rest)
  have d: "drop (Suc end') lv = c # rest" using Cons.prems by simp
  have len: "Suc end' < length lv" using Cons.prems by simp
  show ?case
  proof (cases "c = CHR '' ''")
    case True
    then have f: "sv_find lv (CHR '' '') (end' + 1) = end' + 1" using d by (simp add: sv_find_def)
    have "skip_spaces lv end' = skip_spaces lv (end' + 1)"
      using f len Cons.prems(1) by (subst skip_spaces.simps) (simp add: sv_substr_def)
    with Cons.IH [of "pre @ [CHR '' '']" "end' + 1"] Cons.prems True show ?thesis by simp
  next
    case False
    have "skip_spaces lv end' = Some end'"
    proof (cases "index_of (CHR '' '') rest")
      case None
      then have "sv_find lv (CHR '' '') (end' + 1) = npos" using d False by (intro sv_find_notin) auto
      then show ?thesis by (subst skip_spaces.simps) simp
    next
      case (Some i)
      then have "sv_find lv (CHR '' '') (end' + 1) = end' + 1 + Suc i" using d False by (simp add: sv_find_def)
      then show ?thesis using d len by (subst skip_spaces.simps) (simp add: sv_substr_def)
    qed
    then show ?thesis using False d len by simp
  qed
qed

text \<open>The line that \<open>import\<close> is to read: a key, one or more spaces, and a value.\<close>

definition line_item :: "string \<Rightarrow> RequestData option" where
  "line_item line = (if CHR '' '' \<in> set line
     then Some (RequestData_kv (takeWhile (\<lambda>c. c \<noteq> CHR '' '') line)
       (dropWhile (\<lambda>c. c = CHR '' '') (dropWhile (\<lambda>c. c \<noteq> CHR '' '') line)))
     else None)"

lemma import_line_spec:
  assumes "length line < npos"
  shows "import_line line = Some (line_item line)"
proof (cases "CHR '' '' \<in> set line")
  case False
  then have "sv_find line (CHR '' '') 0 = npos" by (intro sv_find_notin) simp
  with False show ?thesis by (simp add: import_line_def line_item_def)
next
  case True
  then obtain pre rest where l: "line = pre @ CHR '' '' # rest" "CHR '' '' \<notin> set pre"
    by (meson split_list_first)
  then have f: "sv_find line (CHR '' '') 0 = length pre" using sv_find_append [of "CHR '' ''" pre "[]" rest] by simp
  have ne: "length pre \<noteq> npos" using assms l(1) by auto
  from skip_spaces_spec [OF less_imp_le [OF assms] l(1) refl] obtain e where
    e: "skip_spaces line (length pre) = Some e" "e + 1 \<le> length line"
    "drop (e + 1) line = dropWhile (\<lambda>c. c = CHR '' '') rest" by blast
  have tw: "takeWhile (\<lambda>c. c \<noteq> CHR '' '') line = pre" "dropWhile (\<lambda>c. c \<noteq> CHR '' '') line = CHR '' '' # rest"
    using l by (auto simp: takeWhile_append dropWhile_append split: if_splits)
  have "take npos (drop (e + 1) line) = drop (e + 1) line" using assms by simp
  then have "sv_substr line (e + 1) npos = Some (dropWhile (\<lambda>c. c = CHR '' '') rest)"
    using e(2) unfolding sv_substr_def e(3) by (simp only: if_True)
  moreover have "sv_substr line 0 (length pre) = Some pre" using l(1) by (simp add: sv_substr_def)
  ultimately show ?thesis using True f ne e(1) tw by (simp add: import_line_def line_item_def)
qed

lemma import_lines_spec:
  assumes "\<forall>line \<in> set lines. length line < npos"
  shows "import_lines lines n t kvs = Some (kvs @ List.map_filter line_item lines,
    n + of_nat (length (List.map_filter line_item lines)), t + of_nat (length lines))"
  using assms
proof (induction lines arbitrary: n t kvs)
  case (Cons line lines)
  then show ?case
    by (cases "line_item line") (simp_all add: import_line_spec map_filter_simps algebra_simps)
qed (simp add: map_filter_simps)

text \<open>
  Importing reads a file as documented: each line with a space gives the key before the first
  space and the value behind the spaces that follow it, however many, the rest of the line with
  the spaces in it; the other lines are skipped; nothing is read past the end of a line; the counts
  returned are those of the pairs and of the lines.
\<close>

theorem import_reads_lines:
  assumes "\<forall>line \<in> set lines. length line < npos"
  shows "import_lines lines 0 0 [] = Some (List.map_filter line_item lines,
    of_nat (length (List.map_filter line_item lines)), of_nat (length lines))"
  using import_lines_spec [OF assms, of 0 0 "[]"] by simp

theorem import_reads_lines_witness:
  "import_lines [''/a  b c'', ''none''] 0 0 [] = Some ([RequestData_kv ''/a'' ''b c''], 1, 2)"
  using import_reads_lines [of "[''/a  b c'', ''none'']"]
  by (simp add: npos_val line_item_def map_filter_simps)

end
