(* ===== verification/Observer.thy ===== *)
theory Observer
  imports Messages "HOL-Library.Multiset"
begin

unbundle bit_operations_syntax

text \<open>
  The signal/slot library of \<open>src/service/signal/nano\<close>: the connections of an observer are a vector
  kept sorted by a comparison of delegate keys (\<open>Z_Order\<close> of \<open>nano_observer.hpp\<close>), into which
  \<open>insert\<close> and \<open>remove\<close> search with \<open>std::upper_bound\<close> and \<open>std::equal_range\<close>.  These searches
  require that the comparison is a strict order and that the vector is sorted by it.  The
  comparison is shown to be the order of the Morton codes of the keys, so that it is a strict
  linear order, and the vector to be always sorted, so that \<open>remove\<close> deletes exactly the
  connections of its key.
\<close>

section \<open>Comparing keys\<close>

type_synonym Delegate_Key = "u64 \<times> u64"

definition Z_Order :: "Delegate_Key \<Rightarrow> Delegate_Key \<Rightarrow> bool" where
  "Z_Order lhs rhs =
     (let x = fst lhs XOR fst rhs; y = snd lhs XOR snd rhs; k = (x < y \<and> x < x XOR y)
      in if k then snd lhs < snd rhs else fst lhs < fst rhs)"

text \<open>The Morton code of a key interleaves the bits of its two words.\<close>

fun morton_bits :: "nat \<Rightarrow> nat \<Rightarrow> nat \<Rightarrow> nat" where
  "morton_bits 0 a b = 0"
| "morton_bits (Suc n) a b = 4 * morton_bits n (a div 2) (b div 2) + 2 * (a mod 2) + b mod 2"

definition morton :: "Delegate_Key \<Rightarrow> nat" where
  "morton key = morton_bits 64 (unat (fst key)) (unat (snd key))"

text \<open>The comparison on numbers, to be proved by induction on the number of bits.\<close>

definition z_less :: "nat \<Rightarrow> nat \<Rightarrow> nat \<Rightarrow> nat \<Rightarrow> bool" where
  "z_less a b c d =
     (let x = a XOR c; y = b XOR d in if x < y \<and> x < x XOR y then b < d else a < c)"

lemma Z_Order_nat: "Z_Order l r = z_less (unat (fst l)) (unat (snd l)) (unat (fst r)) (unat (snd r))"
  by (simp add: Z_Order_def z_less_def word_less_nat_alt unsigned_xor_eq Let_def)

lemma xor_div_2: "(a XOR b) div 2 = (a div 2) XOR (b div 2 :: nat)"
  by (metis drop_bit_Suc drop_bit_0 drop_bit_xor One_nat_def drop_bit_eq_div power_one_right)

lemma less_div_2: "a div 2 \<noteq> b div 2 \<Longrightarrow> a < b \<longleftrightarrow> a div 2 < (b div 2 :: nat)"
  by (metis div_le_mono linorder_not_less nat_less_le)

lemma xor_eq_0: "(a XOR b = 0) = (a = (b :: nat))"
  by (metis xor.left_neutral xor.assoc xor_self_eq xor.right_neutral)

lemma xor_eq_left: "(x XOR y = x) = (y = (0 :: nat))"
  by (metis xor.assoc xor.left_neutral xor.right_neutral xor_self_eq)

text \<open>Which word decides depends on the highest differing bit only.\<close>

lemma deciding_word_div_2:
  fixes x y :: nat
  assumes "x div 2 \<noteq> 0 \<or> y div 2 \<noteq> 0"
  shows "x < y \<and> x < x XOR y \<longleftrightarrow> x div 2 < y div 2 \<and> x div 2 < x div 2 XOR y div 2"
proof (cases "x div 2 = y div 2")
  case True
  then have "(x XOR y) div 2 = 0" by (simp add: xor_div_2)
  then have "x XOR y < 2" by simp
  moreover have "2 \<le> x" using True assms by auto
  ultimately show ?thesis using True by simp
next
  case False
  show ?thesis
  proof (cases "y div 2 = 0")
    case True
    then have "y < 2" "2 \<le> x" using assms by auto
    then show ?thesis using True by simp
  next
    case y: False
    then have "x div 2 \<noteq> (x XOR y) div 2" by (metis xor_div_2 xor_eq_left)
    with less_div_2 [OF False] less_div_2 [of x "x XOR y"] show ?thesis by (simp add: xor_div_2)
  qed
qed

lemma z_less_div_2:
  assumes "(a div 2, b div 2) \<noteq> (c div 2, d div 2)"
  shows "z_less a b c d = z_less (a div 2) (b div 2) (c div 2) (d div 2)"
proof -
  define x y where "x = a XOR c" and "y = b XOR d"
  have div: "x div 2 = a div 2 XOR c div 2" "y div 2 = b div 2 XOR d div 2"
    by (simp_all add: x_def y_def xor_div_2)
  have ne: "x div 2 \<noteq> 0 \<or> y div 2 \<noteq> 0" using assms by (simp add: div xor_eq_0)
  note k = deciding_word_div_2 [OF ne]
  show ?thesis
  proof (cases "x < y \<and> x < x XOR y")
    case True
    then have "b div 2 \<noteq> d div 2" using k div by (auto simp: xor_eq_0)
    from less_div_2 [OF this] show ?thesis using True k by (simp add: z_less_def flip: x_def y_def div)
  next
    case False
    then have "x div 2 \<noteq> 0" using k ne by auto
    then have "a div 2 \<noteq> c div 2" using div by (simp add: xor_eq_0)
    from less_div_2 [OF this] show ?thesis using False k by (auto simp: z_less_def Let_def simp flip: x_def y_def div)
  qed
qed

lemma less_same_half: "a div 2 = c div 2 \<Longrightarrow> a < c \<longleftrightarrow> a mod 2 < c mod (2 :: nat)"
  using div_mult_mod_eq [of a 2] div_mult_mod_eq [of c 2] by linarith

lemma digits_eq:
  fixes m p q :: nat
  assumes "4 * m + 2 * p + q = 4 * m' + 2 * p' + q'" and "p < 2" "q < 2" "p' < 2" "q' < 2"
  shows "m = m' \<and> p = p' \<and> q = q'"
proof -
  have "\<not> m < m'" "\<not> m' < m" using assms by linarith+
  then have m: "m = m'" by simp
  moreover have "\<not> p < p'" "\<not> p' < p" using assms m by linarith+
  ultimately show ?thesis using assms(1) by simp
qed

lemma digits_less:
  fixes m p q :: nat
  assumes "m \<noteq> m'" and "p < 2" "q < 2" "p' < 2" "q' < 2"
  shows "4 * m + 2 * p + q < 4 * m' + 2 * p' + q' \<longleftrightarrow> m < m'"
  using assms by linarith

lemma z_less_last:
  assumes "a div 2 = c div 2" and "b div 2 = d div 2"
  shows "z_less a b c d \<longleftrightarrow> 2 * (a mod 2) + b mod 2 < 2 * (c mod 2) + d mod 2"
proof -
  have "a XOR c = (a + c) mod 2" "b XOR d = (b + d) mod 2"
    using assms by (simp_all add: xor_nat_rec [of a c] xor_nat_rec [of b d] mod2_eq_if)
  then show ?thesis
    unfolding z_less_def Let_def less_same_half [OF assms(1)] less_same_half [OF assms(2)]
    by (auto simp: mod2_eq_if split: if_splits)
qed

lemma morton_bits_inj:
  "a < 2 ^ n \<Longrightarrow> b < 2 ^ n \<Longrightarrow> c < 2 ^ n \<Longrightarrow> d < 2 ^ n \<Longrightarrow>
   morton_bits n a b = morton_bits n c d \<Longrightarrow> a = c \<and> b = d"
proof (induction n arbitrary: a b c d)
  case (Suc n)
  have eq: "morton_bits n (a div 2) (b div 2) = morton_bits n (c div 2) (d div 2)"
    "a mod 2 = c mod 2" "b mod 2 = d mod 2"
    using digits_eq [OF Suc.prems(5) [unfolded morton_bits.simps]] by auto
  have "a div 2 = c div 2 \<and> b div 2 = d div 2"
    by (rule Suc.IH [OF _ _ _ _ eq(1)]) (use Suc.prems in \<open>simp_all add: less_mult_imp_div_less mult.commute\<close>)
  with eq(2,3) show ?case by (metis div_mult_mod_eq)
qed simp

lemma z_less_morton_bits:
  "a < 2 ^ n \<Longrightarrow> b < 2 ^ n \<Longrightarrow> c < 2 ^ n \<Longrightarrow> d < 2 ^ n \<Longrightarrow>
   z_less a b c d \<longleftrightarrow> morton_bits n a b < morton_bits n c d"
proof (induction n arbitrary: a b c d)
  case 0
  then show ?case by (simp add: z_less_def)
next
  case (Suc n)
  have lt: "a div 2 < 2 ^ n" "b div 2 < 2 ^ n" "c div 2 < 2 ^ n" "d div 2 < 2 ^ n"
    using Suc.prems by (simp_all add: less_mult_imp_div_less mult.commute)
  let ?l = "morton_bits n (a div 2) (b div 2)" and ?r = "morton_bits n (c div 2) (d div 2)"
  show ?case
  proof (cases "(a div 2, b div 2) = (c div 2, d div 2)")
    case True
    then show ?thesis by (simp add: z_less_last)
  next
    case False
    then have ne: "?l \<noteq> ?r" using morton_bits_inj [OF lt] by auto
    have "4 * ?l + 2 * (a mod 2) + b mod 2 < 4 * ?r + 2 * (c mod 2) + d mod 2 \<longleftrightarrow> ?l < ?r"
      by (rule digits_less [OF ne]) simp_all
    then show ?thesis using Suc.IH [OF lt] z_less_div_2 [OF False] by simp
  qed
qed

lemma unat_64: "unat (w :: u64) < 2 ^ 64"
  using unsigned_less [of w, where 'a = nat] by simp

lemma Z_Order_iff_morton: "Z_Order l r \<longleftrightarrow> morton l < morton r"
  unfolding Z_Order_nat morton_def by (intro z_less_morton_bits unat_64)

lemma morton_inj: "morton l = morton r \<longleftrightarrow> l = r"
  unfolding morton_def
  by (auto simp: prod_eq_iff word_unat_eq_iff dest!: morton_bits_inj [OF unat_64 unat_64 unat_64 unat_64])


section \<open>The vector of connections\<close>

text \<open>
  A connection records its observer; a weak pointer to an observer that is gone is skipped when
  the signal fires.  The searches of the standard library on a sorted vector:
\<close>

record Connection =
  delegate :: Delegate_Key
  observer :: nat

definition lower_bound :: "Connection list \<Rightarrow> Delegate_Key \<Rightarrow> nat" where
  "lower_bound cs key = length (takeWhile (\<lambda>c. Z_Order (delegate c) key) cs)"

definition upper_bound :: "Connection list \<Rightarrow> Delegate_Key \<Rightarrow> nat" where
  "upper_bound cs key = length (takeWhile (\<lambda>c. \<not> Z_Order key (delegate c)) cs)"

definition equal_range :: "Connection list \<Rightarrow> Delegate_Key \<Rightarrow> nat \<times> nat" where
  "equal_range cs key = (lower_bound cs key, upper_bound cs key)"

definition Observer_insert :: "Delegate_Key \<Rightarrow> nat \<Rightarrow> Connection list \<Rightarrow> Connection list" where
  "Observer_insert key obs cs =
     (let i = upper_bound cs key in take i cs @ \<lparr>delegate = key, observer = obs\<rparr> # drop i cs)"

definition Observer_remove :: "Delegate_Key \<Rightarrow> Connection list \<Rightarrow> Connection list" where
  "Observer_remove key cs = (let (i, j) = equal_range cs key in take i cs @ drop j cs)"

definition Observer_is_empty :: "Connection list \<Rightarrow> bool" where
  "Observer_is_empty cs \<longleftrightarrow> cs = []"

text \<open>
  \<open>for_each\<close> calls the delegates of a copy of the vector in its order.  A delegate that does not
  return normally (\<^term>\<open>None\<close>) ends the loop.
\<close>

fun for_each :: "(nat \<Rightarrow> bool) \<Rightarrow> (Delegate_Key \<Rightarrow> 's \<Rightarrow> 's option) \<Rightarrow> Connection list \<Rightarrow> 's \<Rightarrow> 's option" where
  "for_each observed f [] s = Some s"
| "for_each observed f (c # cs) s =
     (if observed (observer c) then do { s \<leftarrow> f (delegate c) s; for_each observed f cs s }
      else for_each observed f cs s)"

definition sorted_connections :: "Connection list \<Rightarrow> bool" where
  "sorted_connections cs = sorted (map (morton \<circ> delegate) cs)"

lemma take_drop_while:
  "take (length (takeWhile P xs)) xs = takeWhile P xs" "drop (length (takeWhile P xs)) xs = dropWhile P xs"
  by (induction xs) auto

lemma sorted_dropWhile_all:
  assumes "sorted (map f xs)" and "x \<in> set (dropWhile (\<lambda>x. \<not> (k :: nat) < f x) xs)"
  shows "k < f x"
  using assms by (induction xs) (force split: if_splits)+

lemma sorted_put:
  "sorted (as @ bs) \<Longrightarrow> \<forall>a \<in> set as. a \<le> k \<Longrightarrow> \<forall>b \<in> set bs. k \<le> b \<Longrightarrow> sorted (as @ k # bs)"
  by (simp add: sorted_append)

lemma sorted_insert:
  assumes "sorted_connections cs"
  shows "sorted_connections (Observer_insert key obs cs)"
proof -
  let ?m = "morton \<circ> delegate"
  let ?P = "\<lambda>c. \<not> morton key < ?m c"
  have "sorted (map ?m (takeWhile ?P cs) @ map ?m (dropWhile ?P cs))"
    using assms by (simp add: sorted_connections_def flip: map_append)
  moreover have "\<forall>a \<in> set (map ?m (takeWhile ?P cs)). a \<le> morton key"
    by (auto dest: set_takeWhileD)
  moreover have "\<forall>b \<in> set (map ?m (dropWhile ?P cs)). morton key \<le> b"
    using assms by (auto simp: sorted_connections_def dest: sorted_dropWhile_all intro: less_imp_le_nat)
  ultimately have "sorted (map ?m (takeWhile ?P cs) @ morton key # map ?m (dropWhile ?P cs))"
    by (rule sorted_put)
  then show ?thesis
    by (simp add: Observer_insert_def upper_bound_def Let_def take_drop_while Z_Order_iff_morton sorted_connections_def)
qed

lemma mset_insert:
  "mset (Observer_insert key obs cs) = add_mset \<lparr>delegate = key, observer = obs\<rparr> (mset cs)"
proof -
  let ?i = "upper_bound cs key"
  have "mset (take ?i cs) + mset (drop ?i cs) = mset cs" by (simp flip: mset_append)
  then show ?thesis by (simp add: Observer_insert_def Let_def)
qed

lemma remove_exact:
  assumes "sorted_connections cs"
  shows "Observer_remove key cs = filter (\<lambda>c. delegate c \<noteq> key) cs"
proof -
  have "takeWhile (\<lambda>c. morton (delegate c) < morton key) cs @ dropWhile (\<lambda>c. \<not> morton key < morton (delegate c)) cs =
      filter (\<lambda>c. morton (delegate c) \<noteq> morton key) cs"
    using assms unfolding sorted_connections_def
  proof (induction cs)
    case (Cons c cs)
    consider "morton (delegate c) < morton key" | "morton (delegate c) = morton key" | "morton key < morton (delegate c)"
      by linarith
    then show ?case
    proof cases
      case 2
      then have "takeWhile (\<lambda>c. morton (delegate c) < morton key) cs = []"
        using Cons.prems by (cases cs) auto
      with 2 Cons show ?thesis by simp
    next
      case 3
      then have "filter (\<lambda>c. morton (delegate c) \<noteq> morton key) cs = cs"
        using Cons.prems by (auto simp: filter_id_conv)
      with 3 show ?thesis by simp
    qed (use Cons in simp)
  qed simp
  then show ?thesis
    by (simp add: Observer_remove_def equal_range_def lower_bound_def upper_bound_def take_drop_while
        Z_Order_iff_morton morton_inj)
qed

lemma sorted_remove: "sorted_connections cs \<Longrightarrow> sorted_connections (Observer_remove key cs)"
  by (simp add: remove_exact) (simp add: sorted_connections_def sorted_wrt_filter sorted_map)

text \<open>
  C32: the comparison of delegate keys, which looks at the highest differing bit with two
  comparisons of exclusive ors, is the order of the Morton codes of the keys.  It is therefore a
  strict linear order, as the binary searches of \<open>insert\<close> and \<open>remove\<close> require.
\<close>

theorem Z_Order_is_morton_order:
  "(Z_Order l r \<longleftrightarrow> morton l < morton r) \<and> (\<not> Z_Order l r \<and> \<not> Z_Order r l \<longleftrightarrow> l = r)"
  by (auto simp: Z_Order_iff_morton morton_inj [of l r, symmetric])

text \<open>The observers of a signal: any sequence of connections and disconnections.\<close>

datatype change = Connect Delegate_Key nat | Disconnect Delegate_Key

fun change_connections :: "change \<Rightarrow> Connection list \<Rightarrow> Connection list" where
  "change_connections (Connect key obs) cs = Observer_insert key obs cs"
| "change_connections (Disconnect key) cs = Observer_remove key cs"

fun change_bag :: "change \<Rightarrow> Connection multiset \<Rightarrow> Connection multiset" where
  "change_bag (Connect key obs) B = add_mset \<lparr>delegate = key, observer = obs\<rparr> B"
| "change_bag (Disconnect key) B = filter_mset (\<lambda>c. delegate c \<noteq> key) B"

lemma change_sorted: "sorted_connections cs \<Longrightarrow> sorted_connections (change_connections ch cs)"
  by (cases ch) (simp_all add: sorted_insert sorted_remove)

lemma change_mset: "sorted_connections cs \<Longrightarrow> mset (change_connections ch cs) = change_bag ch (mset cs)"
  by (cases ch) (simp_all add: mset_insert remove_exact)

lemma changes_refine:
  "sorted_connections cs \<Longrightarrow> sorted_connections (fold change_connections chs cs) \<and>
   mset (fold change_connections chs cs) = fold change_bag chs (mset cs)"
  by (induction chs arbitrary: cs) (simp_all add: change_sorted change_mset)

text \<open>
  The connections of a signal are a bag: after any sequence of \<open>connect\<close> and \<open>disconnect\<close> calls
  the vector is sorted and holds exactly the connections made and not disconnected since, whatever
  the addresses are; a disconnection removes every connection of its delegate and no other.
\<close>

theorem connections_refine_bag:
  "sorted_connections (fold change_connections chs []) \<and>
   mset (fold change_connections chs []) = fold change_bag chs {#}"
  using changes_refine [of "[]" chs] by (simp add: sorted_connections_def)

end
