(* ===== verification/Notifier.thy ===== *)
theory Notifier
  imports Observer Wire Pool
begin

text \<open>
  Notifications of changes: \<open>src/service/signal/signal.hpp\<close> and \<open>src/service/tcp/notifier.cpp\<close>.
  Every connection of a peer to the notification port has a \<open>Listener\<close> with a queue; a change is
  emitted to the signal manager, whose signal calls \<open>notify\<close> of every connected listener, and the
  coroutine of the connection takes the notifications from the queue and writes them to the peer.

  The queue (\<open>common/util/concurrentqueue.h\<close>) is a parameter with the laws of a bag: what is
  enqueued is dequeued once, in an order that the library does not promise across threads.  The
  address of the function that calls \<open>notify\<close>, part of every delegate key, is a parameter too.
\<close>

record 'q Platform =
  queue_empty :: 'q
  enqueue :: "bytes \<Rightarrow> 'q \<Rightarrow> 'q"
  try_dequeue :: "'q \<Rightarrow> (bytes \<times> 'q) option"
  notify_thunk :: u64

locale concurrent_queue =
  fixes P :: "'q Platform" and bag :: "'q \<Rightarrow> bytes multiset"
  assumes bag_empty: "bag (queue_empty P) = {#}"
    and bag_enqueue: "bag (enqueue P b q) = add_mset b (bag q)"
    and dequeue_none: "try_dequeue P q = None \<longleftrightarrow> bag q = {#}"
    and dequeue_some: "try_dequeue P q = Some (b, q') \<Longrightarrow> bag q = add_mset b (bag q')"

text \<open>An instance that is first in, first out, as the queue is for one producer.\<close>

definition fifo :: "u64 \<Rightarrow> bytes list Platform" where
  "fifo thunk = \<lparr>queue_empty = [], enqueue = (\<lambda>b q. q @ [b]),
     try_dequeue = (\<lambda>q. case q of [] \<Rightarrow> None | b # q' \<Rightarrow> Some (b, q')), notify_thunk = thunk\<rparr>"

interpretation fifo: concurrent_queue "fifo thunk" mset
  by unfold_locales (auto simp: fifo_def split: list.splits)

section \<open>Listeners and the signal manager\<close>

record 'q Listener =
  queue :: 'q
  ping :: string
  time :: int

text \<open>The connections of the signal and the listeners that exist, by address.\<close>

record 'q Signals =
  connections :: "Connection list"
  listeners :: "u64 \<Rightarrow> 'q Listener option"

definition Signals_init :: "'q Signals" where
  "Signals_init = \<lparr>connections = [], listeners = Map.empty\<rparr>"

definition notify_key :: "'q Platform \<Rightarrow> u64 \<Rightarrow> Delegate_Key" where
  "notify_key P p = (p, notify_thunk P)"

definition SignalMgr_connect :: "'q Platform \<Rightarrow> u64 \<Rightarrow> 'q Signals \<Rightarrow> 'q Signals" where
  "SignalMgr_connect P p st = st\<lparr>connections := Observer_insert (notify_key P p) 0 (connections st)\<rparr>"

definition SignalMgr_disconnect :: "'q Platform \<Rightarrow> u64 \<Rightarrow> 'q Signals \<Rightarrow> 'q Signals" where
  "SignalMgr_disconnect P p st = st\<lparr>connections := Observer_remove (notify_key P p) (connections st)\<rparr>"

definition Listener_new :: "'q Platform \<Rightarrow> int \<Rightarrow> u64 \<Rightarrow> 'q Signals \<Rightarrow> 'q Signals" where
  "Listener_new P now p st = SignalMgr_connect P p
     (st\<lparr>listeners := (listeners st)(p \<mapsto> \<lparr>queue = queue_empty P, ping = ''ping'', time = now\<rparr>)\<rparr>)"

definition Listener_destroy :: "'q Platform \<Rightarrow> u64 \<Rightarrow> 'q Signals \<Rightarrow> 'q Signals" where
  "Listener_destroy P p st = (SignalMgr_disconnect P p st)\<lparr>listeners := (listeners st)(p := None)\<rparr>"

text \<open>\<open>notify\<close> on the listener at an address; with no listener there the call is undefined.\<close>

definition Listener_notify :: "'q Platform \<Rightarrow> bytes \<Rightarrow> u64 \<Rightarrow> 'q Signals \<Rightarrow> 'q Signals option" where
  "Listener_notify P b p st =
     (case listeners st p of
        None \<Rightarrow> None
      | Some l \<Rightarrow> Some (st\<lparr>listeners := (listeners st)(p \<mapsto> l\<lparr>queue := enqueue P b (queue l)\<rparr>)\<rparr>))"

definition SignalMgr_emit :: "'q Platform \<Rightarrow> bytes \<Rightarrow> 'q Signals \<Rightarrow> 'q Signals option" where
  "SignalMgr_emit P b st = for_each (\<lambda>_. True) (\<lambda>key. Listener_notify P b (fst key)) (connections st) st"

section \<open>Writing notifications\<close>

text \<open>
  \<open>respond\<close>: one notification is written with its size before it; with an empty queue a ping is
  written when the last one is more than 15 seconds old.  Write errors are only logged.
\<close>

definition notifier_respond ::
  "'q Platform \<Rightarrow> int \<Rightarrow> 'q Listener \<Rightarrow> Socket \<Rightarrow> 'q Listener \<times> Socket" where
  "notifier_respond P now l sock =
     (case try_dequeue P (queue l) of
        None \<Rightarrow>
          if to_seconds (now - time l) > 15 then (l\<lparr>time := now\<rparr>, async_write (ping l) sock)
          else (l, sock)
      | Some (b, q) \<Rightarrow>
          let size = (word_of_nat (length b) :: u32)
          in (l\<lparr>queue := q\<rparr>, async_write (le32 size @ take (unat size) b) sock))"

text \<open>The loop of \<open>serve\<close> for as many rounds as there are clock readings; it has no exit of its own.\<close>

fun notifier_serve :: "'q Platform \<Rightarrow> int list \<Rightarrow> 'q Listener \<Rightarrow> Socket \<Rightarrow> 'q Listener \<times> Socket" where
  "notifier_serve P [] l sock = (l, sock)"
| "notifier_serve P (now # nows) l sock =
     (let (l, sock) = notifier_respond P now l sock in notifier_serve P nows l sock)"

section \<open>Every listener is notified\<close>

text \<open>
  The signal is connected to the listeners that exist, each once.
\<close>

definition signals_inv :: "'q Platform \<Rightarrow> 'q Signals \<Rightarrow> bool" where
  "signals_inv P st \<longleftrightarrow> sorted_connections (connections st) \<and>
     distinct (map delegate (connections st)) \<and>
     delegate ` set (connections st) = notify_key P ` dom (listeners st)"

lemma notify_key_eq [simp]: "notify_key P p = notify_key P q \<longleftrightarrow> p = q" "fst (notify_key P p) = p"
  by (simp_all add: notify_key_def)

lemma signals_inv_init [simp]: "signals_inv P Signals_init"
  by (simp add: signals_inv_def Signals_init_def sorted_connections_def)

lemma signals_inv_new:
  assumes "signals_inv P st" and "listeners st p = None"
  shows "signals_inv P (Listener_new P now p st)"
proof -
  have ms: "mset (Observer_insert (notify_key P p) 0 (connections st)) =
      add_mset \<lparr>delegate = notify_key P p, observer = 0\<rparr> (mset (connections st))" by (rule mset_insert)
  have "notify_key P p \<notin> delegate ` set (connections st)" "distinct (map delegate (connections st))"
    using assms by (auto simp: signals_inv_def)
  then have "distinct (map delegate (\<lparr>delegate = notify_key P p, observer = 0\<rparr> # connections st))" by simp
  moreover have "mset (map delegate (\<lparr>delegate = notify_key P p, observer = 0\<rparr> # connections st)) =
      mset (map delegate (Observer_insert (notify_key P p) 0 (connections st)))" by (simp add: ms)
  ultimately have "distinct (map delegate (Observer_insert (notify_key P p) 0 (connections st)))"
    using mset_eq_imp_distinct_iff by blast
  moreover have "set (Observer_insert (notify_key P p) 0 (connections st)) =
      insert \<lparr>delegate = notify_key P p, observer = 0\<rparr> (set (connections st))"
    using arg_cong [OF ms, of set_mset] by simp
  ultimately show ?thesis using assms
    by (simp add: signals_inv_def Listener_new_def SignalMgr_connect_def sorted_insert)
qed

lemma signals_inv_destroy:
  assumes "signals_inv P st"
  shows "signals_inv P (Listener_destroy P p st)"
proof -
  have "delegate ` {c \<in> set (connections st). delegate c \<noteq> notify_key P p} =
      delegate ` set (connections st) - {notify_key P p}" by auto
  also have "\<dots> = notify_key P ` (dom (listeners st) - {p})" using assms by (auto simp: signals_inv_def)
  finally show ?thesis using assms sorted_remove [of "connections st" "notify_key P p"]
    by (simp add: signals_inv_def Listener_destroy_def SignalMgr_disconnect_def remove_exact
        distinct_map_filter)
qed

text \<open>Firing at a list of distinct delegates of existing listeners enqueues at each of them once.\<close>

lemma for_each_notify:
  assumes "distinct (map delegate cs)" and "delegate ` set cs \<subseteq> notify_key P ` dom (listeners st)"
  shows "for_each (\<lambda>_. True) (\<lambda>key. Listener_notify P b (fst key)) cs st =
    Some (st\<lparr>listeners := (\<lambda>p. if notify_key P p \<in> delegate ` set cs
       then map_option (\<lambda>l. l\<lparr>queue := enqueue P b (queue l)\<rparr>) (listeners st p) else listeners st p)\<rparr>)"
  using assms
proof (induction cs arbitrary: st)
  case Nil
  then show ?case by simp
next
  case (Cons c cs)
  from Cons.prems obtain p l where c: "delegate c = notify_key P p" "listeners st p = Some l" by auto
  let ?st = "st\<lparr>listeners := (listeners st)(p \<mapsto> l\<lparr>queue := enqueue P b (queue l)\<rparr>)\<rparr>"
  have "delegate ` set cs \<subseteq> notify_key P ` dom (listeners ?st)" using Cons.prems(2) by auto
  note IH = Cons.IH [OF _ this]
  have fresh: "notify_key P p \<notin> delegate ` set cs" and dis: "distinct (map delegate cs)"
    using Cons.prems(1) c(1) by auto
  have "for_each (\<lambda>_. True) (\<lambda>key. Listener_notify P b (fst key)) (c # cs) st =
      for_each (\<lambda>_. True) (\<lambda>key. Listener_notify P b (fst key)) cs ?st"
    using c by (simp add: Listener_notify_def)
  also have "\<dots> = Some (?st\<lparr>listeners := (\<lambda>q. if notify_key P q \<in> delegate ` set cs
       then map_option (\<lambda>l. l\<lparr>queue := enqueue P b (queue l)\<rparr>) (listeners ?st q) else listeners ?st q)\<rparr>)"
    by (rule IH [OF dis])
  also have "(\<lambda>q. if notify_key P q \<in> delegate ` set cs
       then map_option (\<lambda>l. l\<lparr>queue := enqueue P b (queue l)\<rparr>) (listeners ?st q) else listeners ?st q) =
      (\<lambda>q. if notify_key P q \<in> delegate ` set (c # cs)
       then map_option (\<lambda>l. l\<lparr>queue := enqueue P b (queue l)\<rparr>) (listeners st q) else listeners st q)"
    using c fresh by (intro ext) simp
  finally show ?case by simp
qed

lemma emit_all:
  assumes "signals_inv P st"
  shows "SignalMgr_emit P b st =
    Some (st\<lparr>listeners := (\<lambda>p. map_option (\<lambda>l. l\<lparr>queue := enqueue P b (queue l)\<rparr>) (listeners st p))\<rparr>)"
proof -
  have "(if notify_key P p \<in> delegate ` set (connections st)
      then map_option (\<lambda>l. l\<lparr>queue := enqueue P b (queue l)\<rparr>) (listeners st p) else listeners st p) =
    map_option (\<lambda>l. l\<lparr>queue := enqueue P b (queue l)\<rparr>) (listeners st p)" for p
    using assms by (cases "listeners st p") (auto simp: signals_inv_def)
  then show ?thesis
    using for_each_notify [of "connections st" P st b] assms by (simp add: SignalMgr_emit_def signals_inv_def)
qed

lemma signals_inv_emit: "signals_inv P st \<Longrightarrow> SignalMgr_emit P b st = Some st' \<Longrightarrow> signals_inv P st'"
  by (auto simp: emit_all) (simp add: signals_inv_def dom_def)

text \<open>The life of the signal manager: listeners come and go, changes are emitted, queues are served.\<close>

inductive notifier_step :: "'q Platform \<Rightarrow> 'q Signals \<Rightarrow> 'q Signals \<Rightarrow> bool" for P where
  connect: "listeners st p = None \<Longrightarrow> notifier_step P st (Listener_new P now p st)"
| disconnect: "listeners st p = Some l \<Longrightarrow> notifier_step P st (Listener_destroy P p st)"
| emit: "SignalMgr_emit P b st = Some st' \<Longrightarrow> notifier_step P st st'"
| serve: "listeners st p = Some l \<Longrightarrow> notifier_respond P now l sock = (l', sock') \<Longrightarrow>
    notifier_step P st (st\<lparr>listeners := (listeners st)(p \<mapsto> l')\<rparr>)"

inductive_cases notifier_stepE: "notifier_step P st st'"

lemma signals_inv_step: "notifier_step P st st' \<Longrightarrow> signals_inv P st \<Longrightarrow> signals_inv P st'"
proof (induction rule: notifier_step.induct)
  case (serve st p l now sock l' sock')
  then have "dom (listeners (st\<lparr>listeners := (listeners st)(p \<mapsto> l')\<rparr>)) = dom (listeners st)" by auto
  with serve.prems show ?case by (simp add: signals_inv_def)
qed (simp_all add: signals_inv_new signals_inv_destroy signals_inv_emit)

lemma signals_inv_reachable: "(notifier_step P)\<^sup>*\<^sup>* Signals_init st \<Longrightarrow> signals_inv P st"
  by (induction rule: rtranclp_induct) (auto intro: signals_inv_step)



section \<open>Every notification is written\<close>

context concurrent_queue
begin

lemma respond_dequeues:
  assumes "bag (queue l) \<noteq> {#}" and "\<forall>b \<in># bag (queue l). length b < 2 ^ 32"
  shows "\<exists>b q. notifier_respond P now l sock = (l\<lparr>queue := q\<rparr>, async_write (frame_bytes b) sock) \<and>
    bag (queue l) = add_mset b (bag q)"
proof -
  from assms(1) obtain b q where d: "try_dequeue P (queue l) = Some (b, q)"
    using dequeue_none by (cases "try_dequeue P (queue l)") auto
  then have "length b < 2 ^ 32" using dequeue_some [OF d] assms(2) by simp
  then have "unat (word_of_nat (length b) :: u32) = length b" by (simp add: unat_of_nat take_bit_nat_eq_self)
  with d dequeue_some [OF d] show ?thesis by (auto simp: notifier_respond_def frame_bytes_def Let_def)
qed

lemma serve_delivers:
  assumes "size (bag (queue l)) = length nows" and "\<forall>b \<in># bag (queue l). length b < 2 ^ 32"
  shows "\<exists>bs l'. notifier_serve P nows l sock = (l', async_write (concat (map frame_bytes bs)) sock) \<and>
    mset bs = bag (queue l) \<and> bag (queue l') = {#}"
  using assms
proof (induction nows arbitrary: l sock)
  case Nil
  then show ?case by (auto simp: async_write_def)
next
  case (Cons now nows)
  have "bag (queue l) \<noteq> {#}" using Cons.prems(1) by auto
  from respond_dequeues [OF this Cons.prems(2)] obtain b q where
    one: "notifier_respond P now l sock = (l\<lparr>queue := q\<rparr>, async_write (frame_bytes b) sock)"
    "bag (queue l) = add_mset b (bag q)" by blast
  from Cons.IH [of "l\<lparr>queue := q\<rparr>" "async_write (frame_bytes b) sock"] Cons.prems one(2) obtain bs l' where
    "notifier_serve P nows (l\<lparr>queue := q\<rparr>) (async_write (frame_bytes b) sock) =
      (l', async_write (concat (map frame_bytes bs)) (async_write (frame_bytes b) sock))"
    "mset bs = bag q" "bag (queue l') = {#}" by auto
  with one show ?case
    by (intro exI [of _ "b # bs"] exI [of _ l']) (simp add: async_write_def)
qed

end

text \<open>
  C31: every notification is delivered: serving a listener for as many rounds as its queue holds
  notifications writes each of them exactly once, framed by its size, and leaves the queue empty.
\<close>

theorem notifications_are_delivered:
  assumes "concurrent_queue P bag" and "length nows = size (bag (queue l))"
    and "\<forall>b \<in># bag (queue l). length b < 2 ^ 32"
  shows "\<exists>bs l'. notifier_serve P nows l sock = (l', async_write (concat (map frame_bytes bs)) sock) \<and>
    mset bs = bag (queue l) \<and> bag (queue l') = {#}"
  using concurrent_queue.serve_delivers [OF assms(1) assms(2) [symmetric] assms(3)] by blast

theorem notifications_are_delivered_witness:
  "\<exists>bs l'. notifier_serve (fifo 9) [0, 0] \<lparr>queue = [''a'', ''b''], ping = ''ping'', time = 0\<rparr>
       \<lparr>incoming = [], outgoing = [], is_open = True\<rparr> =
     (l', async_write (concat (map frame_bytes bs)) \<lparr>incoming = [], outgoing = [], is_open = True\<rparr>) \<and>
     mset bs = {#''a'', ''b''#} \<and> mset (queue l') = {#}"
  using notifications_are_delivered [OF fifo.concurrent_queue_axioms [of 9], of "[0, 0]"
      "\<lparr>queue = [''a'', ''b''], ping = ''ping'', time = 0\<rparr>" "\<lparr>incoming = [], outgoing = [], is_open = True\<rparr>"]
  by simp

end
