(* ===== verification/TCP_Server.thy ===== *)
theory TCP_Server
  imports Storage Flatbuffers Notifier
begin

text \<open>
  The TCP service, \<open>src/service/tcp/server.cpp\<close>: the handlers of the six actions, \<open>process\<close> that
  selects one, \<open>respond\<close> that reads one document from the socket and answers it, and the loop of
  \<open>serve\<close>.  A handler reads the tables of the request, calls the batch method of the storage,
  emits the received bytes to the peers when the change succeeded and peers are configured, and
  writes the response framed by its size.  A table field that is a null pointer makes the handler
  undefined, \<^term>\<open>None\<close>, as does a storage method that does not return.
\<close>

record ('s, 't, 'x, 'q) Env =
  ext :: "('s, 't, 'x) Ext"
  fbs :: FlatBuffers
  platform :: "'q Platform"

record ('s, 't, 'x, 'q) Server =
  srv_db :: "('s, 't, 'x) Database"
  srv_signals :: "'q Signals"

type_synonym ('s, 't, 'x, 'q) handler =
  "('s, 't, 'x, 'q) Env \<Rightarrow> Request \<Rightarrow> Socket \<Rightarrow> ('s, 't, 'x, 'q) Server \<Rightarrow>
   (Socket \<times> ('s, 't, 'x, 'q) Server) option"

section \<open>Writing\<close>

text \<open>\<open>write\<close> of a vector throws when its size is no \<open>uint32_t\<close>; the size of a builder is one.\<close>

definition write_vector :: "bytes \<Rightarrow> Socket \<Rightarrow> Socket option" where
  "write_vector buf sock =
     (if length buf < 2 ^ 32 then Some (async_write (le32 (word_of_nat (length buf)) @ buf) sock) else None)"

definition write_builder :: "bytes \<Rightarrow> Socket \<Rightarrow> Socket" where
  "write_builder buf sock =
     (let size = (word_of_nat (length buf) :: u32) in async_write (le32 size @ take (unat size) buf) sock)"

definition write_response :: "('s, 't, 'x, 'q) Env \<Rightarrow> ResultVariant \<Rightarrow> Socket \<Rightarrow> Socket" where
  "write_response X r sock = write_builder (FinishResponse (fbs X) r) sock"

section \<open>Reading the request tables\<close>

definition keys_of :: "Request \<Rightarrow> string list option" where
  "keys_of request = do { kvs \<leftarrow> req_data request; those (map kv_key kvs) }"

definition pair_of :: "KeyValueTable \<Rightarrow> RequestData option" where
  "pair_of kv = do {
     k \<leftarrow> kv_key kv;
     v \<leftarrow> kv_value kv;
     Some (case kv_options kv of
        None \<Rightarrow> RequestData_kv k v
      | Some opts \<Rightarrow> RequestData_opts k v
          (Options_all (expiration_in_seconds opts) (if_not_exists opts) (cache opts))) }"

definition pairs_of :: "Request \<Rightarrow> RequestData list option" where
  "pairs_of request = do { kvs \<leftarrow> req_data request; those (map pair_of kvs) }"

definition emit_change ::
  "('s, 't, 'x, 'q) Env \<Rightarrow> bool \<Rightarrow> bytes \<Rightarrow> ('s, 't, 'x, 'q) Server \<Rightarrow> ('s, 't, 'x, 'q) Server option" where
  "emit_change X value rbuf srv =
     (if value \<and> peers (conf (ext X)) \<noteq> []
      then map_option (\<lambda>sg. srv\<lparr>srv_signals := sg\<rparr>) (SignalMgr_emit (platform X) rbuf (srv_signals srv))
      else Some srv)"

section \<open>The handlers\<close>

definition tcp_get :: "('s, 't, 'x, 'q) handler" where
  "tcp_get X request sock srv = do {
     keys \<leftarrow> keys_of request;
     (rs, d) \<leftarrow> Database_get_batch (ext X) keys (srv_db srv);
     let vec = map (\<lambda>(k, v). CreateKeyValueResult k (case v of Some v \<Rightarrow> Value v | None \<Rightarrow> Success False)) rs;
     Some (write_response X (KeyValueResults vec) sock, srv\<lparr>srv_db := d\<rparr>) }"

definition tcp_list :: "('s, 't, 'x, 'q) handler" where
  "tcp_list X request sock srv = do {
     keys \<leftarrow> keys_of request;
     let rs = Database_list_batch (ext X) keys (srv_db srv);
     let vec = map (\<lambda>(k, v). CreateKeyValueResult k (case v of Some v \<Rightarrow> Children v | None \<Rightarrow> Success False)) rs;
     Some (write_response X (KeyValueResults vec) sock, srv) }"

definition tcp_put :: "bytes \<Rightarrow> ('s, 't, 'x, 'q) handler" where
  "tcp_put rbuf X request sock srv = do {
     pairs \<leftarrow> pairs_of request;
     (value, d) \<leftarrow> Database_set_batch (ext X) pairs (srv_db srv);
     srv \<leftarrow> emit_change X value rbuf (srv\<lparr>srv_db := d\<rparr>);
     Some (write_response X (SuccessResult value) sock, srv) }"

definition tcp_remove :: "bytes \<Rightarrow> ('s, 't, 'x, 'q) handler" where
  "tcp_remove rbuf X request sock srv = do {
     keys \<leftarrow> keys_of request;
     (value, d) \<leftarrow> Database_remove_batch (ext X) keys (srv_db srv);
     srv \<leftarrow> emit_change X value rbuf (srv\<lparr>srv_db := d\<rparr>);
     Some (write_response X (SuccessResult value) sock, srv) }"

definition tcp_move :: "bytes \<Rightarrow> ('s, 't, 'x, 'q) handler" where
  "tcp_move rbuf X request sock srv = do {
     pairs \<leftarrow> pairs_of request;
     (value, d) \<leftarrow> Database_move_batch (ext X) pairs (srv_db srv);
     srv \<leftarrow> emit_change X value rbuf (srv\<lparr>srv_db := d\<rparr>);
     Some (write_response X (SuccessResult value) sock, srv) }"

definition tcp_ttl :: "('s, 't, 'x, 'q) handler" where
  "tcp_ttl X request sock srv = do {
     keys \<leftarrow> keys_of request;
     let (rs, d) = Database_ttl_batch (ext X) keys (srv_db srv);
     let vec = map (\<lambda>(k, v). CreateKeyValueResult k (Value (int_to_string v))) rs;
     Some (write_response X (KeyValueResults vec) sock, srv\<lparr>srv_db := d\<rparr>) }"

definition tcp_process :: "bytes \<Rightarrow> ('s, 't, 'x, 'q) handler" where
  "tcp_process rbuf X request sock srv =
     (case req_action request of
        Get \<Rightarrow> tcp_get X request sock srv
      | List \<Rightarrow> tcp_list X request sock srv
      | Put \<Rightarrow> tcp_put rbuf X request sock srv
      | Delete \<Rightarrow> tcp_remove rbuf X request sock srv
      | Move \<Rightarrow> tcp_move rbuf X request sock srv
      | TTL \<Rightarrow> tcp_ttl X request sock srv)"

section \<open>One document\<close>

text \<open>How a call of \<open>respond\<close> ends other than by returning: the exception at the end of the stream, or
  one that the handler throws (or undefined behaviour).\<close>

datatype fault = Eof | Abnormal

definition or_abnormal :: "'a option \<Rightarrow> fault + 'a" where
  "or_abnormal r = (case r of None \<Rightarrow> Inl Abnormal | Some x \<Rightarrow> Inr x)"

text \<open>Verify and process what has been read.\<close>

definition tcp_handle :: "('s, 't, 'x, 'q) Env \<Rightarrow> bytes \<Rightarrow> Socket \<Rightarrow> ('s, 't, 'x, 'q) Server \<Rightarrow>
    (Socket \<times> ('s, 't, 'x, 'q) Server) option" where
  "tcp_handle X rbuf sock srv =
     (if \<not> VerifyRequestBuffer (fbs X) rbuf then map_option (\<lambda>sock. (sock, srv)) (write_vector rbuf sock)
      else do { request \<leftarrow> GetRequest (fbs X) rbuf; tcp_process rbuf X request sock srv })"

definition tcp_respond :: "('s, 't, 'x, 'q) Env \<Rightarrow> Socket \<Rightarrow> ('s, 't, 'x, 'q) Server \<Rightarrow>
    fault + Socket \<times> ('s, 't, 'x, 'q) Server" where
  "tcp_respond X sock srv =
     (case read_some bufSize (incoming sock) of
        None \<Rightarrow> Inl Eof
      | Some (data, segs) \<Rightarrow>
          let sock = sock\<lparr>incoming := segs\<rparr>; docSize = documentSize data; rbuf = drop 4 data in
          if docSize < 5 then Inr (async_write (take docSize data) sock, srv)
          else if docSize \<le> bufSize then or_abnormal (tcp_handle X rbuf sock srv)
          else case read_loop docSize (length data) rbuf segs of
                 None \<Rightarrow> Inl Eof
               | Some (rbuf, segs) \<Rightarrow> or_abnormal (tcp_handle X rbuf (sock\<lparr>incoming := segs\<rparr>) srv))"

section \<open>A connection\<close>

lemma write_response_incoming [simp]: "incoming (write_response X r sock) = incoming sock"
  by (simp add: write_response_def write_builder_def Let_def)

lemma tcp_process_incoming:
  "tcp_process rbuf X request sock srv = Some (sock', srv') \<Longrightarrow> incoming sock' = incoming sock"
  by (cases "req_action request")
    (auto simp: tcp_process_def tcp_get_def tcp_list_def tcp_put_def tcp_remove_def tcp_move_def tcp_ttl_def
      Let_def case_prod_beta split: bind_splits)

lemma tcp_handle_incoming:
  "tcp_handle X rbuf sock srv = Some (sock', srv') \<Longrightarrow> incoming sock' = incoming sock"
  by (auto simp: tcp_handle_def write_vector_def split: if_splits bind_splits dest: tcp_process_incoming)

lemma tcp_respond_consumes:
  assumes "tcp_respond X sock srv = Inr (sock', srv')"
  shows "length (concat (incoming sock')) < length (concat (incoming sock))"
proof -
  from assms obtain data segs where r: "read_some bufSize (incoming sock) = Some (data, segs)"
    by (auto simp: tcp_respond_def split: option.splits)
  have "length (concat (incoming sock')) \<le> length (concat segs)"
    using assms r
    by (auto simp: tcp_respond_def or_abnormal_def Let_def split: if_splits option.splits
        dest!: tcp_handle_incoming) (erule read_loop_shorter)
  also have "\<dots> < length (concat (incoming sock))" by (rule read_some_shorter [OF r]) (simp add: bufSize_def)
  finally show ?thesis .
qed

text \<open>
  \<open>serve\<close>: documents are answered until the peer closes the connection; \<^term>\<open>None\<close> when a handler
  does not return.  Every round reads at least one byte, so the loop ends with the stream.
\<close>

function tcp_serve :: "('s, 't, 'x, 'q) Env \<Rightarrow> Socket \<Rightarrow> ('s, 't, 'x, 'q) Server \<Rightarrow>
    (Socket \<times> ('s, 't, 'x, 'q) Server) option" where
  "tcp_serve X sock srv =
     (case tcp_respond X sock srv of
        Inl Eof \<Rightarrow> Some (sock, srv)
      | Inl Abnormal \<Rightarrow> None
      | Inr (sock', srv') \<Rightarrow> tcp_serve X sock' srv')"
  by pat_completeness auto
termination
  by (relation "measure (\<lambda>(_, sock, _). length (concat (incoming sock)))") (auto dest: tcp_respond_consumes)

declare tcp_serve.simps [simp del]


section \<open>Framing\<close>

lemma tcp_respond_frame:
  assumes "delivered payload segs" and "incoming sock = segs @ rest"
  shows "tcp_respond X sock srv = or_abnormal (tcp_handle X payload (sock\<lparr>incoming := rest\<rparr>) srv)"
  using assms(1)
proof (cases rule: delivered_read [of _ _ rest])
  case (whole data)
  then show ?thesis using assms(2) by (simp add: tcp_respond_def)
next
  case (pieces data segs')
  then show ?thesis using assms(2) by (simp add: tcp_respond_def Let_def)
qed

text \<open>What the handler of one document appends, and the documents of a connection in turn.\<close>

fun tcp_handle_all :: "('s, 't, 'x, 'q) Env \<Rightarrow> bytes list \<Rightarrow> Socket \<Rightarrow> ('s, 't, 'x, 'q) Server \<Rightarrow>
    (Socket \<times> ('s, 't, 'x, 'q) Server) option" where
  "tcp_handle_all X [] sock srv = Some (sock, srv)"
| "tcp_handle_all X (p # ps) sock srv = do {
     (sock, srv) \<leftarrow> tcp_handle X p sock srv;
     tcp_handle_all X ps sock srv }"

lemma tcp_handle_rest:
  "tcp_handle X p (sock\<lparr>incoming := r\<rparr>) srv =
   map_option (\<lambda>(sock, srv). (sock\<lparr>incoming := r\<rparr>, srv)) (tcp_handle X p sock srv)"
  unfolding tcp_handle_def tcp_process_def tcp_get_def tcp_list_def tcp_put_def tcp_remove_def tcp_move_def
    tcp_ttl_def write_response_def write_builder_def write_vector_def async_write_def Let_def
  by (auto split: if_splits bind_splits Action.splits simp: case_prod_beta)

lemma tcp_handle_all_rest:
  "tcp_handle_all X ps (sock\<lparr>incoming := r\<rparr>) srv =
   map_option (\<lambda>(sock, srv). (sock\<lparr>incoming := r\<rparr>, srv)) (tcp_handle_all X ps sock srv)"
proof (induction ps arbitrary: sock srv)
  case (Cons p ps)
  then show ?case
    by (cases "tcp_handle X p sock srv") (auto simp: tcp_handle_rest)
qed simp

lemma tcp_serve_frames:
  assumes "list_all2 delivered ps segss" and "incoming sock = concat segss"
  shows "tcp_serve X sock srv = tcp_handle_all X ps (sock\<lparr>incoming := []\<rparr>) srv"
  using assms
proof (induction ps segss arbitrary: sock srv rule: list_all2_induct)
  case Nil
  then have "sock\<lparr>incoming := []\<rparr> = sock" by simp
  with Nil show ?case by (simp add: tcp_serve.simps tcp_respond_def)
next
  case (Cons p ps segs segss)
  have r: "tcp_respond X sock srv = or_abnormal (tcp_handle X p (sock\<lparr>incoming := concat segss\<rparr>) srv)"
    using tcp_respond_frame [OF Cons.hyps(1), of sock "concat segss"] Cons.prems by simp
  show ?case
  proof (cases "tcp_handle X p sock srv")
    case None
    then show ?thesis using r by (simp add: tcp_serve.simps [of X sock] or_abnormal_def tcp_handle_rest)
  next
    case (Some y)
    obtain sock' srv' where y: "y = (sock', srv')" by fastforce
    have "tcp_serve X (sock'\<lparr>incoming := concat segss\<rparr>) srv' = tcp_handle_all X ps (sock'\<lparr>incoming := []\<rparr>) srv'"
      using Cons.IH [of "sock'\<lparr>incoming := concat segss\<rparr>"] by simp
    with Some y show ?thesis using r
      by (simp add: tcp_serve.simps [of X sock] or_abnormal_def tcp_handle_rest)
  qed
qed

text \<open>
  C20: a connection answers documents one after the other: when every framed document arrives as
  described (a document of at most 128 bytes in one piece, a longer one in any pieces of which the
  first has five bytes, no piece holding bytes of two documents), \<open>serve\<close> hands exactly the
  documents that were sent, in order, to verification and processing, and returns when the peer
  closes the connection.
\<close>

theorem serve_processes_each_document:
  assumes "list_all2 delivered payloads segss" and "incoming sock = concat segss"
  shows "tcp_serve X sock srv = tcp_handle_all X payloads (sock\<lparr>incoming := []\<rparr>) srv"
  by (rule tcp_serve_frames [OF assms])


text \<open>Reading a stream that arrived in one piece passes over a size that is no multiple of the buffer.\<close>

lemma read_loop_skips:
  assumes "docSize < maxBytes" and "\<not> bufSize dvd docSize"
  shows "bufSize dvd rd \<Longrightarrow> docSize < rd + length c \<Longrightarrow> read_loop docSize rd rbuf [c] = None"
proof (induction "length c" arbitrary: c rd rbuf rule: less_induct)
  case less
  have ne: "rd \<noteq> docSize" using less.prems(1) assms(2) by auto
  show ?case
  proof (cases "docSize < rd")
    case True
    then show ?thesis by (rule read_loop_overrun [OF assms(1)])
  next
    case False
    then have c: "c \<noteq> []" using less.prems(2) by auto
    show ?thesis
    proof (cases "length c \<le> bufSize")
      case True
      then have "read_loop docSize rd rbuf [c] = read_loop docSize (rd + length c) (rbuf @ c) []"
        using c ne assms(1) by (simp add: read_loop.simps [of _ rd])
      also have "\<dots> = None" using less.prems(2) by (intro read_loop_overrun [OF assms(1)])
      finally show ?thesis .
    next
      case False
      then have "read_loop docSize rd rbuf [c] =
          read_loop docSize (rd + bufSize) (rbuf @ take bufSize c) [drop bufSize c]"
        using c ne assms(1) by (simp add: read_loop.simps [of _ rd])
      also have "\<dots> = None" using less.prems False
        by (intro less.hyps) (auto simp: bufSize_def)
      finally show ?thesis .
    qed
  qed
qed

text \<open>
  C33: requests must not be sent ahead of their responses.  When a document longer than the buffer
  and the bytes of the next one arrive together, and the size of the first is no multiple of the
  buffer, the loop reads past its end; the test for equality then never holds, and the connection
  ends without any of the documents processed and without an answer.
\<close>

theorem pipelined_requests_are_lost:
  assumes "incoming sock = [frame_bytes p @ tail]" and "tail \<noteq> []"
    and "bufSize < length (frame_bytes p)" and "length (frame_bytes p) < maxBytes"
    and "\<not> bufSize dvd length (frame_bytes p)"
  shows "tcp_serve X sock srv = Some (sock, srv)"
proof -
  let ?c = "frame_bytes p @ tail" and ?n = "length (frame_bytes p)"
  have p: "p \<noteq> []" using assms(3) by (auto simp: bufSize_def)
  have data: "take bufSize ?c = take bufSize (frame_bytes p)" using assms(3) by simp
  have read: "read_some bufSize (incoming sock) = Some (take bufSize (frame_bytes p), [drop bufSize ?c])"
    using assms(1,3) data by (auto simp: frame_bytes_def bufSize_def)
  have "length p < 2 ^ 32" using assms(4) by (simp add: maxBytes_def)
  then have doc: "documentSize (take bufSize (frame_bytes p)) = ?n"
    using documentSize_frame [of p bufSize] p by (simp add: bufSize_def)
  have "read_loop ?n (length (take bufSize (frame_bytes p))) (drop 4 (take bufSize (frame_bytes p))) [drop bufSize ?c] = None"
    using assms by (intro read_loop_skips) (auto simp: bufSize_def)
  then have "tcp_respond X sock srv = Inl Eof"
    using read doc assms(3) p by (simp add: tcp_respond_def Let_def bufSize_def)
  then show ?thesis by (simp add: tcp_serve.simps)
qed

text \<open>
  A document of at most 128 bytes must arrive in one piece: the length prefix is read, but the
  rest of a document that is still on the way is not waited for.  When the part that has arrived
  does not pass the verifier, it is echoed with a length of its own, and the rest is taken for the
  beginning of another document.
\<close>

theorem split_short_document_is_echoed:
  assumes "frame_bytes p = c @ r" and "5 \<le> length c" and "length (frame_bytes p) \<le> bufSize"
    and "\<not> VerifyRequestBuffer (fbs X) (drop 4 c)" and "incoming sock = c # segs"
  shows "tcp_respond X sock srv =
    Inr (async_write (frame_bytes (drop 4 c)) (sock\<lparr>incoming := segs\<rparr>), srv)"
proof -
  have c: "c \<noteq> []" "length c \<le> bufSize"
    using assms(2) arg_cong [OF assms(1), of length] assms(3) by auto
  then have read: "read_some bufSize (incoming sock) = Some (c, segs)" using assms(5) by simp
  have p: "p \<noteq> []" using arg_cong [OF assms(1), of length] assms(2) by auto
  have "length p < 2 ^ 32" using assms(3) by (simp add: bufSize_def)
  moreover have "take (length c) (frame_bytes p) = c" using assms(1) by simp
  ultimately have doc: "documentSize c = length (frame_bytes p)"
    using documentSize_frame [of p "length c"] assms(2) p by simp
  have "length (drop 4 c) < 2 ^ 32" using c(2) by (simp add: bufSize_def)
  moreover have "\<not> documentSize c < 5" using doc p by (cases p) auto
  ultimately show ?thesis
    using read doc assms(3,4) p
    by (simp add: tcp_respond_def or_abnormal_def tcp_handle_def write_vector_def frame_bytes_def Let_def)
qed


section \<open>Requests on the storage\<close>

text \<open>What a request does to the map of keys and values, and what it is answered with.\<close>

definition spec_change :: "Request \<Rightarrow> (string \<Rightarrow> string option) \<Rightarrow> (string \<Rightarrow> string option) option" where
  "spec_change request m =
     (case req_action request of
        Put \<Rightarrow> do { kvs \<leftarrow> pairs_of request; map_all set_item kvs m }
      | Delete \<Rightarrow> do { keys \<leftarrow> keys_of request; map_all remove_item keys m }
      | Move \<Rightarrow> do { kvs \<leftarrow> pairs_of request; map_all move_item kvs m }
      | _ \<Rightarrow> None)"

definition small_pairs :: "Request \<Rightarrow> bool" where
  "small_pairs request \<longleftrightarrow> (\<forall>kvs. pairs_of request = Some kvs \<longrightarrow> (\<forall>data \<in> set kvs. length (rd_value data) + 16 < 2 ^ 31))"

definition answer_of :: "string option \<Rightarrow> ValueVariant" where
  "answer_of v = (case v of Some v \<Rightarrow> Value v | None \<Rightarrow> Success False)"

text \<open>The listeners after a notification.\<close>

definition notified :: "('s, 't, 'x, 'q) Env \<Rightarrow> bytes \<Rightarrow> ('s, 't, 'x, 'q) Server \<Rightarrow> ('s, 't, 'x, 'q) Server \<Rightarrow> bool" where
  "notified X rbuf srv srv' \<longleftrightarrow> (peers (conf (ext X)) \<noteq> [] \<longrightarrow> listeners (srv_signals srv') =
     (\<lambda>p. map_option (\<lambda>l. l\<lparr>queue := enqueue (platform X) rbuf (queue l)\<rparr>) (listeners (srv_signals srv) p)))"

locale server = database "ext X" base pending ciph enc_ready enc_used dec_ready dec_used
    + flatbuffers "fbs X" + concurrent_queue "platform X" bag
  for X :: "('s, 't, 'x, 'q) Env" and base :: "'s \<Rightarrow> tables" and pending :: "'s \<Rightarrow> 't \<Rightarrow> writes"
    and ciph :: "string \<Rightarrow> string" and enc_ready enc_used dec_ready dec_used :: "'x \<Rightarrow> bool"
    and bag :: "'q \<Rightarrow> bytes multiset"
begin

definition srv_inv :: "Store \<Rightarrow> ('s, 't, 'x, 'q) Server \<Rightarrow> bool" where
  "srv_inv a srv \<longleftrightarrow> db_inv a (srv_db srv) \<and> signals_inv (platform X) (srv_signals srv)"

lemma emit_change_ok:
  assumes "srv_inv a srv"
  shows "\<exists>srv'. emit_change X value rbuf srv = Some srv' \<and> srv_inv a srv' \<and> (value \<longrightarrow> notified X rbuf srv srv')"
  using assms emit_all [of "platform X" "srv_signals srv" rbuf] signals_inv_emit [of "platform X" "srv_signals srv" rbuf]
  by (auto simp: emit_change_def srv_inv_def notified_def)

text \<open>A change that the storage commits is answered with success.\<close>

lemma change_ok:
  assumes inv: "srv_inv a srv" and out: "batch_outcome (srv_db srv) (f (srv_db srv)) (Some m)"
  shows "\<exists>srv' b. do { (value, d) \<leftarrow> f (srv_db srv); srv \<leftarrow> emit_change X value rbuf (srv\<lparr>srv_db := d\<rparr>);
      Some (write_response X (SuccessResult value) sock, srv) } =
    Some (write_response X (SuccessResult True) sock, srv') \<and> srv_inv b srv' \<and> vals b = m \<and> notified X rbuf srv srv'"
proof -
  from out obtain d b where d: "f (srv_db srv) = Some (True, d)" "db_inv b d" "vals b = m"
    by (auto simp: batch_outcome_def)
  have "srv_inv b (srv\<lparr>srv_db := d\<rparr>)" using inv d(2) by (simp add: srv_inv_def)
  from emit_change_ok [OF this, of True rbuf] d show ?thesis by (auto simp: notified_def)
qed

lemma put_outcome:
  assumes "db_inv a d" and "clock_ok" and "\<forall>data \<in> set kvs. length (rd_value data) + 16 < 2 ^ 31"
  shows "batch_outcome d (Database_set_batch (ext X) kvs d) (map_all set_item kvs (vals a))"
  unfolding Database_set_batch_def
  by (intro batch_simulates [OF assms(1)] txn_loop_simulates simulates_set assms(2)) (use assms(3) in auto)

lemma remove_outcome:
  assumes "db_inv a d"
  shows "batch_outcome d (Database_remove_batch (ext X) keys d) (map_all remove_item keys (vals a))"
  unfolding Database_remove_batch_def by (intro batch_simulates [OF assms(1)] txn_loop_simulates simulates_remove)

lemma move_outcome:
  assumes "db_inv a d" and "clock_ok"
  shows "batch_outcome d (Database_move_batch (ext X) kvs d) (map_all move_item kvs (vals a))"
  unfolding Database_move_batch_def by (intro batch_simulates [OF assms(1)] txn_loop_simulates simulates_move assms(2))

lemma process_change:
  assumes inv: "srv_inv a srv" and clk: "clock_ok" and small: "small_pairs request"
    and spec: "spec_change request (vals a) = Some m"
  shows "\<exists>srv' b. tcp_process rbuf X request sock srv = Some (write_response X (SuccessResult True) sock, srv') \<and>
    srv_inv b srv' \<and> vals b = m \<and> notified X rbuf srv srv'"
proof -
  have db: "db_inv a (srv_db srv)" using inv by (simp add: srv_inv_def)
  consider (put) kvs where "req_action request = Put" "pairs_of request = Some kvs" "map_all set_item kvs (vals a) = Some m"
    | (delete) keys where "req_action request = Delete" "keys_of request = Some keys" "map_all remove_item keys (vals a) = Some m"
    | (move) kvs where "req_action request = Move" "pairs_of request = Some kvs" "map_all move_item kvs (vals a) = Some m"
    using spec by (cases "req_action request") (auto simp: spec_change_def split: bind_splits)
  then show ?thesis
  proof cases
    case put
    with small have "\<forall>data \<in> set kvs. length (rd_value data) + 16 < 2 ^ 31" by (simp add: small_pairs_def)
    from change_ok [OF inv, of "Database_set_batch (ext X) kvs"] put_outcome [OF db clk this] put
    show ?thesis by (simp add: tcp_process_def tcp_put_def)
  next
    case delete
    from change_ok [OF inv, of "Database_remove_batch (ext X) keys"] remove_outcome [OF db, of keys] delete
    show ?thesis by (simp add: tcp_process_def tcp_remove_def)
  next
    case move
    from change_ok [OF inv, of "Database_move_batch (ext X) kvs"] move_outcome [OF db clk, of kvs] move
    show ?thesis by (simp add: tcp_process_def tcp_move_def)
  qed
qed

lemma process_get:
  assumes inv: "srv_inv a srv" and get: "req_action request = Get" and keys: "keys_of request = Some keys"
  shows "\<exists>srv' rs. tcp_process rbuf X request sock srv = Some (write_response X (KeyValueResults rs) sock, srv') \<and>
    srv_inv a srv' \<and> mset rs = image_mset (\<lambda>k. CreateKeyValueResult (getKey k) (answer_of (vals a (getKey k)))) (mset keys)"
proof -
  have "db_inv a (srv_db srv)" using inv by (simp add: srv_inv_def)
  from Database_get_batch_ok [OF this, of keys] obtain rs d where
    rs: "Database_get_batch (ext X) keys (srv_db srv) = Some (rs, d)" "db_inv a d"
    "mset rs = image_mset (\<lambda>k. (getKey k, vals a (getKey k))) (mset keys)" by blast
  have "mset (map (\<lambda>(k, v). CreateKeyValueResult k (answer_of v)) rs) =
      image_mset (\<lambda>k. CreateKeyValueResult (getKey k) (answer_of (vals a (getKey k)))) (mset keys)"
    by (simp add: rs(3) multiset.map_comp comp_def)
  then show ?thesis using rs(1,2) inv get keys
    by (auto simp: tcp_process_def tcp_get_def srv_inv_def answer_of_def Let_def)
qed

text \<open>A verified request reaches the handler.\<close>

lemma handle_request: "tcp_handle X (FinishRequest (fbs X) r) sock srv = tcp_process (FinishRequest (fbs X) r) X r sock srv"
  using get_request [of r "[]"] by (simp add: tcp_handle_def verify_request)

lemma change_then_get:
  assumes inv: "srv_inv a srv" and clk: "clock_ok" and small: "small_pairs request"
    and spec: "spec_change request (vals a) = Some m"
    and segs: "delivered (FinishRequest (fbs X) request) s1" "delivered (FinishRequest (fbs X) (CreateRequest Get [CreateKeyValue k None None])) s2"
    and sock: "incoming sock = s1 @ s2"
  shows "\<exists>srv'. tcp_serve X sock srv =
    Some (write_response X (KeyValueResults [CreateKeyValueResult (getKey k) (answer_of (m (getKey k)))])
      (write_response X (SuccessResult True) (sock\<lparr>incoming := []\<rparr>)), srv')"
proof -
  let ?get = "CreateRequest Get [CreateKeyValue k None None]"
  from process_change [OF inv clk small spec, of "FinishRequest (fbs X) request" "sock\<lparr>incoming := []\<rparr>"] obtain srv1 b where
    one: "tcp_process (FinishRequest (fbs X) request) X request (sock\<lparr>incoming := []\<rparr>) srv =
      Some (write_response X (SuccessResult True) (sock\<lparr>incoming := []\<rparr>), srv1)" "srv_inv b srv1" "vals b = m" by blast
  have "keys_of ?get = Some [k]" "req_action ?get = Get"
    by (simp_all add: keys_of_def CreateRequest_def CreateKeyValue_def)
  from process_get [OF one(2) this(2,1), of "FinishRequest (fbs X) ?get" "write_response X (SuccessResult True) (sock\<lparr>incoming := []\<rparr>)"]
  obtain srv2 where "tcp_process (FinishRequest (fbs X) ?get) X ?get (write_response X (SuccessResult True) (sock\<lparr>incoming := []\<rparr>)) srv1 =
      Some (write_response X (KeyValueResults [CreateKeyValueResult (getKey k) (answer_of (m (getKey k)))])
        (write_response X (SuccessResult True) (sock\<lparr>incoming := []\<rparr>)), srv2)"
    using one(3) by auto
  moreover have "tcp_serve X sock srv = tcp_handle_all X [FinishRequest (fbs X) request, FinishRequest (fbs X) ?get] (sock\<lparr>incoming := []\<rparr>) srv"
    using tcp_serve_frames [of "[FinishRequest (fbs X) request, FinishRequest (fbs X) ?get]" "[s1, s2]" sock] segs sock by simp
  ultimately show ?thesis using one(1) by (simp add: handle_request)
qed

end


section \<open>An instance with a peer\<close>

definition peer_ext :: "bool \<Rightarrow> (mem, nat, string) Ext" where
  "peer_ext on = (sample_ext on)\<lparr>conf := (conf (sample_ext on))\<lparr>peers := [Peer_default]\<rparr>\<rparr>"

definition sample_env :: "bool \<Rightarrow> (mem, nat, string, bytes list) Env" where
  "sample_env on = \<lparr>ext = peer_ext on, fbs = unary_flatbuffers, platform = fifo 9\<rparr>"

definition sample_server :: "(mem, nat, string, bytes list) Server" where
  "sample_server = \<lparr>srv_db = sample_db, srv_signals = Listener_new (fifo 9) 0 7 Signals_init\<rparr>"

definition sample_socket :: "bytes list \<Rightarrow> Socket" where
  "sample_socket segs = \<lparr>incoming = segs, outgoing = [], is_open = True\<rparr>"

lemma sample_env_simps [simp]:
  "ext (sample_env on) = peer_ext on" "fbs (sample_env on) = unary_flatbuffers" "platform (sample_env on) = fifo 9"
  by (simp_all add: sample_env_def)

interpretation node: server "sample_env on" mem_table mem_writes "\<lambda>v. CHR ''#'' # rev v"
  "\<lambda>x. x = []" "\<lambda>x. True" "\<lambda>x. x = []" "\<lambda>x. True" mset
proof -
  have "database (peer_ext on) mem_table mem_writes (\<lambda>v. CHR ''#'' # rev v)
      (\<lambda>x. x = []) (\<lambda>x. True) (\<lambda>x. x = []) (\<lambda>x. True)"
    by (rule memory_database) (simp_all add: peer_ext_def sample_ext_def)
  then show "server (sample_env on) mem_table mem_writes (\<lambda>v. CHR ''#'' # rev v)
      (\<lambda>x. x = []) (\<lambda>x. True) (\<lambda>x. x = []) (\<lambda>x. True) mset"
    by (simp add: server_def unary_fb.flatbuffers_axioms fifo.concurrent_queue_axioms)
qed

lemma node_clock_ok: "node.clock_ok on"
  unfolding node.clock_ok_def by (auto simp: peer_ext_def sample_ext_def min_def)

lemma node_inv: "node.srv_inv on empty_store sample_server"
proof -
  have "signals_inv (fifo 9) (Listener_new (fifo 9) 0 7 Signals_init)"
    by (rule signals_inv_new) (simp_all add: Signals_init_def signals_inv_def sorted_connections_def)
  then show ?thesis
    unfolding node.srv_inv_def node.db_inv_def node.enc_at_def node.txn_at_def
    by (simp add: sample_server_def sample_db_def represents_def empty_store_def mem_empty_def mem_table_def encodes_def
        Pool_new_def pool_holds_def pool_in_use_def pool_limit_def sample_pool_config_def
        vc.coherent_def cache_find_def ExpirationCache_new_def fun_eq_iff)
qed

text \<open>A document in one piece is delivered when it is not too long.\<close>

lemma delivered_whole: "p \<noteq> [] \<Longrightarrow> length p + 4 < maxBytes \<Longrightarrow> delivered p [frame_bytes p]"
  by (cases p) (auto simp: delivered_def frame_bytes_def)

definition put_request :: "string \<Rightarrow> string \<Rightarrow> Request" where
  "put_request k v = CreateRequest Put [CreateKeyValue k (Some v) (Some (CreateOptions False 0 False))]"

definition get_request_of :: "string \<Rightarrow> Request" where
  "get_request_of k = CreateRequest Get [CreateKeyValue k None None]"

lemma unary_request_out: "FinishRequest (fbs (sample_env on)) = request_out"
  by (simp add: unary_flatbuffers_def)

lemma put_sample:
  "spec_change (put_request ''k'' ''v'') (vals empty_store) = Some [''/k'' \<mapsto> ''v'']"
  "small_pairs (put_request ''k'' ''v'')"
proof -
  have pairs: "pairs_of (put_request ''k'' ''v'') = Some [RequestData_opts ''k'' ''v'' (Options_all 0 False False)]"
    by (simp add: put_request_def pairs_of_def pair_of_def CreateRequest_def CreateKeyValue_def CreateOptions_def)
  show "spec_change (put_request ''k'' ''v'') (vals empty_store) = Some [''/k'' \<mapsto> ''v'']"
    unfolding spec_change_def pairs
    by (simp add: put_request_def CreateRequest_def set_item_def RequestData_opts_def Options_all_def
        empty_store_def getKey_def)
  show "small_pairs (put_request ''k'' ''v'')" unfolding small_pairs_def pairs by (simp add: RequestData_opts_def)
qed

theorem serve_processes_each_document_witness:
  "tcp_serve (sample_env True) (sample_socket [frame_bytes (request_out (get_request_of ''k''))]) sample_server =
   tcp_handle_all (sample_env True) [request_out (get_request_of ''k'')] (sample_socket []) sample_server"
proof -
  have "delivered (request_out (get_request_of ''k'')) [frame_bytes (request_out (get_request_of ''k''))]"
    by (rule delivered_whole [OF request_out_nonempty]) code_simp
  then show ?thesis
    using serve_processes_each_document [of "[request_out (get_request_of ''k'')]"
        "[[frame_bytes (request_out (get_request_of ''k''))]]"
        "sample_socket [frame_bytes (request_out (get_request_of ''k''))]" "sample_env True" sample_server]
    by (simp add: sample_socket_def)
qed

theorem pipelined_requests_are_lost_witness:
  "tcp_serve (sample_env True) (sample_socket [frame_bytes (replicate 130 CHR ''x'') @ ''ping'']) sample_server =
   Some (sample_socket [frame_bytes (replicate 130 CHR ''x'') @ ''ping''], sample_server)"
  by (rule pipelined_requests_are_lost [where p = "replicate 130 CHR ''x''" and tail = "''ping''"])
    (simp_all add: sample_socket_def bufSize_def maxBytes_def)

theorem split_short_document_is_echoed_witness:
  "tcp_respond (sample_env True) (sample_socket [le32 6 @ ''010x'', ''00'']) sample_server =
   Inr (async_write (frame_bytes ''010x'') (sample_socket [''00'']), sample_server)"
proof -
  have "\<not> VerifyRequestBuffer (fbs (sample_env True)) (drop 4 (le32 6 @ ''010x''))"
    by (simp add: unary_flatbuffers_def) code_simp
  moreover have "frame_bytes ''010x00'' = (le32 6 @ ''010x'') @ ''00''" by (simp add: frame_bytes_def)
  ultimately show ?thesis
    using split_short_document_is_echoed [of "''010x00''" "le32 6 @ ''010x''" "''00''" "sample_env True"
        "sample_socket [le32 6 @ ''010x'', ''00'']" "[''00'']" sample_server]
    by (simp add: bufSize_def sample_socket_def)
qed

text \<open>
  What a client is told is what it gets: a put, delete or move request that the storage can
  apply (as the specification on maps says, item by item) is answered with success, and a get
  request sent after it on the same connection is answered with the value that the key then has
  according to that specification; the whole way through framing, verification, the handler, the
  transaction, the cipher, the value cache and back.
\<close>

theorem change_is_read_back_over_tcp:
  assumes "server X base pending ciph enc_ready enc_used dec_ready dec_used bag"
    and "server.srv_inv X base ciph enc_ready enc_used dec_ready dec_used a srv"
    and "database.clock_ok (ext X)" and "small_pairs request"
    and "spec_change request (vals a) = Some m"
    and "delivered (FinishRequest (fbs X) request) s1"
    and "delivered (FinishRequest (fbs X) (get_request_of k)) s2" and "incoming sock = s1 @ s2"
  shows "\<exists>srv'. tcp_serve X sock srv =
    Some (write_response X (KeyValueResults [CreateKeyValueResult (getKey k) (answer_of (m (getKey k)))])
      (write_response X (SuccessResult True) (sock\<lparr>incoming := []\<rparr>)), srv')"
  using server.change_then_get [OF assms(1-6) assms(7) [unfolded get_request_of_def] assms(8)] .


theorem change_is_read_back_over_tcp_witness:
  "\<exists>srv'. tcp_serve (sample_env True) (sample_socket [frame_bytes (request_out (put_request ''k'' ''v'')),
       frame_bytes (request_out (get_request_of ''/k''))]) sample_server =
     Some (write_response (sample_env True) (KeyValueResults [CreateKeyValueResult ''/k'' (Value ''v'')])
       (write_response (sample_env True) (SuccessResult True) (sample_socket [])), srv')"
proof -
  let ?put = "put_request ''k'' ''v''" and ?get = "get_request_of ''/k''"
  have del: "delivered (FinishRequest (fbs (sample_env True)) ?put) [frame_bytes (request_out ?put)]"
    "delivered (FinishRequest (fbs (sample_env True)) ?get) [frame_bytes (request_out ?get)]"
    by (simp add: unary_flatbuffers_def, rule delivered_whole [OF request_out_nonempty], code_simp)+
  have "incoming (sample_socket [frame_bytes (request_out ?put), frame_bytes (request_out ?get)]) =
      [frame_bytes (request_out ?put)] @ [frame_bytes (request_out ?get)]" by (simp add: sample_socket_def)
  from change_is_read_back_over_tcp [OF node.server_axioms node_inv [of True]
      node_clock_ok put_sample(2,1) del this] show ?thesis
    by (simp add: sample_socket_def getKey_def answer_of_def)
qed

section \<open>Notifying peers\<close>



end
