(* ===== verification/Peer_Listener.thy ===== *)
theory Peer_Listener
  imports TCP_Server
begin

text \<open>
  The listener that a server runs for each of its peers, \<open>src/service/tcp/listener.cpp\<close>: it connects
  to the notification port of the peer, reads the notifications and applies them to its own
  storage.  The buffers are not verified; a null \<open>options\<close> table is dereferenced.  Then the
  composition of the parts: a change on one server, its notification, and its arrival at another.
\<close>

section \<open>Applying a notification\<close>

definition peer_pair :: "KeyValueTable \<Rightarrow> RequestData option" where
  "peer_pair kv = do {
     opts \<leftarrow> kv_options kv;
     k \<leftarrow> kv_key kv;
     v \<leftarrow> kv_value kv;
     Some (RequestData_opts k v (Options_all (expiration_in_seconds opts) False (cache opts))) }"

definition peer_pairs :: "Request \<Rightarrow> RequestData list option" where
  "peer_pairs request = do { kvs \<leftarrow> req_data request; those (map peer_pair kvs) }"

definition peer_put ::
  "('s, 't, 'x, 'q) Env \<Rightarrow> Request \<Rightarrow> ('s, 't, 'x) Database \<Rightarrow> ('s, 't, 'x) Database option" where
  "peer_put X request d = do {
     pairs \<leftarrow> peer_pairs request;
     (value, d) \<leftarrow> Database_set_batch (ext X) pairs d;
     Some d }"

definition peer_remove ::
  "('s, 't, 'x, 'q) Env \<Rightarrow> Request \<Rightarrow> ('s, 't, 'x) Database \<Rightarrow> ('s, 't, 'x) Database option" where
  "peer_remove X request d = do {
     keys \<leftarrow> keys_of request;
     (value, d) \<leftarrow> Database_remove_batch (ext X) keys d;
     Some d }"

definition peer_move ::
  "('s, 't, 'x, 'q) Env \<Rightarrow> Request \<Rightarrow> ('s, 't, 'x) Database \<Rightarrow> ('s, 't, 'x) Database option" where
  "peer_move X request d = do {
     pairs \<leftarrow> peer_pairs request;
     (value, d) \<leftarrow> Database_move_batch (ext X) pairs d;
     Some d }"

definition peer_process ::
  "('s, 't, 'x, 'q) Env \<Rightarrow> Request \<Rightarrow> ('s, 't, 'x) Database \<Rightarrow> ('s, 't, 'x) Database option" where
  "peer_process X request d =
     (case req_action request of
        Get \<Rightarrow> Some d
      | List \<Rightarrow> Some d
      | Put \<Rightarrow> peer_put X request d
      | Delete \<Rightarrow> peer_remove X request d
      | Move \<Rightarrow> peer_move X request d
      | TTL \<Rightarrow> Some d)"

definition peer_apply ::
  "('s, 't, 'x, 'q) Env \<Rightarrow> bytes \<Rightarrow> ('s, 't, 'x) Database \<Rightarrow> ('s, 't, 'x) Database option" where
  "peer_apply X buf d = do { request \<leftarrow> GetRequest (fbs X) buf; peer_process X request d }"

section \<open>Reading\<close>

definition close_socket :: "Socket \<Rightarrow> Socket" where
  "close_socket sock = sock\<lparr>is_open := False\<rparr>"

text \<open>\<open>read\<close>: any error, the end of the stream included, closes the socket.\<close>

definition peer_read ::
  "('s, 't, 'x, 'q) Env \<Rightarrow> Socket \<Rightarrow> ('s, 't, 'x) Database \<Rightarrow> (Socket \<times> ('s, 't, 'x) Database) option" where
  "peer_read X sock d =
     (case read_some bufSize (incoming sock) of
        None \<Rightarrow> Some (close_socket sock, d)
      | Some (data, segs) \<Rightarrow>
          let sock = sock\<lparr>incoming := segs\<rparr>; docSize = documentSize data; rbuf = drop 4 data in
          if docSize < 5 then Some (sock, d)
          else if docSize \<le> bufSize then map_option (\<lambda>d. (sock, d)) (peer_apply X rbuf d)
          else case read_loop docSize (length data) rbuf segs of
                 None \<Rightarrow> Some (close_socket (sock\<lparr>incoming := []\<rparr>), d)
               | Some (rbuf, segs) \<Rightarrow> map_option (\<lambda>d. (sock\<lparr>incoming := segs\<rparr>, d)) (peer_apply X rbuf d))"

lemma peer_read_consumes:
  assumes "peer_read X sock d = Some (sock', d')" and "is_open sock'"
    and "is_open sock"
  shows "length (concat (incoming sock')) < length (concat (incoming sock))"
proof -
  from assms obtain data segs where r: "read_some bufSize (incoming sock) = Some (data, segs)"
    by (auto simp: peer_read_def close_socket_def split: option.splits)
  have "length (concat (incoming sock')) \<le> length (concat segs)"
    using assms r
    by (auto simp: peer_read_def close_socket_def Let_def split: if_splits option.splits) (erule read_loop_shorter)
  also have "\<dots> < length (concat (incoming sock))" by (rule read_some_shorter [OF r]) (simp add: bufSize_def)
  finally show ?thesis .
qed

text \<open>
  The loops of \<open>run\<close>: the notifications of one connection until it is closed, and the connections
  in turn, an attempt that fails being repeated, until the service stops.
\<close>

function peer_stream ::
  "('s, 't, 'x, 'q) Env \<Rightarrow> Socket \<Rightarrow> ('s, 't, 'x) Database \<Rightarrow> ('s, 't, 'x) Database option" where
  "peer_stream X sock d =
     (if \<not> is_open sock then Some d
      else case peer_read X sock d of
             None \<Rightarrow> None
           | Some (sock', d') \<Rightarrow> if is_open sock' then peer_stream X sock' d' else Some d')"
  by pat_completeness auto
termination
  by (relation "measure (\<lambda>(_, sock, _). length (concat (incoming sock)))") (auto dest: peer_read_consumes)

declare peer_stream.simps [simp del]

fun peer_run ::
  "('s, 't, 'x, 'q) Env \<Rightarrow> bytes list option list \<Rightarrow> ('s, 't, 'x) Database \<Rightarrow> ('s, 't, 'x) Database option" where
  "peer_run X [] d = Some d"
| "peer_run X (None # attempts) d = peer_run X attempts d"
| "peer_run X (Some segs # attempts) d = do {
     d \<leftarrow> peer_stream X \<lparr>incoming = segs, outgoing = [], is_open = True\<rparr> d;
     peer_run X attempts d }"

section \<open>A notification that arrives as it was sent\<close>

lemma peer_read_frame:
  assumes "delivered payload segs" and "incoming sock = segs @ rest"
  shows "peer_read X sock d = map_option (\<lambda>d. (sock\<lparr>incoming := rest\<rparr>, d)) (peer_apply X payload d)"
  using assms(1)
proof (cases rule: delivered_read [of _ _ rest])
  case (whole data)
  then show ?thesis using assms(2) by (simp add: peer_read_def)
next
  case (pieces data segs')
  then show ?thesis using assms(2) by (simp add: peer_read_def Let_def)
qed


section \<open>Replication\<close>

text \<open>The peer applies the items of a request without \<open>if_not_exists\<close>.\<close>

definition strip :: "RequestData \<Rightarrow> RequestData" where
  "strip data = data\<lparr>rd_options := (rd_options data)\<lparr>ifNotExists := False\<rparr>\<rparr>"

definition has_options :: "Request \<Rightarrow> bool" where
  "has_options request \<longleftrightarrow> (\<forall>kvs. req_data request = Some kvs \<longrightarrow> (\<forall>kv \<in> set kvs. kv_options kv \<noteq> None))"

lemma peer_pair_strip: "kv_options kv \<noteq> None \<Longrightarrow> peer_pair kv = map_option strip (pair_of kv)"
  by (cases "kv_key kv"; cases "kv_value kv")
    (auto simp: peer_pair_def pair_of_def strip_def RequestData_opts_def Options_all_def)

lemma those_map_option: "those (map (\<lambda>x. map_option f (g x)) xs) = map_option (map f) (those (map g xs))"
  by (induction xs) (auto simp: option.map_comp comp_def split: option.splits)

lemma peer_pairs_strip:
  assumes "has_options request"
  shows "peer_pairs request = map_option (map strip) (pairs_of request)"
proof (cases "req_data request")
  case None
  then show ?thesis by (simp add: peer_pairs_def pairs_of_def)
next
  case (Some kvs)
  have "map peer_pair kvs = map (\<lambda>kv. map_option strip (pair_of kv)) kvs"
    using assms Some by (simp add: has_options_def peer_pair_strip)
  from arg_cong [OF this, of those] show ?thesis
    using Some by (simp add: peer_pairs_def pairs_of_def those_map_option del: map_eq_conv)
qed

lemma map_all_strip:
  assumes "\<And>x m m'. g x m = Some m' \<Longrightarrow> g (strip x) m = Some m'"
  shows "map_all g kvs m = Some m' \<Longrightarrow> map_all g (map strip kvs) m = Some m'"
proof (induction kvs arbitrary: m)
  case (Cons x kvs)
  then obtain m1 where "g x m = Some m1" "map_all g kvs m1 = Some m'" by (auto split: option.splits)
  with Cons.IH assms show ?case by simp
qed simp

lemma set_item_strip: "set_item x m = Some m' \<Longrightarrow> set_item (strip x) m = Some m'"
  by (auto simp: set_item_def strip_def Let_def split: if_splits)

lemma move_item_strip: "move_item x m = Some m' \<Longrightarrow> move_item (strip x) m = Some m'"
  by (auto simp: move_item_def strip_def Let_def split: if_splits)

context server
begin

lemma peer_change_ok:
  assumes "batch_outcome d r (Some m)"
  shows "\<exists>d' b. do { (value, d) \<leftarrow> r; Some d } = Some d' \<and> db_inv b d' \<and> vals b = m"
  using assms by (auto simp: batch_outcome_def)

lemma peer_process_change:
  assumes inv: "db_inv a d" and clk: "clock_ok" and small: "small_pairs request" and opts: "has_options request"
    and spec: "spec_change request (vals a) = Some m"
  shows "\<exists>d' b. peer_process X request d = Some d' \<and> db_inv b d' \<and> vals b = m"
proof -
  consider (put) kvs where "req_action request = Put" "pairs_of request = Some kvs" "map_all set_item kvs (vals a) = Some m"
    | (delete) keys where "req_action request = Delete" "keys_of request = Some keys" "map_all remove_item keys (vals a) = Some m"
    | (move) kvs where "req_action request = Move" "pairs_of request = Some kvs" "map_all move_item kvs (vals a) = Some m"
    using spec by (cases "req_action request") (auto simp: spec_change_def split: bind_splits)
  then show ?thesis
  proof cases
    case put
    with small have "\<forall>data \<in> set (map strip kvs). length (rd_value data) + 16 < 2 ^ 31"
      by (simp add: small_pairs_def strip_def)
    from put_outcome [OF inv clk this] map_all_strip [OF set_item_strip put(3)] put(1,2)
    show ?thesis using peer_change_ok [of d "Database_set_batch (ext X) (map strip kvs) d" m]
      by (simp add: peer_process_def peer_put_def peer_pairs_strip [OF opts])
  next
    case delete
    from remove_outcome [OF inv, of keys] delete show ?thesis
      using peer_change_ok [of d "Database_remove_batch (ext X) keys d" m] by (simp add: peer_process_def peer_remove_def)
  next
    case move
    from move_outcome [OF inv clk, of "map strip kvs"] map_all_strip [OF move_item_strip move(3)] move(1,2)
    show ?thesis using peer_change_ok [of d "Database_move_batch (ext X) (map strip kvs) d" m]
      by (simp add: peer_process_def peer_move_def peer_pairs_strip [OF opts])
  qed
qed

lemma peer_read_change:
  assumes "db_inv a d" and "clock_ok" and "small_pairs request" and "has_options request"
    and "spec_change request (vals a) = Some m"
    and "delivered (FinishRequest (fbs X) request) segs" and "incoming sock = segs @ rest"
  shows "\<exists>d' b. peer_read X sock d = Some (sock\<lparr>incoming := rest\<rparr>, d') \<and> db_inv b d' \<and> vals b = m"
proof -
  from peer_process_change [OF assms(1-5)] obtain d' b where
    "peer_process X request d = Some d'" "db_inv b d'" "vals b = m" by blast
  then show ?thesis using peer_read_frame [OF assms(6,7), of X d] get_request [of request "[]"]
    by (auto simp: peer_apply_def)
qed

text \<open>The server's side: the notification is written to a listener that is up to date.\<close>

lemma change_is_written:
  assumes inv: "srv_inv a srv" and clk: "clock_ok" and small: "small_pairs request"
    and spec: "spec_change request (vals a) = Some m" and peers: "peers (conf (ext X)) \<noteq> []"
    and l: "listeners (srv_signals srv) p = Some l" "bag (queue l) = {#}"
    and size: "length (FinishRequest (fbs X) request) < 2 ^ 32"
  shows "\<exists>srv' b l' l''. tcp_handle X (FinishRequest (fbs X) request) sock srv =
      Some (write_response X (SuccessResult True) sock, srv') \<and> srv_inv b srv' \<and> vals b = m \<and>
    listeners (srv_signals srv') p = Some l' \<and>
    notifier_respond (platform X) t l' nsock = (l'', async_write (frame_bytes (FinishRequest (fbs X) request)) nsock) \<and>
    bag (queue l'') = {#}"
proof -
  let ?b = "FinishRequest (fbs X) request"
  from process_change [OF inv clk small spec, of ?b sock] obtain srv' b where
    run: "tcp_process ?b X request sock srv = Some (write_response X (SuccessResult True) sock, srv')"
    "srv_inv b srv'" "vals b = m" "notified X ?b srv srv'" by blast
  let ?l = "l\<lparr>queue := enqueue (platform X) ?b (queue l)\<rparr>"
  have "listeners (srv_signals srv') p = Some ?l"
    using run(4) peers l(1) by (simp add: notified_def)
  moreover obtain b' q where "notifier_respond (platform X) t ?l nsock =
      (?l\<lparr>queue := q\<rparr>, async_write (frame_bytes b') nsock)" "bag (queue ?l) = add_mset b' (bag q)"
    using respond_dequeues [of ?l t nsock] l(2) size by (auto simp: bag_enqueue)
  ultimately show ?thesis using run l(2)
    by (auto simp: handle_request bag_enqueue)
qed

end





text \<open>
  Notifications that arrive together are not all applied: of two notifications read into the
  buffer at once, the first being short, only the first is applied; the bytes of the second are
  consumed with it.
\<close>

theorem coalesced_notification_is_dropped:
  assumes "flatbuffers (fbs Y)" and "incoming sock = [frame_bytes (FinishRequest (fbs Y) r1) @ frame_bytes (FinishRequest (fbs Y) r2)]"
    and "length (frame_bytes (FinishRequest (fbs Y) r1)) + length (frame_bytes (FinishRequest (fbs Y) r2)) \<le> bufSize"
  shows "peer_read Y sock d = map_option (\<lambda>d. (sock\<lparr>incoming := []\<rparr>, d)) (peer_process Y r1 d)"
proof -
  let ?p = "FinishRequest (fbs Y) r1" and ?q = "FinishRequest (fbs Y) r2"
  let ?c = "frame_bytes ?p @ frame_bytes ?q"
  have p: "?p \<noteq> []" using flatbuffers.request_nonempty [OF assms(1)] .
  have "?c \<noteq> []" using length_frame_bytes [of ?p] by (cases "frame_bytes ?p") auto
  then have read: "read_some bufSize (incoming sock) = Some (?c, [])" using assms(2,3) by simp
  have small: "length ?p < 2 ^ 32" using assms(3) by (simp add: bufSize_def)
  have "documentSize ?c = unat (of_le32 (frame_bytes ?p)) + 4"
    using p by (cases ?p) (auto simp: documentSize_def frame_bytes_def)
  also have "\<dots> = length (frame_bytes ?p)"
    using small by (simp add: frame_bytes_def unat_of_nat take_bit_nat_eq_self)
  finally have doc: "documentSize ?c = length (frame_bytes ?p)" .
  moreover have "drop 4 ?c = ?p @ frame_bytes ?q" by (simp add: frame_bytes_def)
  moreover have "\<not> length (frame_bytes ?p) < 5" using p by (cases ?p) auto
  moreover have "length (frame_bytes ?p) \<le> bufSize" using assms(3) by simp
  ultimately show ?thesis
    using read flatbuffers.get_request [OF assms(1), of r1 "frame_bytes ?q"] assms(2)
    by (simp add: peer_read_def peer_apply_def)
qed

theorem coalesced_notification_is_dropped_witness:
  "peer_read (sample_env True) (sample_socket [frame_bytes (request_out (CreateRequest Get [])) @
       frame_bytes (request_out (CreateRequest Delete [CreateKeyValue ''k'' None None]))]) sample_db =
   Some (sample_socket [], sample_db)"
proof -
  have "length (frame_bytes (request_out (CreateRequest Get []))) +
      length (frame_bytes (request_out (CreateRequest Delete [CreateKeyValue ''k'' None None]))) \<le> bufSize"
    by code_simp
  then show ?thesis
    using coalesced_notification_is_dropped [of "sample_env True" "sample_socket
        [frame_bytes (request_out (CreateRequest Get [])) @
         frame_bytes (request_out (CreateRequest Delete [CreateKeyValue ''k'' None None]))]"
        "CreateRequest Get []" "CreateRequest Delete [CreateKeyValue ''k'' None None]" sample_db]
    by (simp add: unary_fb.flatbuffers_axioms sample_socket_def peer_process_def CreateRequest_def
        unary_request_out [unfolded sample_env_simps])
qed


text \<open>
  A ping is not framed, so that it is separated from a notification only by arriving alone.
  When a ping and the notification behind it are read together, the four letters are taken for a
  length above the limit, the rest is not waited for, and the buffer is interpreted, without being
  verified, from the length prefix of the notification on.
\<close>

theorem ping_displaces_notification:
  assumes "incoming sock = [''ping'' @ frame_bytes p]" and "length (''ping'' @ frame_bytes p) \<le> bufSize"
  shows "peer_read Y sock d =
    map_option (\<lambda>d. (sock\<lparr>incoming := []\<rparr>, d)) (peer_apply Y (le32 (word_of_nat (length p)) @ p) d)"
proof -
  have "of_le32 (''ping'' @ frame_bytes p) = 1735289200" by (simp add: of_le32_def)
  then have doc: "documentSize (''ping'' @ frame_bytes p) = 1735289204"
    by (simp add: documentSize_def)
  have "read_some bufSize (incoming sock) = Some (''ping'' @ frame_bytes p, [])" using assms by simp
  then show ?thesis using doc assms(1)
    by (simp add: peer_read_def bufSize_def read_loop.simps maxBytes_def Let_def) (simp add: frame_bytes_def)
qed

theorem ping_displaces_notification_witness:
  "peer_read (sample_env True) (sample_socket [''ping'' @ frame_bytes (request_out (CreateRequest Get []))]) sample_db =
   map_option (\<lambda>d. (sample_socket [], d)) (peer_apply (sample_env True)
     (le32 (word_of_nat (length (request_out (CreateRequest Get [])))) @ request_out (CreateRequest Get [])) sample_db)"
proof -
  have "length (''ping'' @ frame_bytes (request_out (CreateRequest Get []))) \<le> bufSize" by code_simp
  from ping_displaces_notification [OF _ this, of "sample_socket [''ping'' @ frame_bytes (request_out (CreateRequest Get []))]"]
  show ?thesis by (simp add: sample_socket_def)
qed

end
