(* ===== verification/HTTP_Server.thy ===== *)
theory HTTP_Server
  imports Peer_Listener
begin

text \<open>
  The HTTP service, \<open>src/service/http/server.cpp\<close>: the handlers of the resources \<open>/key/\<close>, \<open>/list/\<close>
  and \<open>/\<close>.  The HTTP library (nghttp2) selects the handler, delivers the body in pieces and sends
  what the handler writes; which handler it selects is an argument here, and a response is the list
  of heads and bodies in the order written.  The serialiser of JSON documents is a parameter.
\<close>

record HttpRequest =
  uri_path :: string
  http_method :: string
  header :: "string \<Rightarrow> string option"

datatype http_out = Head nat "(string \<times> string) list" | End string

type_synonym serializer = "json \<Rightarrow> string"

section \<open>Helpers\<close>

text \<open>\<open>boost::algorithm::replace_first_copy\<close>\<close>

fun replace_first :: "string \<Rightarrow> string \<Rightarrow> string \<Rightarrow> string" where
  "replace_first s what by' =
     (if take (length what) s = what then by' @ drop (length what) s
      else case s of [] \<Rightarrow> [] | c # r \<Rightarrow> c # replace_first r what by')"

declare replace_first.simps [simp del]

definition http_write :: "nat \<Rightarrow> string \<Rightarrow> http_out list" where
  "http_write code json = [Head code [(''content-type'', ''application/json; charset=utf-8''),
     (''content-length'', nat_to_string (length json))], End json]"

text \<open>The requests of which the peers are notified.\<close>

definition put_builder :: "RequestData \<Rightarrow> Request" where
  "put_builder req = CreateRequest Put [CreateKeyValue (rd_key req) (Some (rd_value req))
     (Some (CreateOptions (ifNotExists (rd_options req)) (expirationInSeconds (rd_options req)) False))]"

definition delete_builder :: "string \<Rightarrow> Request" where
  "delete_builder key = CreateRequest Delete [CreateKeyValue key None None]"

definition http_emit :: "('s, 't, 'x, 'q) Env \<Rightarrow> Request \<Rightarrow> ('s, 't, 'x, 'q) Server \<Rightarrow> ('s, 't, 'x, 'q) Server option" where
  "http_emit X request srv =
     (if peers (conf (ext X)) \<noteq> []
      then map_option (\<lambda>sg. srv\<lparr>srv_signals := sg\<rparr>)
        (SignalMgr_emit (platform X) (FinishRequest (fbs X) request) (srv_signals srv))
      else Some srv)"

definition not_found :: string where
  "not_found = ''{\"code\": 404, \"cause\": \"Not found\"}''"

definition ok_body :: string where
  "ok_body = ''{\"code\": 200, \"cause\": \"Ok\"}''"

definition not_supported :: string where
  "not_supported = ''{\"code\": 405, \"cause\": \"Method not supported\"}''"

section \<open>Handlers\<close>

type_synonym ('s, 't, 'x, 'q) http_handler =
  "('s, 't, 'x, 'q) Env \<Rightarrow> HttpRequest \<Rightarrow> ('s, 't, 'x, 'q) Server \<Rightarrow>
   (http_out list \<times> ('s, 't, 'x, 'q) Server) option"

definition http_get :: "serializer \<Rightarrow> ('s, 't, 'x, 'q) http_handler" where
  "http_get ser X req srv = do {
     let key = replace_first (uri_path req) ''/key'' [];
     (v, d) \<leftarrow> Database_get (ext X) key (srv_db srv);
     Some (case v of
         Some v \<Rightarrow> http_write 200 (ser (JObject [(''key'', JString key), (''value'', JString v)]))
       | None \<Rightarrow> http_write 404 not_found, srv\<lparr>srv_db := d\<rparr>) }"

text \<open>The options given by headers; a time to live is read as 64 bits and cut to 32.\<close>

definition http_options :: "HttpRequest \<Rightarrow> Options" where
  "http_options req =
     \<lparr>expirationInSeconds =
        (case header req ''x-config-db-ttl'' of
           None \<Rightarrow> 0
         | Some sv \<Rightarrow> (case from_chars_unsigned 64 sv of None \<Rightarrow> 0 | Some ttl \<Rightarrow> word_of_nat ttl)),
      ifNotExists = (header req ''x-config-db-if-not-exists'' = Some ''true''),
      cacheEntry = (header req ''x-config-db-cache'' = Some ''true'')\<rparr>"

definition http_put_body :: "string \<Rightarrow> ('s, 't, 'x, 'q) http_handler" where
  "http_put_body body X req srv =
     (if body = [] then Some (http_write 400 ok_body, srv)
      else do {
        let key = replace_first (uri_path req) ''/key'' [];
        let rd = RequestData_opts key body (http_options req);
        (result, d) \<leftarrow> Database_set (ext X) rd (srv_db srv);
        let srv = srv\<lparr>srv_db := d\<rparr>;
        if result then do { srv \<leftarrow> http_emit X (put_builder rd) srv; Some (http_write 200 ok_body, srv) }
        else Some (http_write 412 ''{\"code\": 412, \"cause\": \"Unable to save\"}'', srv) })"

text \<open>The callback for the pieces of the body: an empty piece ends it.\<close>

fun http_on_data :: "string \<Rightarrow> string list \<Rightarrow> ('s, 't, 'x, 'q) http_handler" where
  "http_on_data body [] X req srv = Some ([], srv)"
| "http_on_data body (chars # pieces) X req srv =
     (if chars \<noteq> [] then http_on_data (body @ chars) pieces X req srv
      else http_put_body body X req srv)"

definition http_put :: "string list \<Rightarrow> ('s, 't, 'x, 'q) http_handler" where
  "http_put pieces X req srv = http_on_data [] pieces X req srv"

definition http_remove :: "('s, 't, 'x, 'q) http_handler" where
  "http_remove X req srv = do {
     let key = replace_first (uri_path req) ''/key'' [];
     (result, d) \<leftarrow> Database_remove (ext X) key (srv_db srv);
     let srv = srv\<lparr>srv_db := d\<rparr>;
     if result then do { srv \<leftarrow> http_emit X (delete_builder key) srv; Some (http_write 200 ok_body, srv) }
     else Some (http_write 404 not_found, srv) }"

definition http_list :: "serializer \<Rightarrow> ('s, 't, 'x, 'q) http_handler" where
  "http_list ser X req srv =
     (let key = replace_first (uri_path req) ''/list'' []
      in Some (case Database_list (ext X) key (srv_db srv) of
          Some vs \<Rightarrow> http_write 200 (ser (JObject [(''children'', JArray (map JString vs))]))
        | None \<Rightarrow> http_write 404 not_found, srv))"

section \<open>Resources\<close>

datatype resource = KeyResource | ListResource | RootResource

definition key_resource :: "serializer \<Rightarrow> string list \<Rightarrow> ('s, 't, 'x, 'q) http_handler" where
  "key_resource ser pieces X req srv =
     (if http_method req = ''GET'' then http_get ser X req srv
      else if http_method req = ''PUT'' then http_put pieces X req srv
      else if http_method req = ''DELETE'' then http_remove X req srv
      else Some ([Head 405 [], End not_supported], srv))"

definition list_resource :: "serializer \<Rightarrow> ('s, 't, 'x, 'q) http_handler" where
  "list_resource ser X req srv =
     (if http_method req = ''GET'' then http_list ser X req srv
      else Some ([Head 405 [], End not_supported], srv))"

definition root_resource :: "HttpRequest \<Rightarrow> http_out list" where
  "root_resource req =
     (if uri_path req \<noteq> ''/'' then [Head 404 [], End not_found] else []) @
     (if http_method req = ''GET'' then [Head 200 [], End ''{\"status\": \"ok\"}'']
      else [Head 405 [], End not_supported])"

definition http_serve :: "serializer \<Rightarrow> resource \<Rightarrow> string list \<Rightarrow> ('s, 't, 'x, 'q) http_handler" where
  "http_serve ser res pieces X req srv =
     (case res of
        KeyResource \<Rightarrow> key_resource ser pieces X req srv
      | ListResource \<Rightarrow> list_resource ser X req srv
      | RootResource \<Rightarrow> Some (root_resource req, srv))"

section \<open>Behaviour\<close>

lemma replace_first_prefix: "replace_first (p @ s) p b = b @ s"
  by (subst replace_first.simps) simp

lemma key_of_path: "uri_path req = ''/key'' @ key \<Longrightarrow> replace_first (uri_path req) ''/key'' [] = key"
  by (simp only: replace_first_prefix append_Nil)

lemma http_on_data_pieces:
  "[] \<notin> set pieces \<Longrightarrow> http_on_data body (pieces @ [] # rest) X req srv = http_put_body (body @ concat pieces) X req srv"
  by (induction pieces arbitrary: body) auto

context server
begin

lemma http_emit_ok:
  assumes "srv_inv a srv"
  shows "\<exists>srv'. http_emit X request srv = Some srv' \<and> srv_inv a srv' \<and> notified X (FinishRequest (fbs X) request) srv srv'"
  using emit_change_ok [OF assms, of True "FinishRequest (fbs X) request"]
  by (simp add: http_emit_def emit_change_def)

lemma http_put_ok:
  fixes req key body
  defines "rd \<equiv> RequestData_opts key body (http_options req)"
  assumes inv: "srv_inv a srv" and clk: "clock_ok" and path: "uri_path req = ''/key'' @ key"
    and key: "key \<noteq> []" and body: "body \<noteq> []" "length body + 16 < 2 ^ 31"
    and opts: "\<not> (cacheEntry (http_options req) \<and> expirationInSeconds (http_options req) = 0)"
      "ifNotExists (http_options req) \<Longrightarrow> vals a (getKey key) = None"
  shows "\<exists>srv' b. http_put_body body X req srv = Some (http_write 200 ok_body, srv') \<and> srv_inv b srv' \<and>
    vals b = (vals a)(getKey key \<mapsto> body) \<and> notified X (FinishRequest (fbs X) (put_builder rd)) srv srv'"
proof -
  have rd: "rd_key rd = key" "rd_value rd = body" "rd_options rd = http_options req"
    by (simp_all add: rd_def RequestData_opts_def)
  have "db_inv a (srv_db srv)" using inv by (simp add: srv_inv_def)
  from Database_set_ok [where data = rd, OF this, unfolded rd, OF key opts(1) body(2) clk opts(2)] obtain d i j where
    set: "Database_set (ext X) rd (srv_db srv) = Some (True, d)"
    "db_inv (store_set (getKey key) body (http_options req) (clock (ext X) i) (clock (ext X) j) a) d" by blast
  let ?b = "store_set (getKey key) body (http_options req) (clock (ext X) i) (clock (ext X) j) a"
  have "srv_inv ?b (srv\<lparr>srv_db := d\<rparr>)" using set(2) inv by (simp add: srv_inv_def)
  from http_emit_ok [OF this, of "put_builder rd"] obtain srv' where
    "http_emit X (put_builder rd) (srv\<lparr>srv_db := d\<rparr>) = Some srv'" "srv_inv ?b srv'"
    "notified X (FinishRequest (fbs X) (put_builder rd)) srv srv'" by (auto simp: notified_def)
  then show ?thesis using set(1) key_of_path [OF path] body(1)
    by (intro exI [of _ srv'] exI [of _ ?b]) (simp add: http_put_body_def rd_def [symmetric] Let_def)
qed

lemma http_get_ok:
  assumes inv: "srv_inv a srv" and path: "uri_path req = ''/key'' @ key" and key: "key \<noteq> []"
  shows "\<exists>srv'. http_get ser X req srv = Some (case vals a (getKey key) of
       Some v \<Rightarrow> http_write 200 (ser (JObject [(''key'', JString key), (''value'', JString v)]))
     | None \<Rightarrow> http_write 404 not_found, srv') \<and> srv_inv a srv'"
proof -
  have "db_inv a (srv_db srv)" using inv by (simp add: srv_inv_def)
  from Database_get_ok [OF this key] obtain d where
    "Database_get (ext X) key (srv_db srv) = Some (vals a (getKey key), d)" "db_inv a d" by blast
  then show ?thesis using key_of_path [OF path] inv
    by (intro exI [of _ "srv\<lparr>srv_db := d\<rparr>"]) (simp add: http_get_def srv_inv_def Let_def)
qed

end

text \<open>
  C35: what is put is got: a \<open>PUT\<close> of a key, its body arriving in any pieces, is answered with 200
  when the options permit it, and a \<open>GET\<close> of the key then returns the body; any other key is
  answered as before.
\<close>

theorem http_put_then_get:
  assumes lib: "server X base pending ciph enc_ready enc_used dec_ready dec_used bag"
    and inv: "server.srv_inv X base ciph enc_ready enc_used dec_ready dec_used a srv"
    and clk: "database.clock_ok (ext X)" and path: "uri_path req = ''/key'' @ key" "uri_path req2 = ''/key'' @ key2"
    and meth: "http_method req = ''PUT''" "http_method req2 = ''GET''"
    and key: "key \<noteq> []" "key2 \<noteq> []" and body: "pieces \<noteq> []" "[] \<notin> set pieces" "length (concat pieces) + 16 < 2 ^ 31"
    and opts: "\<not> (cacheEntry (http_options req) \<and> expirationInSeconds (http_options req) = 0)"
      "ifNotExists (http_options req) \<longrightarrow> vals a (getKey key) = None"
  shows "\<exists>srv1 srv2. http_serve ser KeyResource (pieces @ [[]]) X req srv = Some (http_write 200 ok_body, srv1) \<and>
    http_serve ser KeyResource [] X req2 srv1 = Some (case ((vals a)(getKey key \<mapsto> concat pieces)) (getKey key2) of
       Some v \<Rightarrow> http_write 200 (ser (JObject [(''key'', JString key2), (''value'', JString v)]))
     | None \<Rightarrow> http_write 404 not_found, srv2)"
proof -
  have ne: "concat pieces \<noteq> []" using body(1,2) by (cases pieces) auto
  from server.http_put_ok [OF lib inv clk path(1) key(1) ne body(3) opts(1) mp [OF opts(2)]] obtain srv1 b where
    put: "http_put_body (concat pieces) X req srv = Some (http_write 200 ok_body, srv1)"
    "server.srv_inv X base ciph enc_ready enc_used dec_ready dec_used b srv1"
    "vals b = (vals a)(getKey key \<mapsto> concat pieces)" by blast
  have "http_serve ser KeyResource (pieces @ [[]]) X req srv = Some (http_write 200 ok_body, srv1)"
    using put(1) meth(1) http_on_data_pieces [OF body(2), of "[]" "[]" X req srv]
    by (simp add: http_serve_def key_resource_def http_put_def)
  with server.http_get_ok [OF lib put(2) path(2) key(2), of ser] put(3) meth(2) show ?thesis
    by (auto simp: http_serve_def key_resource_def)
qed

theorem http_put_then_get_witness:
  "\<exists>srv1 srv2. http_serve (\<lambda>_. ''json'') KeyResource [''v'', []] (sample_env True)
       \<lparr>uri_path = ''/key/a'', http_method = ''PUT'', header = Map.empty\<rparr> sample_server = Some (http_write 200 ok_body, srv1) \<and>
     http_serve (\<lambda>_. ''json'') KeyResource [] (sample_env True)
       \<lparr>uri_path = ''/key/a'', http_method = ''GET'', header = Map.empty\<rparr> srv1 = Some (http_write 200 ''json'', srv2)"
  using http_put_then_get [OF node.server_axioms node_inv [of True] node_clock_ok,
      of "\<lparr>uri_path = ''/key/a'', http_method = ''PUT'', header = Map.empty\<rparr>" "''/a''"
        "\<lparr>uri_path = ''/key/a'', http_method = ''GET'', header = Map.empty\<rparr>" "''/a''" "[''v'']" "\<lambda>_. ''json''"]
  by (simp add: http_options_def)

text \<open>
  A time to live given in a header is taken modulo \<open>2\<^sup>3\<^sup>2\<close>: one of \<open>2\<^sup>3\<^sup>2\<close> seconds sets a
  key that never expires, and a number that does not fit 64 bits, or none at all, is ignored with a warning.
\<close>

theorem http_ttl_wraps:
  assumes "header req ''x-config-db-ttl'' = Some (nat_to_string n)"
  shows "unat (expirationInSeconds (http_options req)) = (if n < 2 ^ 64 then n mod 2 ^ 32 else 0)"
proof (cases "n < 2 ^ 64")
  case True
  then show ?thesis using assms
    by (simp add: http_options_def from_chars_to_string unat_of_nat take_bit_eq_mod)
next
  case False
  have "takeWhile is_digit (nat_to_string n) = nat_to_string n"
    using nat_to_string_digits by (simp add: takeWhile_eq_all_conv)
  then have "from_chars_unsigned 64 (nat_to_string n) = None"
    using False digits_val_nat_to_string [of n] unfolding from_chars_unsigned_def Let_def by (simp only: if_False if_cancel)
  then show ?thesis using assms False by (simp add: http_options_def)
qed

theorem http_ttl_wraps_witness:
  "unat (expirationInSeconds (http_options \<lparr>uri_path = [], http_method = [],
     header = [''x-config-db-ttl'' \<mapsto> nat_to_string (2 ^ 32)]\<rparr>)) = 0"
  using http_ttl_wraps [of "\<lparr>uri_path = [], http_method = [], header = [''x-config-db-ttl'' \<mapsto> nat_to_string (2 ^ 32)]\<rparr>" "2 ^ 32"]
  by simp

text \<open>
  The cache option is not replicated by the HTTP service: the request built for the peers of a
  put leaves it out, so that a peer stores a value that the server treats as temporary storage like
  any other, and adds its key to the tree.
\<close>

theorem http_put_replicates_without_cache:
  "peer_pairs (put_builder rd) = Some [RequestData_opts (rd_key rd) (rd_value rd)
     (Options_all (expirationInSeconds (rd_options rd)) False False)]"
  by (simp add: put_builder_def peer_pairs_def peer_pair_def CreateRequest_def CreateKeyValue_def CreateOptions_def)

lemma unknown_path_has_two_heads:
  "uri_path req \<noteq> ''/'' \<Longrightarrow> length (filter (\<lambda>out. case out of Head c h \<Rightarrow> True | End b \<Rightarrow> False) (root_resource req)) = 2"
  by (simp add: root_resource_def)

lemma empty_body_is_refused_with_ok:
  "http_put_body [] X req srv = Some (http_write 400 ''{\"code\": 200, \"cause\": \"Ok\"}'', srv)"
  by (simp add: http_put_body_def ok_body_def)

end
