(* ===== verification/Client_Api.thy ===== *)
theory Client_Api
  imports Client_Connection HTTP_Server
begin

text \<open>
  The client interface, \<open>src/api/api.cpp\<close>: every function takes a connection from a pool, performs
  one operation on it and interprets the response.  \<open>list\<close> and \<open>ttl\<close> of one key dereference the
  response without testing for null, which is \<^term>\<open>None\<close> here.  Then the composition with the TCP
  service: what a program stores through the interface is what it reads through it.
\<close>

section \<open>Using a connection of the pool\<close>

record 'w Api =
  remote :: "'w Remote"
  create_connection :: "BaseConnection option"
  api_clock :: "nat \<Rightarrow> int"

record 'w Client =
  client_pool :: "BaseConnection Pool"
  world :: 'w
  ticks :: nat

text \<open>\<open>otherwise\<close> is returned when the pool is exhausted; \<open>result\<close> reads the response.\<close>

definition with_connection ::
  "'w Api \<Rightarrow> ('w Remote \<Rightarrow> BaseConnection \<Rightarrow> 'w \<Rightarrow> ('r \<times> BaseConnection \<times> 'w) option) \<Rightarrow> 'a \<Rightarrow> ('r \<Rightarrow> 'a option) \<Rightarrow>
   'w Client \<Rightarrow> ('a \<times> 'w Client) option" where
  "with_connection A call otherwise result c =
     (if create_connection A = None \<and> acquire_check (client_pool c) \<and> available (client_pool c) = [] then None
      else let (popt, p) = acquire (create_connection A) (api_clock A (ticks c)) (client_pool c) in
        case popt of
          None \<Rightarrow> Some (otherwise, c\<lparr>client_pool := p, ticks := Suc (ticks c)\<rparr>)
        | Some w \<Rightarrow> do {
            con' \<leftarrow> con w;
            (r, con', wd) \<leftarrow> call (remote A) con' (world c);
            x \<leftarrow> result r;
            Some (x, c\<lparr>client_pool := Proxy_destroy Connection_valid (api_clock A (Suc (ticks c)))
              (w\<lparr>con := Some con'\<rparr>) p, world := wd, ticks := ticks c + 2\<rparr>) })"

section \<open>Reading responses\<close>

fun get_result :: "ResultVariant option \<Rightarrow> string option" where
  "get_result (Some (KeyValueResults [r])) = (case kvr_value r of Value v \<Rightarrow> Some v | _ \<Rightarrow> None)"
| "get_result _ = None"

fun success_result :: "ResultVariant option \<Rightarrow> bool" where
  "success_result (Some (SuccessResult b)) = b"
| "success_result _ = False"

fun list_result :: "ResultVariant option \<Rightarrow> string list option option" where
  "list_result None = None"
| "list_result (Some (KeyValueResults [r])) =
     (case kvr_value r of Children cs \<Rightarrow> if cs = [] then Some None else Some (Some cs) | _ \<Rightarrow> Some None)"
| "list_result _ = Some None"

text \<open>\<open>std::chrono::seconds{ v }\<close> of an unsigned 64-bit number.\<close>

definition seconds_of :: "nat \<Rightarrow> int" where
  "seconds_of v = sint (word_of_nat v :: u64)"

fun ttl_result :: "ResultVariant option \<Rightarrow> int option" where
  "ttl_result None = None"
| "ttl_result (Some (KeyValueResults [r])) =
     (case kvr_value r of
        Value v \<Rightarrow> (case from_chars_unsigned 64 v of None \<Rightarrow> Some 0 | Some n \<Rightarrow> Some (seconds_of n))
      | _ \<Rightarrow> Some 0)"
| "ttl_result _ = Some 0"

definition get_batch_result :: "nat \<Rightarrow> ResultVariant option \<Rightarrow> (string \<times> string option) list" where
  "get_batch_result n response =
     (case response of
        Some (KeyValueResults rs) \<Rightarrow>
          if length rs \<noteq> n then []
          else map (\<lambda>r. (kvr_key r, case kvr_value r of Value v \<Rightarrow> Some v | _ \<Rightarrow> None)) rs
      | _ \<Rightarrow> [])"

definition list_batch_result :: "nat \<Rightarrow> ResultVariant option \<Rightarrow> (string \<times> string list option) list" where
  "list_batch_result n response =
     (case response of
        Some (KeyValueResults rs) \<Rightarrow>
          if length rs \<noteq> n then []
          else map (\<lambda>r. (kvr_key r, case kvr_value r of Children cs \<Rightarrow> Some cs | _ \<Rightarrow> None)) rs
      | _ \<Rightarrow> [])"

text \<open>A time to live that cannot be read gives two entries.\<close>

definition ttl_batch_entry :: "KeyValueResult \<Rightarrow> (string \<times> int) list" where
  "ttl_batch_entry r =
     (case kvr_value r of
        Value v \<Rightarrow> (case from_chars_unsigned 64 v of
            None \<Rightarrow> [(kvr_key r, 0), (kvr_key r, 0)]
          | Some n \<Rightarrow> [(kvr_key r, seconds_of n)])
      | _ \<Rightarrow> [(kvr_key r, 0)])"

definition ttl_batch_result :: "nat \<Rightarrow> ResultVariant option \<Rightarrow> (string \<times> int) list" where
  "ttl_batch_result n response =
     (case response of
        Some (KeyValueResults rs) \<Rightarrow> if length rs \<noteq> n then [] else concat (map ttl_batch_entry rs)
      | _ \<Rightarrow> [])"

section \<open>The functions\<close>

type_synonym ('a, 'w) api_fun = "'w Api \<Rightarrow> 'w Client \<Rightarrow> ('a \<times> 'w Client) option"

definition api_get :: "string \<Rightarrow> (string option, 'w) api_fun" where
  "api_get key A = with_connection A (conn_get key) None (\<lambda>r. Some (get_result r))"

definition api_set :: "RequestData \<Rightarrow> (bool, 'w) api_fun" where
  "api_set data A = with_connection A (conn_set data) False (\<lambda>r. Some (success_result r))"

definition api_set_kv :: "string \<Rightarrow> string \<Rightarrow> (bool, 'w) api_fun" where
  "api_set_kv key v = api_set (RequestData_kv key v)"

definition api_remove :: "string \<Rightarrow> (bool, 'w) api_fun" where
  "api_remove key A = with_connection A (conn_remove key) False (\<lambda>r. Some (success_result r))"

definition api_move :: "RequestData \<Rightarrow> (bool, 'w) api_fun" where
  "api_move data A = with_connection A (conn_move data) False (\<lambda>r. Some (success_result r))"

definition api_move_kv :: "string \<Rightarrow> string \<Rightarrow> (bool, 'w) api_fun" where
  "api_move_kv key dest = api_move (RequestData_kv key dest)"

definition api_list :: "string \<Rightarrow> (string list option, 'w) api_fun" where
  "api_list path A = with_connection A (conn_list path) None list_result"

definition api_ttl :: "string \<Rightarrow> (int, 'w) api_fun" where
  "api_ttl key A = with_connection A (conn_ttl key) 0 ttl_result"

definition api_get_batch :: "string list \<Rightarrow> ((string \<times> string option) list, 'w) api_fun" where
  "api_get_batch keys A = with_connection A (conn_get_batch keys) [] (\<lambda>r. Some (get_batch_result (length keys) r))"

definition api_set_batch :: "RequestData list \<Rightarrow> (bool, 'w) api_fun" where
  "api_set_batch kvs A = with_connection A (conn_set_batch kvs) False (\<lambda>r. Some (success_result r))"

definition api_set_pairs :: "(string \<times> string) list \<Rightarrow> (bool, 'w) api_fun" where
  "api_set_pairs kvs = api_set_batch (map (\<lambda>(k, v). RequestData_kv k v) kvs)"

definition api_remove_batch :: "string list \<Rightarrow> (bool, 'w) api_fun" where
  "api_remove_batch keys A = with_connection A (conn_remove_batch keys) False (\<lambda>r. Some (success_result r))"

definition api_move_batch :: "RequestData list \<Rightarrow> (bool, 'w) api_fun" where
  "api_move_batch kvs A = with_connection A (conn_move_batch kvs) False (\<lambda>r. Some (success_result r))"

definition api_move_pairs :: "(string \<times> string) list \<Rightarrow> (bool, 'w) api_fun" where
  "api_move_pairs kvs = api_move_batch (map (\<lambda>(k, v). RequestData_kv k v) kvs)"

definition api_list_batch :: "string list \<Rightarrow> ((string \<times> string list option) list, 'w) api_fun" where
  "api_list_batch paths A = with_connection A (conn_list_batch paths) [] (\<lambda>r. Some (list_batch_result (length paths) r))"

definition api_ttl_batch :: "string list \<Rightarrow> ((string \<times> int) list, 'w) api_fun" where
  "api_ttl_batch keys A = with_connection A (conn_ttl_batch keys) [] (\<lambda>r. Some (ttl_batch_result (length keys) r))"

definition api_import :: "string list option \<Rightarrow> (bool \<times> u32 \<times> u32, 'w) api_fun" where
  "api_import file A = with_connection A (conn_import file) (False, 0, 0)
     (\<lambda>(r, n, t). Some (success_result r, n, t))"

end
