(* ===== verification/End_To_End.thy ===== *)
theory End_To_End
  imports Client_Api
begin

text \<open>
  The client interface against the TCP service: every sequence of calls of a program through the
  interface, over connections of the pool, framing, verification, the handlers and the storage, is
  answered as a map answers it.
\<close>

section \<open>Reading a response that arrives in pieces\<close>

lemma client_read_exact:
  assumes "length buf + length (concat segs) = n" and "[] \<notin> set segs"
  shows "client_read_loop n buf segs = Some (buf @ concat segs, [])"
  using assms
proof (induction "length (concat segs)" arbitrary: buf segs rule: less_induct)
  case less
  show ?case
  proof (cases segs)
    case Nil
    then show ?thesis using less.prems by (simp add: client_read_loop.simps)
  next
    case (Cons s ss)
    then have s: "s \<noteq> []" using less.prems(2) by auto
    define d where "d = take 256 s"
    define segs' where "segs' = (if length s \<le> 256 then ss else drop 256 s # ss)"
    have read: "read_some 256 segs = Some (d, segs')" using Cons s by (simp add: d_def segs'_def)
    have cat: "concat segs = d @ concat segs'" using read_some_concat [OF read] .
    have lt: "length (concat segs') < length (concat segs)" by (rule read_some_shorter [OF read]) simp
    have short: "length buf < n" using less.prems(1) lt by simp
    have "[] \<notin> set segs'" using less.prems(2) Cons by (simp add: segs'_def)
    with less.hyps [OF lt, of "buf @ d"] less.prems(1) cat show ?thesis
      using read short by (simp add: client_read_loop.simps [of n buf])
  qed
qed

text \<open>The ways the bytes of the server may be cut: no empty piece, five bytes in the first.\<close>

definition chop_ok :: "(bytes \<Rightarrow> bytes list) \<Rightarrow> bool" where
  "chop_ok chop \<longleftrightarrow> (\<forall>b. concat (chop b) = b \<and> [] \<notin> set (chop b) \<and> (5 \<le> length b \<longrightarrow> 5 \<le> length (hd (chop b))))"

text \<open>A connection between two calls.\<close>

definition fresh :: "BaseConnection \<Rightarrow> bool" where
  "fresh c \<longleftrightarrow> c = Connection_new"

lemma read_response_frame:
  assumes fb: "flatbuffers (client_fbs R)" and chop: "chop_ok chop"
    and len: "length (FinishResponse (client_fbs R) v) \<le> max_message_size"
  obtains data segs where "read_some 256 (chop (frame_bytes (FinishResponse (client_fbs R) v))) = Some (data, segs)"
    "5 \<le> length data" "read_response R data segs = Some (Some v, True, [])"
proof -
  let ?m = "FinishResponse (client_fbs R) v"
  let ?f = "frame_bytes ?m"
  have ne: "?m \<noteq> []" using flatbuffers.response_nonempty [OF fb] .
  have five: "5 \<le> length ?f" using ne by (cases ?m) auto
  have c: "concat (chop ?f) = ?f" "[] \<notin> set (chop ?f)" "5 \<le> length (hd (chop ?f))"
    using chop five by (auto simp: chop_ok_def)
  then obtain s ss where s: "chop ?f = s # ss" using five by (cases "chop ?f") auto
  define data where "data = take 256 s"
  define segs where "segs = (if length s \<le> 256 then ss else drop 256 s # ss)"
  have read: "read_some 256 (chop ?f) = Some (data, segs)" using c(2) s by (auto simp: data_def segs_def)
  have cat: "data @ concat segs = ?f" using read_some_concat [OF read] c(1) by simp
  have long: "5 \<le> length data" using c(3) s by (simp add: data_def)
  have "of_le32 data = of_le32 (data @ concat segs)"
    using of_le32_prefix [of "length data" "data @ concat segs"] long by simp
  also have "\<dots> = word_of_nat (length ?m)" unfolding cat by (simp add: frame_bytes_def)
  finally have sent: "unat (of_le32 data) = length ?m"
    using len by (simp add: max_message_size_def unat_of_nat take_bit_nat_eq_self)
  have "[] \<notin> set segs" using c(2) s by (simp add: segs_def)
  moreover have "length data + length (concat segs) = length ?m + 4" using arg_cong [OF cat, of length] by simp
  ultimately have "client_read_loop (length ?m + 4) data segs = Some (?f, [])"
    using client_read_exact [of data segs "length ?m + 4"] cat by simp
  then have "read_response R data segs = Some (Some v, True, [])"
    using sent len flatbuffers.verify_response [OF fb, of v] flatbuffers.get_response [OF fb, of v]
    by (simp add: read_response_def max_message_size_def Let_def)
  with read long show ?thesis by (rule that)
qed

section \<open>One call\<close>

text \<open>The TCP service as the other side of a connection: it answers the document it is sent.\<close>

definition tcp_exchange ::
  "('s, 't, 'x, 'q) Env \<Rightarrow> (bytes \<Rightarrow> bytes list) \<Rightarrow> bytes \<Rightarrow> ('s, 't, 'x, 'q) Server \<Rightarrow>
   bytes list \<times> ('s, 't, 'x, 'q) Server" where
  "tcp_exchange X chop bs srv =
     (case tcp_respond X \<lparr>incoming = [bs], outgoing = [], is_open = True\<rparr> srv of
        Inl e \<Rightarrow> ([], srv)
      | Inr (sock, srv') \<Rightarrow> (chop (outgoing sock), srv'))"

definition tcp_remote :: "('s, 't, 'x, 'q) Env \<Rightarrow> (bytes \<Rightarrow> bytes list) \<Rightarrow> ('s, 't, 'x, 'q) Server Remote" where
  "tcp_remote X chop = \<lparr>exchange = tcp_exchange X chop, connect_again = (\<lambda>w. (True, w)), client_fbs = fbs X, warn_logged = True\<rparr>"

definition tcp_api :: "('s, 't, 'x, 'q) Env \<Rightarrow> (bytes \<Rightarrow> bytes list) \<Rightarrow> ('s, 't, 'x, 'q) Server Api" where
  "tcp_api X chop = \<lparr>remote = tcp_remote X chop, create_connection = Some Connection_new, api_clock = (\<lambda>_. 0)\<rparr>"

definition request_fits :: "FlatBuffers \<Rightarrow> Request \<Rightarrow> bool" where
  "request_fits fb r \<longleftrightarrow> length (FinishRequest fb r) + 4 < maxBytes"

definition response_fits :: "FlatBuffers \<Rightarrow> ResultVariant \<Rightarrow> bool" where
  "response_fits fb v \<longleftrightarrow> length (FinishResponse fb v) \<le> max_message_size"

lemma write_response_frame:
  assumes "response_fits (fbs X) v"
  shows "outgoing (write_response X v sock) = outgoing sock @ frame_bytes (FinishResponse (fbs X) v)"
proof -
  have "unat (word_of_nat (length (FinishResponse (fbs X) v)) :: u32) = length (FinishResponse (fbs X) v)"
    using assms by (simp add: response_fits_def max_message_size_def unat_of_nat take_bit_nat_eq_self)
  then show ?thesis by (simp add: write_response_def write_builder_def frame_bytes_def Let_def)
qed

context server
begin

lemma writeImpl_ok:
  assumes chop: "chop_ok chop" and fits: "request_fits (fbs X) r" "response_fits (fbs X) v"
    and run: "\<And>sock. tcp_process (FinishRequest (fbs X) r) X r sock srv = Some (write_response X v sock, srv')"
  shows "writeImpl (tcp_remote X chop) r Connection_new srv = Some (Some v, Connection_new, srv')"
proof -
  let ?p = "FinishRequest (fbs X) r" and ?R = "tcp_remote X chop"
  let ?sock = "\<lparr>incoming = [frame_bytes ?p], outgoing = [], is_open = True\<rparr>"
  have "delivered ?p [frame_bytes ?p]"
    using fits(1) by (intro delivered_whole request_nonempty) (simp add: request_fits_def)
  from tcp_respond_frame [OF this, of ?sock "[]" X srv] have
    "tcp_respond X ?sock srv = Inr (write_response X v (?sock\<lparr>incoming := []\<rparr>), srv')"
    by (simp add: handle_request run or_abnormal_def)
  then have ex: "tcp_exchange X chop (frame_bytes ?p) srv = (chop (frame_bytes (FinishResponse (fbs X) v)), srv')"
    by (simp add: tcp_exchange_def write_response_frame [OF fits(2)])
  have n: "unat (word_of_nat (length ?p) :: u32) = length ?p"
    using fits(1) by (simp add: request_fits_def maxBytes_def unat_of_nat take_bit_nat_eq_self)
  have fb: "flatbuffers (client_fbs ?R)" using flatbuffers_axioms by (simp add: tcp_remote_def)
  have len: "length (FinishResponse (client_fbs ?R) v) \<le> max_message_size"
    using fits(2) by (simp add: response_fits_def tcp_remote_def)
  from read_response_frame [OF fb chop len] obtain data segs where
    read: "read_some 256 (chop (frame_bytes (FinishResponse (client_fbs ?R) v))) = Some (data, segs)"
    "5 \<le> length data" "read_response ?R data segs = Some (Some v, True, [])" .
  have "exchange ?R (le32 (word_of_nat (length ?p)) @ ?p) srv = (chop (frame_bytes (FinishResponse (fbs X) v)), srv')"
    using ex by (simp add: tcp_remote_def frame_bytes_def)
  moreover have "client_fbs ?R = fbs X" by (simp add: tcp_remote_def)
  ultimately show ?thesis using read n
    by (simp add: writeImpl_def reopen_socket_def Connection_new_def Connection_valid_def Let_def)
qed

end

lemma with_connection_ok:
  assumes pool: "pool_holds fresh (client_pool c)" "pool_in_use (client_pool c) < pool_limit (client_pool c)"
    and create: "create_connection A = Some Connection_new"
    and call: "call (remote A) Connection_new (world c) = Some (r, Connection_new, w')" and res: "result r = Some x"
  shows "\<exists>c'. with_connection A call otherwise result c = Some (x, c') \<and> world c' = w' \<and>
    pool_holds fresh (client_pool c') \<and> pool_in_use (client_pool c') = pool_in_use (client_pool c) \<and>
    pool_limit (client_pool c') = pool_limit (client_pool c)"
proof -
  have f: "fresh Connection_new" by (simp add: fresh_def)
  let ?rel = "\<lambda>w. Proxy_destroy Connection_valid (api_clock A (Suc (ticks c))) (w\<lparr>con := Some Connection_new\<rparr>)"
  from pool.acquire_use_release [OF pool(2,1) f, of "api_clock A (ticks c)" Connection_valid "api_clock A (Suc (ticks c))"]
  obtain w p' k where
    acq: "acquire (Some Connection_new) (api_clock A (ticks c)) (client_pool c) = (Some w, p')" "con w = Some k" "fresh k"
    and rel: "\<forall>c'. fresh c' \<longrightarrow> (let q = Proxy_destroy Connection_valid (api_clock A (Suc (ticks c))) (w\<lparr>con := Some c'\<rparr>) p'
      in pool_holds fresh q \<and> pool_in_use q = pool_in_use (client_pool c) \<and> pool_limit q = pool_limit (client_pool c))"
    by blast
  from rel f have "pool_holds fresh (?rel w p') \<and> pool_in_use (?rel w p') = pool_in_use (client_pool c) \<and>
      pool_limit (?rel w p') = pool_limit (client_pool c)" by (simp add: Let_def)
  with acq show ?thesis using create call res by (simp add: with_connection_def fresh_def)
qed


section \<open>Operations and their meaning\<close>

datatype operation = OpGet string | OpSet RequestData | OpRemove string | OpMove RequestData

definition run_operation :: "operation \<Rightarrow> 'w Api \<Rightarrow> 'w Client \<Rightarrow> (reply \<times> 'w Client) option" where
  "run_operation p A c =
     (case p of
        OpGet k \<Rightarrow> map_option (apfst Found) (api_get k A c)
      | OpSet data \<Rightarrow> map_option (apfst Done) (api_set data A c)
      | OpRemove k \<Rightarrow> map_option (apfst Done) (api_remove k A c)
      | OpMove data \<Rightarrow> map_option (apfst Done) (api_move data A c))"

fun run_operations :: "operation list \<Rightarrow> 'w Api \<Rightarrow> 'w Client \<Rightarrow> (reply list \<times> 'w Client) option" where
  "run_operations [] A c = Some ([], c)"
| "run_operations (p # ps) A c = do {
     (x, c) \<leftarrow> run_operation p A c;
     (xs, c) \<leftarrow> run_operations ps A c;
     Some (x # xs, c) }"

text \<open>On a map: what an operation changes, \<^term>\<open>None\<close> when it is refused, and the answer.\<close>

type_synonym kv_map = "string \<Rightarrow> string option"

fun op_change :: "operation \<Rightarrow> kv_map \<Rightarrow> kv_map option" where
  "op_change (OpGet k) m = Some m"
| "op_change (OpSet data) m = set_item data m"
| "op_change (OpRemove k) m = remove_item k m"
| "op_change (OpMove data) m = move_item data m"

definition op_next :: "operation \<Rightarrow> kv_map \<Rightarrow> kv_map" where
  "op_next p m = (case op_change p m of None \<Rightarrow> m | Some m' \<Rightarrow> m')"

fun op_reply :: "operation \<Rightarrow> kv_map \<Rightarrow> reply" where
  "op_reply (OpGet k) m = Found (m (getKey k))"
| "op_reply p m = Done (op_change p m \<noteq> None)"

fun op_replies :: "operation list \<Rightarrow> kv_map \<Rightarrow> reply list" where
  "op_replies [] m = []"
| "op_replies (p # ps) m = op_reply p m # op_replies ps (op_next p m)"

text \<open>The messages of an operation, and that they are not too long, nor the values.\<close>

fun op_request :: "operation \<Rightarrow> Request" where
  "op_request (OpGet k) = CreateRequest Get [key_item k]"
| "op_request (OpSet data) = CreateRequest Put [data_item data]"
| "op_request (OpRemove k) = CreateRequest Delete [key_item k]"
| "op_request (OpMove data) = CreateRequest Move [data_item data]"

fun op_response :: "operation \<Rightarrow> kv_map \<Rightarrow> ResultVariant" where
  "op_response (OpGet k) m = KeyValueResults [CreateKeyValueResult (getKey k) (answer_of (m (getKey k)))]"
| "op_response p m = SuccessResult (op_change p m \<noteq> None)"

fun op_small :: "operation \<Rightarrow> bool" where
  "op_small (OpSet data) = (length (rd_value data) + 16 < 2 ^ 31)"
| "op_small p = True"

fun ops_fit :: "FlatBuffers \<Rightarrow> operation list \<Rightarrow> kv_map \<Rightarrow> bool" where
  "ops_fit fb [] m = True"
| "ops_fit fb (p # ps) m = (op_small p \<and> request_fits fb (op_request p) \<and> response_fits fb (op_response p m) \<and>
     ops_fit fb ps (op_next p m))"

lemma pair_of_data_item [simp]: "pair_of (data_item data) = Some data"
  by (simp add: pair_of_def data_item_def CreateKeyValue_def CreateOptions_def RequestData_opts_def Options_all_def)

lemma request_tables:
  "pairs_of (CreateRequest a [data_item data]) = Some [data]" "keys_of (CreateRequest a [key_item k]) = Some [k]"
  "req_action (CreateRequest a kvs) = a"
  by (simp_all add: pairs_of_def keys_of_def CreateRequest_def key_item_def CreateKeyValue_def)

context server
begin

lemma refused_item:
  assumes inv: "db_inv a d"
    and step: "\<And>t d1. inside t 0 a d1 \<Longrightarrow> \<exists>d2. f x t d1 = Some (False, d2) \<and> frame d1 d2 \<and> inside t 0 a d2 \<and>
      valueCache d2 = valueCache d1"
  shows "\<exists>d'. with_txn (ext X) (\<lambda>t d. do { (s, d) \<leftarrow> txn_loop f [x] t d;
      if \<not> s then Some (False, d) else Some (commit (ext X) t d) }) d = Some (False, d') \<and> db_inv a d'"
proof -
  have "\<exists>d2. txn_loop f [x] t d1 = Some (False, d2) \<and> frame d1 d2 \<and> inside t 0 a d2 \<and> valueCache d2 = valueCache d1"
    if "inside t 0 a d1" for t d1
    using step [OF that] by auto
  from with_txn_refused [where f = "txn_loop f [x]", OF inv this] show ?thesis by simp
qed

lemma set_refused:
  assumes inv: "db_inv a d" and len: "length (rd_value data) + 16 < 2 ^ 31" and none: "set_item data (vals a) = None"
  shows "\<exists>d'. Database_set_batch (ext X) [data] d = Some (False, d') \<and> db_inv a d'"
proof -
  have ine: "ifNotExists (rd_options data)" "vals a (getKey (rd_key data)) \<noteq> None"
    using none by (auto simp: set_item_def Let_def split: if_splits)
  have lt: "length (rd_value data) < 2 ^ 31" using len by simp
  show ?thesis unfolding Database_set_batch_def
    by (rule refused_item [OF inv]) (use set_txn_exists [OF _ _ lt ine] in simp)
qed

lemma move_refused:
  assumes inv: "db_inv a d" and none: "move_item data (vals a) = None"
  shows "\<exists>d'. Database_move_batch (ext X) [data] d = Some (False, d') \<and> db_inv a d'"
proof -
  have no: "vals a (getKey (rd_key data)) = None \<or> ifNotExists (rd_options data) \<and> vals a (getKey (rd_value data)) \<noteq> None"
    using none by (auto simp: move_item_def Let_def split: if_splits)
  show ?thesis unfolding Database_move_batch_def
    by (rule refused_item [OF inv]) (use move_txn_refused [OF _ _ no] in simp)
qed

lemma process_operation:
  assumes inv: "srv_inv a srv" and clk: "clock_ok" and small: "op_small p"
  shows "\<exists>srv' b. (\<forall>sock. tcp_process rbuf X (op_request p) sock srv =
      Some (write_response X (op_response p (vals a)) sock, srv')) \<and> srv_inv b srv' \<and> vals b = op_next p (vals a)"
proof -
  have db: "db_inv a (srv_db srv)" using inv by (simp add: srv_inv_def)
  note req = tcp_process_def request_tables op_next_def
  have change: "\<exists>srv' b. (\<forall>sock. do { (value, d) \<leftarrow> r; srv \<leftarrow> emit_change X value rbuf (srv\<lparr>srv_db := d\<rparr>);
        Some (write_response X (SuccessResult value) sock, srv) } =
      Some (write_response X (SuccessResult True) sock, srv')) \<and> srv_inv b srv' \<and> vals b = m"
    if "batch_outcome (srv_db srv) r (Some m)" for r m
  proof -
    from that obtain d b where d: "r = Some (True, d)" "db_inv b d" "vals b = m"
      by (auto simp: batch_outcome_def)
    have "srv_inv b (srv\<lparr>srv_db := d\<rparr>)" using inv d(2) by (simp add: srv_inv_def)
    from emit_change_ok [OF this, of True rbuf] d show ?thesis by auto
  qed
  have refuse: "\<exists>srv' b. (\<forall>sock. do { (value, d) \<leftarrow> r; srv \<leftarrow> emit_change X value rbuf (srv\<lparr>srv_db := d\<rparr>);
        Some (write_response X (SuccessResult value) sock, srv) } =
      Some (write_response X (SuccessResult False) sock, srv')) \<and> srv_inv b srv' \<and> vals b = vals a"
    if "\<exists>d'. r = Some (False, d') \<and> db_inv a d'" for r
    using that inv by (auto simp: emit_change_def srv_inv_def)
  show ?thesis
  proof (cases p)
    case (OpGet k)
    from Database_get_batch_ok [OF db, of "[k]"] obtain rs d where
      rs: "Database_get_batch (ext X) [k] (srv_db srv) = Some (rs, d)" "db_inv a d"
      "mset rs = {#(getKey k, vals a (getKey k))#}" by auto
    then have "rs = [(getKey k, vals a (getKey k))]" by simp
    with OpGet rs(1,2) inv show ?thesis
      by (auto simp: req tcp_get_def srv_inv_def answer_of_def Let_def intro!: exI)
  next
    case (OpSet data)
    show ?thesis
    proof (cases "set_item data (vals a)")
      case None
      from refuse [OF set_refused [OF db _ None]] small OpSet None show ?thesis
        by (simp add: req tcp_put_def)
    next
      case (Some m)
      have "map_all set_item [data] (vals a) = Some m" using Some by simp
      from change [of "Database_set_batch (ext X) [data] (srv_db srv)" m] put_outcome [OF db clk, of "[data]"] this small OpSet Some
      show ?thesis by (simp add: req tcp_put_def)
    qed
  next
    case (OpRemove k)
    from change [of "Database_remove_batch (ext X) [k] (srv_db srv)"] remove_outcome [OF db, of "[k]"] OpRemove
    show ?thesis by (simp add: req tcp_remove_def remove_item_def)
  next
    case (OpMove data)
    show ?thesis
    proof (cases "move_item data (vals a)")
      case None
      from refuse [OF move_refused [OF db None]] OpMove None show ?thesis by (simp add: req tcp_move_def)
    next
      case (Some m)
      have "map_all move_item [data] (vals a) = Some m" using Some by simp
      from change [of "Database_move_batch (ext X) [data] (srv_db srv)" m] move_outcome [OF db clk, of "[data]"] this OpMove Some
      show ?thesis by (simp add: req tcp_move_def)
    qed
  qed
qed

text \<open>The client side of an operation.\<close>

definition client_inv :: "Store \<Rightarrow> ('s, 't, 'x, 'q) Server Client \<Rightarrow> bool" where
  "client_inv a c \<longleftrightarrow> pool_holds fresh (client_pool c) \<and>
     pool_in_use (client_pool c) < pool_limit (client_pool c) \<and> srv_inv a (world c)"

lemma run_operation_ok:
  assumes inv: "client_inv a c" and clk: "clock_ok" and chop: "chop_ok chop" and small: "op_small p"
    and fits: "request_fits (fbs X) (op_request p)" "response_fits (fbs X) (op_response p (vals a))"
  shows "\<exists>c' b. run_operation p (tcp_api X chop) c = Some (op_reply p (vals a), c') \<and> client_inv b c' \<and>
    vals b = op_next p (vals a)"
proof -
  have pool: "pool_holds fresh (client_pool c)" "pool_in_use (client_pool c) < pool_limit (client_pool c)"
    and srv: "srv_inv a (world c)" using inv by (simp_all add: client_inv_def)
  from process_operation [OF srv clk small, of "FinishRequest (fbs X) (op_request p)"] obtain srv' b where
    run: "\<And>sock. tcp_process (FinishRequest (fbs X) (op_request p)) X (op_request p) sock (world c) =
      Some (write_response X (op_response p (vals a)) sock, srv')" and
    b: "srv_inv b srv'" "vals b = op_next p (vals a)" by blast
  have "create_connection (tcp_api X chop) = Some Connection_new" by (simp add: tcp_api_def)
  note call = with_connection_ok [OF pool this, where w' = srv' and r = "Some (op_response p (vals a))"]
  have w: "writeImpl (remote (tcp_api X chop)) (op_request p) Connection_new (world c) =
      Some (Some (op_response p (vals a)), Connection_new, srv')"
    using writeImpl_ok [OF chop fits run] by (simp add: tcp_api_def)
  have finish: "\<exists>c' b. map_option (apfst g) (with_connection (tcp_api X chop) call otherwise result c) = Some (g x, c') \<and>
      client_inv b c' \<and> vals b = op_next p (vals a)"
    if "call (remote (tcp_api X chop)) Connection_new (world c) = Some (Some (op_response p (vals a)), Connection_new, srv')"
      "result (Some (op_response p (vals a))) = Some x" for g call otherwise result and x :: 'z
    using call [of call result x otherwise] that b pool(2) by (auto simp: client_inv_def)
  show ?thesis
  proof (cases p)
    case (OpGet k)
    with finish [of "conn_get k" "\<lambda>r. Some (get_result r)" "vals a (getKey k)" Found None] w show ?thesis
      by (simp add: run_operation_def api_get_def conn_get_def answer_of_def CreateKeyValueResult_def split: option.splits)
  next
    case (OpSet data)
    with finish [of "conn_set data" "\<lambda>r. Some (success_result r)" "op_change p (vals a) \<noteq> None" Done False] w show ?thesis
      by (simp add: run_operation_def api_set_def conn_set_def)
  next
    case (OpRemove k)
    with finish [of "conn_remove k" "\<lambda>r. Some (success_result r)" "op_change p (vals a) \<noteq> None" Done False] w show ?thesis
      by (simp add: run_operation_def api_remove_def conn_remove_def)
  next
    case (OpMove data)
    with finish [of "conn_move data" "\<lambda>r. Some (success_result r)" "op_change p (vals a) \<noteq> None" Done False] w show ?thesis
      by (simp add: run_operation_def api_move_def conn_move_def)
  qed
qed

lemma run_operations_ok:
  assumes "client_inv a c" and clk: "clock_ok" and chop: "chop_ok chop" and "ops_fit (fbs X) ps (vals a)"
  shows "\<exists>c'. run_operations ps (tcp_api X chop) c = Some (op_replies ps (vals a), c')"
  using assms(1,4)
proof (induction ps arbitrary: a c)
  case (Cons p ps)
  from Cons.prems run_operation_ok [OF Cons.prems(1) clk chop, of p] obtain c1 b where
    one: "run_operation p (tcp_api X chop) c = Some (op_reply p (vals a), c1)" "client_inv b c1" "vals b = op_next p (vals a)"
    by auto
  from Cons.IH [OF one(2)] Cons.prems(2) one(3) obtain c2 where
    "run_operations ps (tcp_api X chop) c1 = Some (op_replies ps (op_next p (vals a)), c2)" by auto
  with one show ?case by simp
qed simp

end


text \<open>
  C1: the program as a whole is a map.  A client that calls \<open>get\<close>, \<open>set\<close>, \<open>remove\<close> and \<open>move\<close> of the
  client interface in any order, over connections of its pool to the TCP service, with messages
  below the limits of both sides and the bytes of the responses cut into any pieces of which the
  first has five bytes, is answered every time, and answered as a map from normalised keys to
  values would: refusals of \<open>ifNotExists\<close> and of moving a missing key included.
\<close>

theorem client_refines_map:
  assumes "server X base pending ciph enc_ready enc_used dec_ready dec_used bag"
    and "server.client_inv X base ciph enc_ready enc_used dec_ready dec_used a c"
    and "database.clock_ok (ext X)" and "chop_ok chop" and "ops_fit (fbs X) ops (vals a)"
  shows "map_option fst (run_operations ops (tcp_api X chop) c) = Some (op_replies ops (vals a))"
  using server.run_operations_ok [OF assms] by auto

definition whole :: "bytes \<Rightarrow> bytes list" where
  "whole b = (if b = [] then [] else [b])"

definition sample_client :: "(mem, nat, string, bytes list) Server Client" where
  "sample_client = \<lparr>client_pool = Pool_new (Some Connection_new) PoolConfiguration_default (\<lambda>_. 0),
     world = sample_server, ticks = 0\<rparr>"

definition sample_operations :: "operation list" where
  "sample_operations = [OpSet (RequestData_kv ''a'' ''x''), OpMove (RequestData_kv ''/a'' ''b''), OpGet ''a'', OpGet ''/b'']"

theorem client_refines_map_witness:
  "map_option fst (run_operations sample_operations (tcp_api (sample_env True) whole) sample_client) =
   Some [Done True, Done True, Found None, Found (Some ''x'')]"
proof -
  have inv: "node.client_inv True empty_store sample_client"
    unfolding node.client_inv_def
    by (simp add: sample_client_def node_inv [of True] Pool_new_def PoolConfiguration_default_def pool_holds_def
        pool_in_use_def pool_limit_def fresh_def ConnectionWrapper_new_def)
  have chop: "chop_ok whole" by (auto simp: chop_ok_def whole_def)
  have fit: "ops_fit (fbs (sample_env True)) sample_operations (vals empty_store)"
    unfolding sample_env_simps by code_simp
  have "op_replies sample_operations (vals empty_store) = [Done True, Done True, Found None, Found (Some ''x'')]"
    by code_simp
  with client_refines_map [OF node.server_axioms inv node_clock_ok chop fit] show ?thesis by simp
qed

text \<open>
  A short response spoils the next request: when fewer than five bytes arrive, the client
  reports an error but keeps the bytes in the buffer that it writes the next request to, and the
  connection stays valid.  The next request on the connection is sent behind these bytes.
\<close>

theorem short_response_spoils_next_request:
  assumes "exchange R = (\<lambda>bs sent. (answer bs, sent @ [bs]))"
    and "opened c" and "status c" and "buffer c = []" and "arriving c = []"
    and "answer (frame_bytes (FinishRequest (client_fbs R) r1)) = [short]" and "short \<noteq> []" and "length short < 5"
    and "length (FinishRequest (client_fbs R) r1) < 2 ^ 32" and "length (FinishRequest (client_fbs R) r2) < 2 ^ 32"
  shows "\<exists>c1. writeImpl R r1 c sent = Some (None, c1, sent @ [frame_bytes (FinishRequest (client_fbs R) r1)]) \<and>
    Connection_valid c1 \<and>
    (\<forall>sent1 x c2 sent2. writeImpl R r2 c1 sent1 = Some (x, c2, sent2) \<longrightarrow>
      sent2 = sent1 @ [short @ frame_bytes (FinishRequest (client_fbs R) r2)])"
proof -
  have n: "unat (word_of_nat (length (FinishRequest (client_fbs R) r1)) :: u32) = length (FinishRequest (client_fbs R) r1)"
    "unat (word_of_nat (length (FinishRequest (client_fbs R) r2)) :: u32) = length (FinishRequest (client_fbs R) r2)"
    using assms(9,10) by (simp_all add: unat_of_nat take_bit_nat_eq_self)
  let ?c = "c\<lparr>buffer := short, arriving := []\<rparr>"
  have "writeImpl R r1 c sent = Some (None, ?c, sent @ [frame_bytes (FinishRequest (client_fbs R) r1)])"
    using assms n(1) by (simp add: writeImpl_def reopen_socket_def Connection_valid_def frame_bytes_def Let_def)
  moreover have "sent2 = sent1 @ [short @ frame_bytes (FinishRequest (client_fbs R) r2)]"
    if "writeImpl R r2 ?c sent1 = Some (x, c2, sent2)" for sent1 x c2 sent2
    using that assms(1-3) n(2)
    by (auto simp: writeImpl_def reopen_socket_def Connection_valid_def frame_bytes_def Let_def
        split: option.splits if_splits bind_splits)
  ultimately show ?thesis using assms(3) by (intro exI [of _ ?c]) (auto simp: Connection_valid_def)
qed

definition short_remote :: "bytes list Remote" where
  "short_remote = \<lparr>exchange = (\<lambda>bs sent. ([''ping''], sent @ [bs])), connect_again = (\<lambda>w. (True, w)),
     client_fbs = unary_flatbuffers, warn_logged = True\<rparr>"

theorem short_response_spoils_next_request_witness:
  "\<exists>c1. writeImpl short_remote (CreateRequest Get []) Connection_new [] =
     Some (None, c1, [frame_bytes (request_out (CreateRequest Get []))]) \<and> Connection_valid c1"
proof -
  have "length (request_out (CreateRequest Get [])) < 2 ^ 32" by code_simp
  then show ?thesis
    using short_response_spoils_next_request [of short_remote "\<lambda>_. [''ping'']" Connection_new "CreateRequest Get []" "''ping''"
        "CreateRequest Get []" "[]"]
    by (auto simp: short_remote_def Connection_new_def unary_flatbuffers_def)
qed

end
