(* ===== verification/Shell.thy ===== *)
theory Shell
  imports End_To_End
begin

text \<open>
  The interactive shell, \<open>src/shell/client/client.cpp\<close>: splitting a line into a command, a key and
  a value, the commands on top of the client interface, and the loop that reads lines.  What is
  printed is a text; the lines of a file that is imported are a parameter.  An exception leaves the
  loop and is \<^term>\<open>None\<close>.
\<close>

section \<open>Parsing a line\<close>

definition isspace :: "char \<Rightarrow> bool" where
  "isspace c \<longleftrightarrow> (of_char c :: nat) \<in> {9, 10, 11, 12, 13, 32}"

text \<open>The two loops of \<open>trim\<close>; a line of spaces only is returned as it is.\<close>

function trim_left :: "string \<Rightarrow> nat \<Rightarrow> nat option" where
  "trim_left s left = (if left \<ge> length s then None else if isspace (s ! left) then trim_left s (Suc left) else Some left)"
  by pat_completeness auto
termination
  by (relation "measure (\<lambda>(s, left). length s - left)") auto

declare trim_left.simps [simp del]

fun trim_right :: "string \<Rightarrow> nat \<Rightarrow> nat \<Rightarrow> nat" where
  "trim_right s left 0 = 0"
| "trim_right s left (Suc right) = (if Suc right > left \<and> isspace (s ! Suc right) then trim_right s left right else Suc right)"

definition trim :: "string \<Rightarrow> string" where
  "trim s = (case trim_left s 0 of
     None \<Rightarrow> s
   | Some left \<Rightarrow> take (trim_right s left (length s - 1) - left + 1) (drop left s))"

definition shell_command :: "string \<Rightarrow> string \<times> nat" where
  "shell_command line = (let idx = sv_find line (CHR '' '') 0 in if idx = npos then (line, idx) else (take idx line, idx))"

text \<open>The positions wrap around: without a space in the line the search begins at \<open>npos + 1 = 0\<close>.\<close>

partial_function (option) key_loop :: "string \<Rightarrow> nat \<Rightarrow> (nat \<times> nat) option" where
  [code]: "key_loop line begin =
     (let idx = sv_find line (CHR '' '') (sz_add begin 1) in
      if idx \<noteq> npos then
        Option.bind (sv_substr line (sz_add begin 1) (sz_sub (sz_sub idx begin) 1))
          (\<lambda>between. if between = [] then key_loop line (sz_add begin 1) else Some (begin, idx))
      else Some (begin, idx))"

definition shell_key :: "string \<Rightarrow> nat \<Rightarrow> (string \<times> nat) option" where
  "shell_key line begin = do {
     (begin, idx) \<leftarrow> key_loop line begin;
     key \<leftarrow> sv_substr line (sz_add begin 1) (sz_sub (sz_sub idx begin) 1);
     Some (key, idx) }"

section \<open>The commands\<close>

definition nl :: string where
  "nl = [char_of (10 :: nat)]"

definition cannot_parse :: "string \<Rightarrow> string" where
  "cannot_parse line = ''Cannot parse key from '' @ line @ nl"

type_synonym 'w process = "'w Api \<Rightarrow> string \<Rightarrow> nat \<Rightarrow> 'w Client \<Rightarrow> (string \<times> 'w Client) option"

definition processList :: "'w process" where
  "processList A line idx c = do {
     (key, end') \<leftarrow> shell_key line idx;
     if end' \<le> idx then Some (cannot_parse line, c)
     else do {
       (response, c) \<leftarrow> api_list key A c;
       Some (case response of
           None \<Rightarrow> ''Error retrieving path '' @ key @ nl
         | Some vs \<Rightarrow> if vs = [] then ''Error retrieving path '' @ key @ nl else concat (map (\<lambda>v. v @ nl) vs), c) } }"

definition processGet :: "'w process" where
  "processGet A line idx c = do {
     (key, end') \<leftarrow> shell_key line idx;
     if end' \<le> idx then Some (cannot_parse line, c)
     else do {
       (response, c) \<leftarrow> api_get key A c;
       Some (case response of None \<Rightarrow> ''Error retrieving value for key '' @ key @ nl | Some v \<Rightarrow> v @ nl, c) } }"

text \<open>The rest of the line from the last of the spaces behind the key.\<close>

definition shell_value :: "string \<Rightarrow> nat \<Rightarrow> string option" where
  "shell_value line end' = do {
     (end', vidx) \<leftarrow> key_loop line end';
     sv_substr line (sz_add end' 1) npos }"

definition processSet :: "'w process" where
  "processSet A line idx c = do {
     (key, end') \<leftarrow> shell_key line idx;
     if end' = npos then Some (cannot_parse line, c)
     else do {
       val \<leftarrow> shell_value line end';
       (response, c) \<leftarrow> api_set_kv key val A c;
       Some (if \<not> response then ''Error setting key '' @ key @ nl else ''Set key '' @ key @ nl, c) } }"

definition processMove :: "'w process" where
  "processMove A line idx c = do {
     (key, end') \<leftarrow> shell_key line idx;
     if end' = npos then Some (cannot_parse line, c)
     else do {
       dest \<leftarrow> shell_value line end';
       (response, c) \<leftarrow> api_move_kv key dest A c;
       Some (if \<not> response then ''Error moving key '' @ key @ '' to '' @ dest @ nl
             else ''Moved key '' @ key @ '' to '' @ dest @ nl, c) } }"

definition processRemove :: "'w process" where
  "processRemove A line idx c = do {
     (key, end') \<leftarrow> shell_key line idx;
     if end' \<le> idx then Some (cannot_parse line, c)
     else do {
       (response, c) \<leftarrow> api_remove key A c;
       Some (if \<not> response then ''Error removing key '' @ key @ nl else ''Removed key '' @ key @ nl, c) } }"

definition imported_text :: "u32 \<Rightarrow> u32 \<Rightarrow> string \<Rightarrow> string" where
  "imported_text n t key = ''('' @ nat_to_string (unat n) @ ''/'' @ nat_to_string (unat t) @ '') keys from file '' @ key @ nl"

definition processImport :: "(string \<Rightarrow> string list option) \<Rightarrow> 'w process" where
  "processImport files A line idx c = do {
     (key, end') \<leftarrow> shell_key line idx;
     if end' \<le> idx then Some (''Cannot parse file to import from '' @ line @ nl, c)
     else do {
       ((response, n, t), c) \<leftarrow> api_import (files key) A c;
       Some ((if \<not> response then ''Error importing '' else ''Imported '') @ imported_text n t key, c) } }"

section \<open>The loop\<close>

definition esc :: "string \<Rightarrow> string" where
  "esc code = char_of (27 :: nat) # ''['' @ code @ ''m''"

definition bold :: "string \<Rightarrow> string" where
  "bold s = esc ''1'' @ s @ esc ''0''"

definition italic :: "string \<Rightarrow> string" where
  "italic s = esc ''3'' @ s @ esc ''0''"

definition shell_help :: string where
  "shell_help = bold ''Available commands'' @ nl
     @ ''  '' @ bold ''ls'' @ '' '' @ italic ''<path>'' @ '' - To list child node names.  Eg. [ls /]'' @ nl
     @ ''  '' @ bold ''get'' @ '' '' @ italic ''<key>'' @ '' - To get configured value for key.  Eg. [get /key1/key2/key3]'' @ nl
     @ ''  '' @ bold ''set'' @ '' '' @ italic ''<key> <value>''
         @ '' - To set value for key.  Eg. [set /key1/key2/key3 Some long value. Note no surrounding quotes]'' @ nl
     @ ''  '' @ bold ''mv'' @ '' '' @ italic ''<key> <destination>''
         @ '' - To move value for key to destination.  Eg. [mv /key1/key2/key3 /key/key2/key3]'' @ nl
     @ ''  '' @ bold ''rm'' @ '' '' @ italic ''<key>'' @ '' - To remove configured key.  Eg. [rm /key1/key2/key3]'' @ nl
     @ ''  '' @ bold ''import'' @ '' '' @ italic ''<path to file>'' @ '' - To bulk import '' @ italic ''key-values''
         @ '' from file.  Eg. [import /tmp/kvps.txt]'' @ nl"

definition banner :: string where
  "banner = ''Enter commands followed by <ENTER>'' @ nl @ ''Enter '' @ bold ''help'' @ '' for help about commands'' @ nl
     @ ''Enter '' @ bold ''exit'' @ '' or '' @ bold ''quit'' @ '' to exit shell'' @ nl"

definition dispatch :: "(string \<Rightarrow> string list option) \<Rightarrow> 'w Api \<Rightarrow> string \<Rightarrow> 'w Client \<Rightarrow> (string \<times> 'w Client) option" where
  "dispatch files A line c = (let (command, idx) = shell_command line in
     if command = ''ls'' then processList A line idx c
     else if command = ''get'' then processGet A line idx c
     else if command = ''set'' then processSet A line idx c
     else if command = ''mv'' then processMove A line idx c
     else if command = ''rm'' then processRemove A line idx c
     else if command = ''import'' then processImport files A line idx c
     else Some (''Unknown command '' @ command @ nl, c))"

record 'w Session =
  session_client :: "'w Client"
  previous :: string
  history :: "string list"
  printed :: string

text \<open>The lines that \<open>readline\<close> returns until the end of the input.\<close>

fun shell_loop :: "(string \<Rightarrow> string list option) \<Rightarrow> 'w Api \<Rightarrow> string list \<Rightarrow> 'w Session \<Rightarrow> 'w Session option" where
  "shell_loop files A [] s = Some s"
| "shell_loop files A (buf # bufs) s =
     (if buf = [] then shell_loop files A bufs s
      else
        let s = (if previous s \<noteq> buf then s\<lparr>history := history s @ [buf]\<rparr> else s); line = trim buf in
        if line = ''exit'' \<or> line = ''quit'' then Some (s\<lparr>printed := printed s @ ''Bye'' @ nl\<rparr>)
        else do {
          (text, c) \<leftarrow> (if line = ''help'' then Some (shell_help, session_client s)
                        else if line = [] then Some ([], session_client s)
                        else dispatch files A line (session_client s));
          shell_loop files A bufs (s\<lparr>session_client := c, printed := printed s @ text, previous := buf\<rparr>) })"

definition shell_run :: "(string \<Rightarrow> string list option) \<Rightarrow> 'w Api \<Rightarrow> string list \<Rightarrow> 'w Client \<Rightarrow> 'w Session option" where
  "shell_run files A bufs c =
     shell_loop files A bufs \<lparr>session_client = c, previous = [], history = [], printed = banner\<rparr>"

section \<open>Parsing gives the words\<close>

lemma trim_left_spec:
  "trim_left s i = (if i + length (takeWhile isspace (drop i s)) < length s
     then Some (i + length (takeWhile isspace (drop i s))) else None)"
proof (induction s i rule: trim_left.induct)
  case (1 s i)
  show ?case
  proof (cases "i < length s")
    case True
    then have d: "drop i s = s ! i # drop (Suc i) s" by (simp add: Cons_nth_drop_Suc)
    show ?thesis using 1 True by (subst trim_left.simps) (simp add: d)
  qed (simp add: trim_left.simps [of s i])
qed

lemma trim_right_spec:
  assumes "m \<noteq> []" "\<not> isspace (last m)" "\<forall>c \<in> set b. isspace c" "k \<le> length b" "left < length a + length m"
  shows "trim_right (a @ m @ b) left (length a + length m - 1 + k) = length a + length m - 1"
  using assms(4)
proof (induction k)
  case 0
  have "(a @ m @ b) ! (length a + length m - 1) = last m"
    using assms(1) by (cases m rule: rev_cases) (simp_all add: nth_append)
  then show ?case using assms(2) by (cases "length a + length m - 1") simp_all
next
  case (Suc k)
  have "(a @ m @ b) ! Suc (length a + length m - 1 + k) = b ! k"
    using assms(1) Suc.prems by (cases m) (simp_all add: nth_append)
  then have "isspace ((a @ m @ b) ! Suc (length a + length m - 1 + k))" using assms(3) Suc.prems by simp
  then show ?case using Suc assms(5) by simp
qed

lemma trim_words:
  assumes "m \<noteq> []" "\<not> isspace (hd m)" "\<not> isspace (last m)" "\<forall>c \<in> set a. isspace c" "\<forall>c \<in> set b. isspace c"
  shows "trim (a @ m @ b) = m"
proof -
  have "takeWhile isspace (a @ m @ b) = a" using assms(1,2,4) by (cases m) (simp_all add: takeWhile_append)
  then have l: "trim_left (a @ m @ b) 0 = Some (length a)" using assms(1) by (simp add: trim_left_spec)
  have "trim_right (a @ m @ b) (length a) (length a + length m - 1 + length b) = length a + length m - 1"
    using assms by (intro trim_right_spec) auto
  moreover have "length (a @ m @ b) - 1 = length a + length m - 1 + length b" using assms(1) by (cases m) auto
  ultimately show ?thesis using l assms(1) by (cases m) (auto simp: trim_def add.assoc)
qed

text \<open>A line of spaces only is not made empty.\<close>

lemma trim_blank: "\<forall>c \<in> set s. isspace c \<Longrightarrow> trim s = s"
  by (auto simp: trim_def trim_left_spec takeWhile_eq_all_conv [THEN iffD2])

lemma shell_command_spec:
  "CHR '' '' \<notin> set w \<Longrightarrow> length w < npos \<Longrightarrow> shell_command (w @ CHR '' '' # r) = (w, length w)"
  using sv_find_append [of "CHR '' ''" w "[]" r] by (simp add: shell_command_def Let_def)

lemma key_loop_spec:
  assumes "length (p @ replicate (Suc n) (CHR '' '') @ v) < npos" "v \<noteq> []" "hd v \<noteq> CHR '' ''"
  shows "key_loop (p @ replicate (Suc n) (CHR '' '') @ v) (length p) =
    Some (length p + n, sv_find (p @ replicate (Suc n) (CHR '' '') @ v) (CHR '' '') (length p + n + 1))"
  using assms(1)
proof (induction n arbitrary: p)
  case 0
  let ?s = "p @ replicate (Suc 0) (CHR '' '') @ v"
  have a: "sz_add (length p) 1 = length p + 1" using 0 by (intro sz_add_small) simp
  show ?case
  proof (cases "sv_find ?s (CHR '' '') (length p + 1) = npos")
    case True
    then show ?thesis by (subst key_loop.simps) (simp only: a Let_def, simp)
  next
    case False
    define i where "i = sv_find ?s (CHR '' '') (length p + 1)"
    obtain j where j: "index_of (CHR '' '') v = Some j" "i = length p + 1 + j"
      using False by (auto simp: i_def sv_find_def split: option.splits)
    have "j \<noteq> 0" using j(1) assms(2,3) by (cases v) (auto split: if_splits)
    moreover have "j < length v" by (rule index_of_Some_less [OF j(1)])
    moreover have "sz_sub (sz_sub i (length p)) 1 = j" using j(2) \<open>j < length v\<close> 0 by (simp add: sz_sub_small)
    ultimately have "sv_substr ?s (length p + 1) (sz_sub (sz_sub i (length p)) 1) = Some (take j v)" "take j v \<noteq> []"
      using assms(2) by (auto simp: sv_substr_def)
    moreover have "sv_find (p @ CHR '' '' # v) (CHR '' '') (Suc (length p)) = i" by (simp add: i_def)
    ultimately show ?thesis using False by (subst key_loop.simps) (simp only: a Let_def i_def [symmetric], simp)
  qed
next
  case (Suc n)
  let ?s = "p @ replicate (Suc (Suc n)) (CHR '' '') @ v"
  have eq: "?s = (p @ [CHR '' '']) @ replicate (Suc n) (CHR '' '') @ v" by simp
  have a: "sz_add (length p) 1 = length p + 1" using Suc.prems by (intro sz_add_small) simp
  have i: "sv_find ?s (CHR '' '') (length p + 1) = length p + 1" by (simp add: sv_find_def)
  have "sz_sub (sz_sub (length p + 1) (length p)) 1 = 0" using Suc.prems by (simp add: sz_sub_small)
  then have "sv_substr ?s (length p + 1) (sz_sub (sz_sub (length p + 1) (length p)) 1) = Some []" by (simp add: sv_substr_def)
  moreover have "length p + 1 \<noteq> npos" using Suc.prems by simp
  ultimately have "key_loop ?s (length p) = key_loop ?s (length p + 1)"
    by (subst key_loop.simps) (simp only: a Let_def i, simp)
  also have "\<dots> = key_loop ((p @ [CHR '' '']) @ replicate (Suc n) (CHR '' '') @ v) (length (p @ [CHR '' '']))" using eq by simp
  also have "\<dots> = Some (length p + 1 + n, sv_find ?s (CHR '' '') (length p + 1 + n + 1))"
    unfolding eq using Suc.IH [of "p @ [CHR '' '']"] Suc.prems by simp
  finally show ?case by simp
qed

lemma shell_value_spec:
  assumes "length (p @ replicate (Suc n) (CHR '' '') @ v) < npos" "v \<noteq> []" "hd v \<noteq> CHR '' ''"
  shows "shell_value (p @ replicate (Suc n) (CHR '' '') @ v) (length p) = Some v"
proof -
  have "sz_add (length p + n) 1 = length p + n + 1" using assms(1) by (intro sz_add_small) simp
  then show ?thesis using key_loop_spec [OF assms] assms(1) by (simp add: shell_value_def sv_substr_def)
qed

text \<open>The key, with and without a text behind it.\<close>

lemma shell_key_last:
  assumes "length (p @ replicate (Suc n) (CHR '' '') @ k) < npos" "k \<noteq> []" "CHR '' '' \<notin> set k"
  shows "shell_key (p @ replicate (Suc n) (CHR '' '') @ k) (length p) = Some (k, npos)"
proof -
  have "hd k \<noteq> CHR '' ''" using assms(2,3) by (cases k) auto
  note loop = key_loop_spec [OF assms(1,2) this]
  have "sv_find (p @ replicate (Suc n) (CHR '' '') @ k) (CHR '' '') (length p + n + 1) = npos"
    using assms(3) by (intro sv_find_notin) simp
  moreover have "sz_add (length p + n) 1 = length p + n + 1" using assms(1) by (intro sz_add_small) simp
  moreover have "sz_sub (sz_sub npos (length p + n)) 1 = npos - (length p + n) - 1"
    using assms(1) by (simp add: sz_sub_small)
  ultimately show ?thesis using loop assms(1) by (simp add: shell_key_def sv_substr_def)
qed

lemma shell_key_value:
  assumes "length (p @ replicate (Suc n) (CHR '' '') @ k @ CHR '' '' # r) < npos" "k \<noteq> []" "CHR '' '' \<notin> set k"
  shows "shell_key (p @ replicate (Suc n) (CHR '' '') @ k @ CHR '' '' # r) (length p) = Some (k, length p + Suc n + length k)"
proof -
  let ?s = "p @ replicate (Suc n) (CHR '' '') @ k @ CHR '' '' # r"
  have "hd (k @ CHR '' '' # r) \<noteq> CHR '' ''" using assms(2,3) by (cases k) auto
  note loop = key_loop_spec [of p n "k @ CHR '' '' # r", OF assms(1) _ this]
  have i: "sv_find ?s (CHR '' '') (length p + n + 1) = length p + n + 1 + length k"
    using sv_find_append [OF assms(3), of "p @ replicate (Suc n) (CHR '' '')" r] by simp
  have a: "sz_add (length p + n) 1 = length p + n + 1" using assms(1) by (intro sz_add_small) simp
  have b: "sz_sub (sz_sub (length p + n + 1 + length k) (length p + n)) 1 = length k" using assms(1) by (simp add: sz_sub_small)
  show ?thesis using loop i a b by (simp add: shell_key_def sv_substr_def)
qed

section \<open>Every line is parsed\<close>

lemma key_loop_total:
  assumes "length line < npos" "b < length line"
  shows "\<exists>b' idx. key_loop line b = Some (b', idx) \<and> b \<le> b' \<and> b' < length line \<and>
    idx = sv_find line (CHR '' '') (b' + 1) \<and> (idx \<noteq> npos \<longrightarrow> b' + 1 < idx \<and> idx < length line)"
  using assms(2)
proof (induction "length line - b" arbitrary: b rule: less_induct)
  case less
  define idx where "idx = sv_find line (CHR '' '') (b + 1)"
  have a: "sz_add b 1 = b + 1" using assms(1) less.prems by (intro sz_add_small) simp
  show ?case
  proof (cases "idx = npos")
    case True
    then have "key_loop line b = Some (b, idx)" by (subst key_loop.simps) (simp only: a Let_def idx_def [symmetric], simp)
    then show ?thesis using True less.prems idx_def by auto
  next
    case False
    have i: "b + 1 \<le> idx" "idx < length line" using sv_find_bounds [of line "CHR '' ''" "b + 1" idx] False idx_def by auto
    then have "sz_sub (sz_sub idx b) 1 = idx - b - 1" using assms(1) by (simp add: sz_sub_small)
    then have sub: "sv_substr line (b + 1) (sz_sub (sz_sub idx b) 1) = Some (take (idx - b - 1) (drop (b + 1) line))"
      using i by (simp add: sv_substr_def)
    have step: "key_loop line b = (if take (idx - b - 1) (drop (b + 1) line) = [] then key_loop line (b + 1) else Some (b, idx))"
      using False by (subst key_loop.simps) (simp only: a Let_def idx_def [symmetric] sub, simp)
    show ?thesis
    proof (cases "idx = b + 1")
      case True
      then have "key_loop line b = key_loop line (b + 1)" using step by simp
      moreover have "length line - (b + 1) < length line - b" "b + 1 < length line" using i True by auto
      ultimately show ?thesis using less.hyps [of "b + 1"] by auto
    next
      case False
      then have "key_loop line b = Some (b, idx)" using step i by auto
      then show ?thesis using i False less.prems idx_def by auto
    qed
  qed
qed

text \<open>
  Parsing a line of the shell always ends, whatever the line: no position of a substring is out
  of range, although positions wrap around; the key is refused by the commands that test its end
  exactly when the line has no space; and when something follows the key, it is read as a value.
\<close>

theorem shell_line_is_parsed:
  assumes "length line < npos"
  shows "\<exists>k e. shell_key line (snd (shell_command line)) = Some (k, e) \<and>
    (e \<le> snd (shell_command line) \<longleftrightarrow> CHR '' '' \<notin> set line) \<and> (e \<noteq> npos \<longrightarrow> (\<exists>v. shell_value line e = Some v))"
proof (cases "CHR '' '' \<in> set line")
  case False
  then have f: "sv_find line (CHR '' '') 0 = npos" by (intro sv_find_notin) simp
  then have "key_loop line npos = Some (npos, npos)" using sz_add_npos by (subst key_loop.simps) (simp add: Let_def)
  then have "shell_key line npos = Some (line, npos)"
    using assms sz_add_npos by (simp add: shell_key_def sv_substr_def sz_sub_def npos_def)
  then show ?thesis using False f by (simp add: shell_command_def Let_def)
next
  case True
  define b where "b = sv_find line (CHR '' '') 0"
  have "b \<noteq> npos" using True assms index_of_Some_less [of "CHR '' ''" line]
    by (auto simp: b_def sv_find_def split: option.splits dest: index_of_None [THEN iffD1])
  then have b: "b < length line" "snd (shell_command line) = b"
    using sv_find_bounds [of line "CHR '' ''" 0 b] by (auto simp: b_def shell_command_def Let_def)
  from key_loop_total [OF assms b(1)] obtain b' idx where l: "key_loop line b = Some (b', idx)" "b \<le> b'" "b' < length line"
    "idx \<noteq> npos \<longrightarrow> b' + 1 < idx \<and> idx < length line" by blast
  have "sz_add b' 1 = b' + 1" using assms l(3) by (intro sz_add_small) simp
  then have k: "shell_key line b = Some (take (sz_sub (sz_sub idx b') 1) (drop (b' + 1) line), idx)"
    using l(1,3) by (simp add: shell_key_def sv_substr_def)
  have gt: "\<not> idx \<le> b" using l b(1) assms by (cases "idx = npos") auto
  have v: "\<exists>v. shell_value line idx = Some v" if n: "idx \<noteq> npos"
  proof -
    have "idx < length line" using l(4) n by simp
    from key_loop_total [OF assms this] obtain e i where e: "key_loop line idx = Some (e, i)" "e < length line" by blast
    have "sz_add e 1 = e + 1" using assms e(2) by (intro sz_add_small) simp
    then show ?thesis using e by (simp add: shell_value_def sv_substr_def)
  qed
  show ?thesis using k gt v True b(2) by simp
qed

theorem shell_line_is_parsed_witness:
  "\<exists>k e. shell_key ''set  a b  c'' (snd (shell_command ''set  a b  c'')) = Some (k, e) \<and>
     (e \<le> snd (shell_command ''set  a b  c'') \<longleftrightarrow> CHR '' '' \<notin> set ''set  a b  c'')"
  using shell_line_is_parsed [of "''set  a b  c''"] by (auto simp: npos_def)

section \<open>A session\<close>

text \<open>
  An operation as it is typed, with any number of spaces between the words and any white space
  around them, and what is printed.
\<close>

fun typed_line :: "nat \<Rightarrow> nat \<Rightarrow> operation \<Rightarrow> string" where
  "typed_line m n (OpGet k) = ''get'' @ replicate (Suc m) (CHR '' '') @ k"
| "typed_line m n (OpSet data) =
     ''set'' @ replicate (Suc m) (CHR '' '') @ rd_key data @ replicate (Suc n) (CHR '' '') @ rd_value data"
| "typed_line m n (OpRemove k) = ''rm'' @ replicate (Suc m) (CHR '' '') @ k"
| "typed_line m n (OpMove data) =
     ''mv'' @ replicate (Suc m) (CHR '' '') @ rd_key data @ replicate (Suc n) (CHR '' '') @ rd_value data"

definition word_ok :: "string \<Rightarrow> bool" where
  "word_ok w \<longleftrightarrow> w \<noteq> [] \<and> (\<forall>c \<in> set w. \<not> isspace c)"

definition text_ok :: "string \<Rightarrow> bool" where
  "text_ok v \<longleftrightarrow> v \<noteq> [] \<and> \<not> isspace (hd v) \<and> \<not> isspace (last v)"

fun typed_ok :: "operation \<Rightarrow> bool" where
  "typed_ok (OpGet k) = word_ok k"
| "typed_ok (OpSet data) = (data = RequestData_kv (rd_key data) (rd_value data) \<and> word_ok (rd_key data) \<and> text_ok (rd_value data))"
| "typed_ok (OpRemove k) = word_ok k"
| "typed_ok (OpMove data) = (data = RequestData_kv (rd_key data) (rd_value data) \<and> word_ok (rd_key data) \<and> text_ok (rd_value data))"

fun op_text :: "operation \<Rightarrow> kv_map \<Rightarrow> string" where
  "op_text (OpGet k) m = (case m (getKey k) of None \<Rightarrow> ''Error retrieving value for key '' @ k @ nl | Some v \<Rightarrow> v @ nl)"
| "op_text (OpSet data) m = (if set_item data m = None then ''Error setting key '' else ''Set key '') @ rd_key data @ nl"
| "op_text (OpRemove k) m = (if remove_item k m = None then ''Error removing key '' else ''Removed key '') @ k @ nl"
| "op_text (OpMove data) m = (if move_item data m = None then ''Error moving key '' else ''Moved key '') @ rd_key data @ '' to ''
     @ rd_value data @ nl"

fun op_texts :: "operation list \<Rightarrow> kv_map \<Rightarrow> string" where
  "op_texts [] m = []"
| "op_texts (p # ps) m = op_text p m @ op_texts ps (op_next p m)"

type_synonym keystrokes = "string \<times> nat \<times> nat \<times> string \<times> operation"

fun typed_text :: "keystrokes \<Rightarrow> string" where
  "typed_text (a, m, n, b, p) = a @ typed_line m n p @ b"

fun typed_op :: "keystrokes \<Rightarrow> operation" where
  "typed_op (a, m, n, b, p) = p"

fun keystrokes_ok :: "keystrokes \<Rightarrow> bool" where
  "keystrokes_ok (a, m, n, b, p) \<longleftrightarrow> typed_ok p \<and> (\<forall>c \<in> set a. isspace c) \<and> (\<forall>c \<in> set b. isspace c) \<and> length (typed_line m n p) < npos"

lemma isspace_space [simp]: "isspace (CHR '' '')"
  by (simp add: isspace_def)

lemma word_no_space: "word_ok w \<Longrightarrow> CHR '' '' \<notin> set w" "word_ok w \<Longrightarrow> w \<noteq> []"
  by (auto simp: word_ok_def)

lemma typed_line_trims:
  assumes "typed_ok p"
  shows "typed_line m n p \<noteq> []" "\<not> isspace (hd (typed_line m n p))" "\<not> isspace (last (typed_line m n p))"
  using assms by (cases p; force simp: word_ok_def text_ok_def isspace_def)+

lemma trim_typed: "keystrokes_ok (a, m, n, b, p) \<Longrightarrow> trim (typed_text (a, m, n, b, p)) = typed_line m n p"
  using typed_line_trims [of p m n] by (simp add: trim_words)

fun reply_text :: "operation \<Rightarrow> reply \<Rightarrow> string" where
  "reply_text (OpGet k) (Found r) = (case r of None \<Rightarrow> ''Error retrieving value for key '' @ k @ nl | Some v \<Rightarrow> v @ nl)"
| "reply_text (OpSet data) (Done b) = (if b then ''Set key '' else ''Error setting key '') @ rd_key data @ nl"
| "reply_text (OpRemove k) (Done b) = (if b then ''Removed key '' else ''Error removing key '') @ k @ nl"
| "reply_text (OpMove data) (Done b) =
     (if b then ''Moved key '' else ''Error moving key '') @ rd_key data @ '' to '' @ rd_value data @ nl"
| "reply_text _ _ = []"

lemma reply_text_op: "reply_text p (op_reply p m) = op_text p m"
  by (cases p) auto

lemma key_and_value:
  assumes "length (w @ replicate (Suc m) (CHR '' '') @ k @ replicate (Suc n) (CHR '' '') @ v) < npos" "word_ok k" "text_ok v"
  shows "shell_key (w @ replicate (Suc m) (CHR '' '') @ k @ replicate (Suc n) (CHR '' '') @ v) (length w) =
      Some (k, length w + Suc m + length k)"
    "shell_value (w @ replicate (Suc m) (CHR '' '') @ k @ replicate (Suc n) (CHR '' '') @ v) (length w + Suc m + length k) = Some v"
proof -
  have v: "v \<noteq> []" "hd v \<noteq> CHR '' ''" using assms(3) by (auto simp: text_ok_def)
  show "shell_key (w @ replicate (Suc m) (CHR '' '') @ k @ replicate (Suc n) (CHR '' '') @ v) (length w) =
      Some (k, length w + Suc m + length k)"
    using shell_key_value [of w m k "replicate n (CHR '' '') @ v"] assms(1) word_no_space [OF assms(2)] by simp
  have "shell_value ((w @ replicate (Suc m) (CHR '' '') @ k) @ replicate (Suc n) (CHR '' '') @ v)
      (length (w @ replicate (Suc m) (CHR '' '') @ k)) = Some v"
    using assms(1) v by (intro shell_value_spec) simp_all
  then show "shell_value (w @ replicate (Suc m) (CHR '' '') @ k @ replicate (Suc n) (CHR '' '') @ v) (length w + Suc m + length k) = Some v"
    by (simp only: append_assoc length_append length_replicate add.assoc)
qed

lemma command_of:
  "CHR '' '' \<notin> set w \<Longrightarrow> length w < npos \<Longrightarrow> shell_command (w @ replicate (Suc m) (CHR '' '') @ r) = (w, length w)"
  using shell_command_spec [of w "replicate m (CHR '' '') @ r"] by simp

lemma npos_large: "n < 100 \<Longrightarrow> n < npos" "n < 100 \<Longrightarrow> \<not> npos \<le> n"
  by (simp_all add: npos_def)

lemma dispatch_typed:
  assumes "typed_ok p" "length (typed_line m n p) < npos" "run_operation p A c = Some (r, c')"
  shows "dispatch files A (typed_line m n p) c = Some (reply_text p r, c')"
proof (cases p)
  case (OpGet k)
  have "shell_command (typed_line m n p) = (''get'', 3)"
    using command_of [of "''get''" m k] OpGet by (simp add: npos_def)
  moreover have "shell_key (typed_line m n p) 3 = Some (k, npos)"
    using shell_key_last [of "''get''" m k] assms(1,2) OpGet word_no_space [of k] by (simp add: numeral_3_eq_3)
  ultimately show ?thesis using assms(3) OpGet npos_large(2) [of 3]
    by (auto simp: dispatch_def processGet_def run_operation_def simp del: typed_line.simps)
next
  case (OpRemove k)
  have "shell_command (typed_line m n p) = (''rm'', 2)"
    using command_of [of "''rm''" m k] OpRemove by (simp add: npos_def)
  moreover have "shell_key (typed_line m n p) 2 = Some (k, npos)"
    using shell_key_last [of "''rm''" m k] assms(1,2) OpRemove word_no_space [of k] by (simp add: numeral_2_eq_2)
  ultimately show ?thesis using assms(3) OpRemove npos_large(2) [of 2]
    by (auto simp: dispatch_def processRemove_def run_operation_def simp del: typed_line.simps)
next
  case (OpSet data)
  let ?e = "3 + Suc m + length (rd_key data)"
  have "shell_command (typed_line m n p) = (''set'', 3)"
    using command_of [of "''set''" m] OpSet by (simp add: npos_def)
  moreover have "shell_key (typed_line m n p) 3 = Some (rd_key data, ?e)" "shell_value (typed_line m n p) ?e = Some (rd_value data)"
    using key_and_value [of "''set''" m "rd_key data" n "rd_value data"] assms(1,2) OpSet by (simp_all add: numeral_3_eq_3)
  moreover have "?e \<noteq> npos" using assms(2) OpSet by simp
  moreover have "api_set_kv (rd_key data) (rd_value data) A c = api_set data A c" using assms(1) OpSet by (simp add: api_set_kv_def)
  ultimately show ?thesis using assms(3) OpSet
    by (auto simp: dispatch_def processSet_def run_operation_def simp del: typed_line.simps)
next
  case (OpMove data)
  let ?e = "2 + Suc m + length (rd_key data)"
  have "shell_command (typed_line m n p) = (''mv'', 2)"
    using command_of [of "''mv''" m] OpMove by (simp add: npos_def)
  moreover have "shell_key (typed_line m n p) 2 = Some (rd_key data, ?e)" "shell_value (typed_line m n p) ?e = Some (rd_value data)"
    using key_and_value [of "''mv''" m "rd_key data" n "rd_value data"] assms(1,2) OpMove by (simp_all add: numeral_2_eq_2)
  moreover have "?e \<noteq> npos" using assms(2) OpMove by simp
  moreover have "api_move_kv (rd_key data) (rd_value data) A c = api_move data A c" using assms(1) OpMove by (simp add: api_move_kv_def)
  ultimately show ?thesis using assms(3) OpMove
    by (auto simp: dispatch_def processMove_def run_operation_def simp del: typed_line.simps)
qed

lemma typed_line_command: "typed_line m n p \<notin> {[], ''exit'', ''quit'', ''help''}"
  by (cases p) auto

context server
begin

lemma shell_loop_ok:
  assumes "client_inv a (session_client s)" and clk: "clock_ok" and chop: "chop_ok chop"
    and "ops_fit (fbs X) (map typed_op ks) (vals a)" and "\<forall>k \<in> set ks. keystrokes_ok k"
  shows "\<exists>s'. shell_loop files (tcp_api X chop) (map typed_text ks) s = Some s' \<and>
    printed s' = printed s @ op_texts (map typed_op ks) (vals a)"
  using assms(1,4,5)
proof (induction ks arbitrary: a s)
  case (Cons k ks)
  obtain u m n v p where k: "k = (u, m, n, v, p)" by (cases k)
  have ok: "keystrokes_ok (u, m, n, v, p)" "typed_ok p" "length (typed_line m n p) < npos" using Cons.prems(3) k by auto
  from run_operation_ok [OF Cons.prems(1) clk chop, of p] Cons.prems(2) k obtain c b where
    one: "run_operation p (tcp_api X chop) (session_client s) = Some (op_reply p (vals a), c)" "client_inv b c" "vals b = op_next p (vals a)"
    by auto
  have d: "dispatch files (tcp_api X chop) (typed_line m n p) (session_client s) = Some (op_text p (vals a), c)"
    using dispatch_typed [OF ok(2,3) one(1)] by (simp add: reply_text_op)
  let ?buf = "typed_text (u, m, n, v, p)"
  let ?s = "(if previous s \<noteq> ?buf then s\<lparr>history := history s @ [?buf]\<rparr> else s)
    \<lparr>session_client := c, printed := printed s @ op_text p (vals a), previous := ?buf\<rparr>"
  have ne: "?buf \<noteq> []" using typed_line_trims(1) [OF ok(2)] by simp
  have "shell_loop files (tcp_api X chop) (?buf # map typed_text ks) s = shell_loop files (tcp_api X chop) (map typed_text ks) ?s"
    using ne d typed_line_command [of m n p] by (simp add: trim_typed [OF ok(1)] Let_def del: typed_text.simps typed_line.simps)
  moreover have "client_inv b (session_client ?s)" using one(2) by simp
  moreover have "ops_fit (fbs X) (map typed_op ks) (vals b)" using Cons.prems(2) k one(3) by simp
  ultimately show ?case using Cons.IH [of b ?s] Cons.prems(3) k one(3) by (auto simp del: typed_text.simps)
qed simp

end

text \<open>
  C7: a session of the shell over TCP shows a map.  Any sequence of \<open>get\<close>, \<open>set\<close>, \<open>rm\<close> and \<open>mv\<close> typed
  with any number of spaces between the words and white space around them, of values with spaces in
  them too, prints for every line what a map from normalised keys to values answers.
\<close>

theorem shell_session_shows_map:
  assumes "server X base pending ciph enc_ready enc_used dec_ready dec_used bag"
    and "server.client_inv X base ciph enc_ready enc_used dec_ready dec_used a c"
    and "database.clock_ok (ext X)" and "chop_ok chop" and "ops_fit (fbs X) (map typed_op ks) (vals a)"
    and "\<forall>k \<in> set ks. keystrokes_ok k"
  shows "map_option printed (shell_run files (tcp_api X chop) (map typed_text ks) c) =
    Some (banner @ op_texts (map typed_op ks) (vals a))"
proof -
  have "server.client_inv X base ciph enc_ready enc_used dec_ready dec_used a
      (session_client \<lparr>session_client = c, previous = [], history = [], printed = banner\<rparr>)" using assms(2) by simp
  from server.shell_loop_ok [OF assms(1) this assms(3-6)] show ?thesis by (auto simp: shell_run_def)
qed

definition sample_keystrokes :: "keystrokes list" where
  "sample_keystrokes = [(''  '', 1, 0, '' '', OpSet (RequestData_kv ''a'' ''x y'')), ([], 0, 2, [], OpMove (RequestData_kv ''/a'' ''b'')),
     ([], 0, 0, [], OpGet ''a''), ([], 0, 0, '' '', OpGet ''/b'')]"

theorem shell_session_shows_map_witness:
  "map_option printed (shell_run (\<lambda>_. None) (tcp_api (sample_env True) whole) (map typed_text sample_keystrokes) sample_client) =
   Some (banner @ ''Set key a'' @ nl @ ''Moved key /a to b'' @ nl @ ''Error retrieving value for key a'' @ nl @ ''x y'' @ nl)"
proof -
  have inv: "node.client_inv True empty_store sample_client"
    unfolding node.client_inv_def
    by (simp add: sample_client_def node_inv [of True] Pool_new_def PoolConfiguration_default_def pool_holds_def
        pool_in_use_def pool_limit_def fresh_def ConnectionWrapper_new_def)
  have chop: "chop_ok whole" by (auto simp: chop_ok_def whole_def)
  have fit: "ops_fit (fbs (sample_env True)) (map typed_op sample_keystrokes) (vals empty_store)"
    unfolding sample_env_simps by code_simp
  have ok: "\<forall>k \<in> set sample_keystrokes. keystrokes_ok k"
    by (simp add: sample_keystrokes_def RequestData_kv_def word_ok_def text_ok_def isspace_def npos_def)
  have "op_texts (map typed_op sample_keystrokes) (vals empty_store) =
      ''Set key a'' @ nl @ ''Moved key /a to b'' @ nl @ ''Error retrieving value for key a'' @ nl @ ''x y'' @ nl"
    by code_simp
  with shell_session_shows_map [OF node.server_axioms inv node_clock_ok chop fit ok] show ?thesis by simp
qed

end
