(* ===== verification/Command_Line.thy ===== *)
theory Command_Line
  imports Shell
begin

text \<open>
  The command line client, \<open>src/cli/client/client.cpp\<close> and \<open>src/cli/main.cpp\<close>: one operation on a
  connection of its own, the text that is printed and the exit status; and the program that seeds a
  database from a file, \<open>src/seed/main.cpp\<close>.  The arguments are those that the command line parser
  has read; \<open>Program_Options\<close> has the options and the programs as they are called.  The exceptions of an operation are caught and leave the status as it was.
\<close>

section \<open>The operations of the command line client\<close>

definition cli_get_result :: "string \<Rightarrow> ResultVariant option \<Rightarrow> nat \<times> string" where
  "cli_get_result key response = (let err = ''Error retrieving key '' @ key @ nl in
     case response of
       None \<Rightarrow> (1, err)
     | Some (KeyValueResults rs) \<Rightarrow>
         if length rs \<noteq> 1 then (3, err)
         else (case kvr_value (rs ! 0) of Value v \<Rightarrow> (0, v @ nl) | _ \<Rightarrow> (4, err))
     | Some _ \<Rightarrow> (2, err))"

definition cli_list_result :: "string \<Rightarrow> ResultVariant option \<Rightarrow> nat \<times> string" where
  "cli_list_result path response = (let err = ''Error listing path '' @ path @ nl in
     case response of
       None \<Rightarrow> (1, err)
     | Some (KeyValueResults rs) \<Rightarrow>
         if length rs \<noteq> 1 then (3, err)
         else (case kvr_value (rs ! 0) of
                 Children cs \<Rightarrow> if length cs = 0 then (5, err) else (0, concat (map (\<lambda>v. v @ nl) cs))
               | _ \<Rightarrow> (4, err))
     | Some _ \<Rightarrow> (2, ''Error retrieving path '' @ path @ nl))"

text \<open>\<open>set\<close>, \<open>move\<close>, \<open>remove\<close> and \<open>import\<close> test the response alike.\<close>

definition cli_success_result :: "string \<Rightarrow> string \<Rightarrow> ResultVariant option \<Rightarrow> nat \<times> string" where
  "cli_success_result good err response =
     (case response of
        None \<Rightarrow> (1, err)
      | Some (SuccessResult b) \<Rightarrow> if b then (0, good) else (3, err)
      | Some _ \<Rightarrow> (2, err))"

type_synonym 'w cli = "'w Remote \<Rightarrow> BaseConnection \<Rightarrow> 'w \<Rightarrow> ((nat \<times> string) \<times> 'w) option"

definition cli_get :: "string \<Rightarrow> 'w cli" where
  "cli_get key R c w = do { (r, c, w) \<leftarrow> conn_get key R c w; Some (cli_get_result key r, w) }"

definition cli_list :: "string \<Rightarrow> 'w cli" where
  "cli_list path R c w = do { (r, c, w) \<leftarrow> conn_list path R c w; Some (cli_list_result path r, w) }"

definition cli_set :: "string \<Rightarrow> string \<Rightarrow> 'w cli" where
  "cli_set key val R c w = do {
     (r, c, w) \<leftarrow> conn_set (RequestData_kv key val) R c w;
     Some (cli_success_result (''Set value for key '' @ key @ nl) (''Error setting key '' @ key @ nl) r, w) }"

definition cli_move :: "string \<Rightarrow> string \<Rightarrow> 'w cli" where
  "cli_move key dest R c w = do {
     (r, c, w) \<leftarrow> conn_move (RequestData_kv key dest) R c w;
     Some (cli_success_result (''Moved key '' @ key @ '' to '' @ dest @ nl) (''Error moving key '' @ key @ '' to '' @ dest @ nl) r, w) }"

definition cli_remove :: "string \<Rightarrow> 'w cli" where
  "cli_remove key R c w = do {
     (r, c, w) \<leftarrow> conn_remove key R c w;
     Some (cli_success_result (''Removed key '' @ key @ nl) (''Error removing key '' @ key @ nl) r, w) }"

definition cli_import :: "(string \<Rightarrow> string list option) \<Rightarrow> string \<Rightarrow> 'w cli" where
  "cli_import files file R c w = do {
     ((r, n, t), c, w) \<leftarrow> conn_import (files file) R c w;
     Some (cli_success_result (''Imported '' @ imported_text n t file) (''Error importing '' @ imported_text n t file) r, w) }"

section \<open>\<open>main\<close> of the command line client\<close>

record CliArgs =
  arg_action :: string
  arg_key :: string
  arg_value :: string
  arg_file :: string

text \<open>The text that explains the options is a parameter, and so is opening a connection.\<close>

definition cli_request :: "(string \<Rightarrow> string list option) \<Rightarrow> string \<Rightarrow> CliArgs \<Rightarrow> (nat \<times> string) + 'w cli" where
  "cli_request files usage a =
     (if arg_file a \<noteq> [] then Inr (cli_import files (arg_file a))
      else if arg_action a = [] then Inl (1, ''Action not specified'' @ nl @ usage)
      else if arg_action a \<notin> {''delete'', ''get'', ''list'', ''move'', ''set''}
      then Inl (1, ''Unsupported action'' @ nl @ ''Valid values get|set|move|list|delete'' @ nl)
      else if arg_key a = [] then Inl (1, ''Key not specified'' @ nl @ usage)
      else if arg_action a = ''set'' \<and> arg_value a = [] then Inl (1, ''Value not specified'' @ nl @ usage)
      else if arg_action a = ''move'' \<and> arg_value a = [] then Inl (1, ''Destination key not specified'' @ nl @ usage)
      else if arg_action a = ''get'' then Inr (cli_get (arg_key a))
      else if arg_action a = ''list'' then Inr (cli_list (arg_key a))
      else if arg_action a = ''set'' then Inr (cli_set (arg_key a) (arg_value a))
      else if arg_action a = ''move'' then Inr (cli_move (arg_key a) (arg_value a))
      else Inr (cli_remove (arg_key a)))"

definition cli_main ::
  "(string \<Rightarrow> string list option) \<Rightarrow> string \<Rightarrow> ('w \<Rightarrow> (BaseConnection \<times> 'w) option) \<Rightarrow> 'w Remote \<Rightarrow> CliArgs \<Rightarrow> 'w \<Rightarrow>
   (nat \<times> string) \<times> 'w" where
  "cli_main files usage connect R a w =
     (case cli_request files usage a of
        Inl r \<Rightarrow> (r, w)
      | Inr f \<Rightarrow>
          (case Option.bind (connect w) (\<lambda>(c, w). f R c w) of
             None \<Rightarrow> ((0, []), w)
           | Some x \<Rightarrow> x))"

section \<open>Seeding a database\<close>

text \<open>
  The exit status and what is printed, once there is a file to import; the loop reads the lines as
  \<open>import\<close> of the client does.
\<close>

definition seed_main ::
  "(string \<Rightarrow> string list option) \<Rightarrow> ('s, 't, 'x) Ext \<Rightarrow> string \<Rightarrow> ('s, 't, 'x) Database \<Rightarrow> (nat \<times> string) \<times> ('s, 't, 'x) Database" where
  "seed_main files E file d =
     (case files file of
        None \<Rightarrow> ((3, ''Error opening file '' @ file @ nl), d)
      | Some lines \<Rightarrow>
          (case (do {
              (kvs, n, total) \<leftarrow> import_lines lines 0 0 [];
              (saved, d) \<leftarrow> Database_set_batch E kvs d;
              Some (if saved
                    then (0, ''Seeded '' @ nat_to_string (length kvs) @ ''/'' @ nat_to_string (unat total) @ '' records.'' @ nl)
                    else (4, ''Error seeding database.'' @ nl), d) }) of
             None \<Rightarrow> ((0, []), d)
           | Some x \<Rightarrow> x))"

section \<open>The status tells the outcome\<close>

text \<open>The arguments of an operation, and the status and text that a map gives.\<close>

fun cli_args :: "operation \<Rightarrow> CliArgs" where
  "cli_args (OpGet k) = \<lparr>arg_action = ''get'', arg_key = k, arg_value = [], arg_file = []\<rparr>"
| "cli_args (OpSet data) = \<lparr>arg_action = ''set'', arg_key = rd_key data, arg_value = rd_value data, arg_file = []\<rparr>"
| "cli_args (OpRemove k) = \<lparr>arg_action = ''delete'', arg_key = k, arg_value = [], arg_file = []\<rparr>"
| "cli_args (OpMove data) = \<lparr>arg_action = ''move'', arg_key = rd_key data, arg_value = rd_value data, arg_file = []\<rparr>"

fun cli_args_ok :: "operation \<Rightarrow> bool" where
  "cli_args_ok (OpGet k) = (k \<noteq> [])"
| "cli_args_ok (OpSet data) = (data = RequestData_kv (rd_key data) (rd_value data) \<and> rd_key data \<noteq> [] \<and> rd_value data \<noteq> [])"
| "cli_args_ok (OpRemove k) = (k \<noteq> [])"
| "cli_args_ok (OpMove data) = (data = RequestData_kv (rd_key data) (rd_value data) \<and> rd_key data \<noteq> [] \<and> rd_value data \<noteq> [])"

fun cli_spec :: "operation \<Rightarrow> kv_map \<Rightarrow> nat \<times> string" where
  "cli_spec (OpGet k) m =
     (case m (getKey k) of None \<Rightarrow> (4, ''Error retrieving key '' @ k @ nl) | Some v \<Rightarrow> (0, v @ nl))"
| "cli_spec (OpSet data) m =
     (if set_item data m = None then (3, ''Error setting key '' @ rd_key data @ nl) else (0, ''Set value for key '' @ rd_key data @ nl))"
| "cli_spec (OpRemove k) m =
     (if remove_item k m = None then (3, ''Error removing key '' @ k @ nl) else (0, ''Removed key '' @ k @ nl))"
| "cli_spec (OpMove data) m =
     (if move_item data m = None then (3, ''Error moving key '' @ rd_key data @ '' to '' @ rd_value data @ nl)
      else (0, ''Moved key '' @ rd_key data @ '' to '' @ rd_value data @ nl))"

text \<open>What the operation does with the response to its request.\<close>

lemma cli_main_response:
  assumes "cli_args_ok p" "connect w = Some (c, w1)" "writeImpl R (op_request p) c w1 = Some (Some (op_response p m), c', w2)"
  shows "cli_main files usage connect R (cli_args p) w = (cli_spec p m, w2)"
proof (cases p)
  case (OpGet k)
  with assms show ?thesis
    by (auto simp: cli_main_def cli_request_def cli_get_def conn_get_def cli_get_result_def answer_of_def CreateKeyValueResult_def
        Let_def split: option.splits)
next
  case (OpSet data)
  have "rd_key data \<noteq> []" "rd_value data \<noteq> []" "RequestData_kv (rd_key data) (rd_value data) = data"
    using assms(1) OpSet by auto
  moreover have "conn_set data R c w1 = Some (Some (op_response p m), c', w2)" using assms(3) OpSet by (simp add: conn_set_def)
  ultimately show ?thesis using assms(2) OpSet
    by (auto simp: cli_main_def cli_request_def cli_set_def cli_success_result_def)
next
  case (OpRemove k)
  with assms show ?thesis
    by (auto simp: cli_main_def cli_request_def cli_remove_def conn_remove_def cli_success_result_def)
next
  case (OpMove data)
  have "rd_key data \<noteq> []" "rd_value data \<noteq> []" "RequestData_kv (rd_key data) (rd_value data) = data"
    using assms(1) OpMove by auto
  moreover have "conn_move data R c w1 = Some (Some (op_response p m), c', w2)" using assms(3) OpMove by (simp add: conn_move_def)
  ultimately show ?thesis using assms(2) OpMove
    by (auto simp: cli_main_def cli_request_def cli_move_def cli_success_result_def)
qed

context server
begin

lemma cli_main_ok:
  assumes inv: "srv_inv a srv" and clk: "clock_ok" and chop: "chop_ok chop" and small: "op_small p"
    and fits: "request_fits (fbs X) (op_request p)" "response_fits (fbs X) (op_response p (vals a))" and args: "cli_args_ok p"
  shows "\<exists>srv' b. cli_main files usage (\<lambda>w. Some (Connection_new, w)) (tcp_remote X chop) (cli_args p) srv =
      (cli_spec p (vals a), srv') \<and> srv_inv b srv' \<and> vals b = op_next p (vals a)"
proof -
  from process_operation [OF inv clk small, of "FinishRequest (fbs X) (op_request p)"] obtain srv' b where
    run: "\<And>sock. tcp_process (FinishRequest (fbs X) (op_request p)) X (op_request p) sock srv =
      Some (write_response X (op_response p (vals a)) sock, srv')" and
    b: "srv_inv b srv'" "vals b = op_next p (vals a)" by blast
  from cli_main_response [OF args _ writeImpl_ok [OF chop fits run]] b show ?thesis by fastforce
qed

end

lemma kv_not_exclusive: "data = RequestData_kv k v \<Longrightarrow> \<not> ifNotExists (rd_options data)"
  by (simp add: RequestData_kv_def Options_default_def)

text \<open>Seeding stores the pairs of the file, later ones over earlier ones.\<close>

lemma map_all_set: "\<forall>data \<in> set kvs. data = RequestData_kv (rd_key data) (rd_value data) \<Longrightarrow>
  map_all set_item kvs m = Some (fold (\<lambda>data m. m(getKey (rd_key data) \<mapsto> rd_value data)) kvs m)"
proof (induction kvs arbitrary: m)
  case (Cons data kvs)
  have "\<not> ifNotExists (rd_options data)" using Cons.prems by (intro kv_not_exclusive) auto
  then have "set_item data m = Some (m(getKey (rd_key data) \<mapsto> rd_value data))" for m by (simp add: set_item_def Let_def)
  with Cons.IH Cons.prems show ?case by simp
qed simp

lemma line_item_kv: "line_item line = Some data \<Longrightarrow> data = RequestData_kv (rd_key data) (rd_value data)"
  by (auto simp: line_item_def RequestData_kv_def split: if_splits)

lemma items_of_lines:
  assumes "data \<in> set (List.map_filter line_item lines)"
  obtains line where "line \<in> set lines" "line_item line = Some data"
  using assms by (auto simp: List.map_filter_def)

definition seeded :: "RequestData list \<Rightarrow> kv_map \<Rightarrow> kv_map" where
  "seeded kvs m = fold (\<lambda>data m. m(getKey (rd_key data) \<mapsto> rd_value data)) kvs m"

context server
begin

lemma seed_main_ok:
  assumes inv: "db_inv a d" and clk: "clock_ok" and fl: "files file = Some lines"
    and len: "\<forall>line \<in> set lines. length line + 16 < 2 ^ 31"
  defines "kvs \<equiv> List.map_filter line_item lines"
  shows "\<exists>d' b. seed_main files (ext X) file d =
      ((0, ''Seeded '' @ nat_to_string (length kvs) @ ''/'' @ nat_to_string (unat (of_nat (length lines) :: u32)) @ '' records.'' @ nl), d') \<and>
    db_inv b d' \<and> vals b = seeded kvs (vals a)"
proof -
  have "length line < npos" if "line \<in> set lines" for line using len that by (fastforce simp: npos_def)
  then have imp: "import_lines lines 0 0 [] = Some (kvs, of_nat (length kvs), of_nat (length lines))"
    using import_lines_spec [of lines 0 0 "[]"] by (simp add: kvs_def)
  have kv: "\<forall>data \<in> set kvs. data = RequestData_kv (rd_key data) (rd_value data)"
    using line_item_kv by (metis items_of_lines kvs_def)
  have "length (rd_value data) + 16 < 2 ^ 31" if "data \<in> set kvs" for data
  proof -
    from that obtain line where l: "line \<in> set lines" "line_item line = Some data" unfolding kvs_def by (rule items_of_lines)
    then have "length (rd_value data) \<le> length line"
      using length_dropWhile_le [of "\<lambda>c. c = CHR '' ''" "dropWhile (\<lambda>c. c \<noteq> CHR '' '') line"]
        length_dropWhile_le [of "\<lambda>c. c \<noteq> CHR '' ''" line]
      by (auto simp: line_item_def RequestData_kv_def split: if_splits)
    then show ?thesis using len l(1) by fastforce
  qed
  with put_outcome [OF inv clk, of kvs] map_all_set [OF kv, of "vals a"] obtain d' b where
    "Database_set_batch (ext X) kvs d = Some (True, d')" "db_inv b d'" "vals b = seeded kvs (vals a)"
    by (auto simp: batch_outcome_def seeded_def)
  with imp fl show ?thesis by (auto simp: seed_main_def)
qed

end

text \<open>
  C38: seeding a database stores the pairs of the file, later lines over earlier ones, in one
  transaction, and reports how many lines were stored out of how many.
\<close>

theorem seed_stores_file:
  assumes "server X base pending ciph enc_ready enc_used dec_ready dec_used bag"
    and "database.db_inv (ext X) base ciph enc_ready enc_used dec_ready dec_used a d"
    and "database.clock_ok (ext X)" and "files file = Some lines"
    and "\<forall>line \<in> set lines. length line + 16 < 2 ^ 31"
  defines "kvs \<equiv> List.map_filter line_item lines"
  shows "\<exists>d' b. seed_main files (ext X) file d =
      ((0, ''Seeded '' @ nat_to_string (length kvs) @ ''/'' @ nat_to_string (unat (of_nat (length lines) :: u32)) @ '' records.'' @ nl), d') \<and>
    database.db_inv (ext X) base ciph enc_ready enc_used dec_ready dec_used b d' \<and> vals b = seeded kvs (vals a)"
  unfolding kvs_def using assms(4,5) by (intro server.seed_main_ok [OF assms(1-3)])

theorem seed_stores_file_witness:
  "fst (seed_main (\<lambda>_. Some [''/a  b c'', ''none'', ''/a d'']) (ext (sample_env True)) ''f'' (srv_db sample_server)) =
     (0, ''Seeded 2/3 records.'' @ nl)"
proof -
  let ?lines = "[''/a  b c'', ''none'', ''/a d'']"
  have db: "node.db_inv True empty_store (srv_db sample_server)"
    using node_inv [of True] unfolding node.srv_inv_def by simp
  have n: "List.map_filter line_item ?lines = [RequestData_kv ''/a'' ''b c'', RequestData_kv ''/a'' ''d'']"
    by (simp add: line_item_def map_filter_simps)
  have two: "nat_to_string (length [RequestData_kv ''/a'' ''b c'', RequestData_kv ''/a'' ''d'']) = ''2''" by code_simp
  have three: "nat_to_string (unat (of_nat (length ?lines) :: u32)) = ''3''" by code_simp
  have len: "\<forall>line \<in> set ?lines. length line + 16 < 2 ^ 31" by simp
  have fl: "(\<lambda>_ :: string. Some ?lines) ''f'' = Some ?lines" by simp
  from seed_stores_file [OF node.server_axioms db node_clock_ok, of "\<lambda>_. Some ?lines" "''f''", OF fl len] obtain d' where
    "seed_main (\<lambda>_. Some ?lines) (ext (sample_env True)) ''f'' (srv_db sample_server) =
      ((0, ''Seeded '' @ ''2'' @ ''/'' @ ''3'' @ '' records.'' @ nl), d')"
    unfolding n two three by blast
  then show ?thesis by simp
qed

text \<open>When no connection can be made, or it is lost, the exit status is that of success.\<close>

lemma cli_status_without_server:
  "cli_main files usage (\<lambda>w. None) R (cli_args (OpGet ''a'')) w = ((0, []), w)"
  by (simp add: cli_main_def cli_request_def)

end
