(* ===== verification/Clara.thy ===== *)
theory Clara
  imports Configuration
begin

text \<open>
  The command line parser, \<open>src/common/util/clara.hpp\<close> (built for a platform other than Windows):
  the stream of tokens over the arguments, options and positional arguments that are bound to
  variables, and the loop that offers each token to them.  The variables that a program binds are
  the fields of a state of type \<open>'s\<close>, and a bound reference is the function that assigns one of
  them.  The text of the help is in \<open>Text_Flow\<close>.
\<close>

section \<open>Tokens\<close>

datatype TokenType = Option | Argument

record Token =
  token_type :: TokenType
  token :: string

definition isOptPrefix :: "char \<Rightarrow> bool" where
  "isOptPrefix c \<longleftrightarrow> c = CHR ''-''"

text \<open>\<open>next.find_first_of(" :=")\<close>.\<close>

definition is_delimiter :: "char \<Rightarrow> bool" where
  "is_delimiter c \<longleftrightarrow> c \<in> set '' :=''"

definition find_delimiter :: "string \<Rightarrow> nat option" where
  "find_delimiter s = (let n = length (takeWhile (\<lambda>c. \<not> is_delimiter c) s) in if n < length s then Some n else None)"

text \<open>
  The tokens of one argument, which is not empty.  For an argument of one character \<open>next[1]\<close> is
  the terminating zero.
\<close>

definition tokens_of :: "string \<Rightarrow> Token list" where
  "tokens_of s =
     (if isOptPrefix (s ! 0)
      then case find_delimiter s of
             Some n \<Rightarrow> [\<lparr>token_type = Option, token = take n s\<rparr>, \<lparr>token_type = Argument, token = drop (n + 1) s\<rparr>]
           | None \<Rightarrow>
               if (length s = 1 \<or> s ! 1 \<noteq> CHR ''-'') \<and> length s > 2
               then map (\<lambda>c. \<lparr>token_type = Option, token = [CHR ''-'', c]\<rparr>) (drop 1 s)
               else [\<lparr>token_type = Option, token = s\<rparr>]
      else [\<lparr>token_type = Argument, token = s\<rparr>])"

record TokenStream =
  it :: "string list"
  m_tokenBuffer :: "Token list"

definition loadBuffer :: "string list \<Rightarrow> TokenStream" where
  "loadBuffer args =
     (case dropWhile (\<lambda>s. s = []) args of
        [] \<Rightarrow> \<lparr>it = [], m_tokenBuffer = []\<rparr>
      | s # rest \<Rightarrow> \<lparr>it = s # rest, m_tokenBuffer = tokens_of s\<rparr>)"

definition stream_more :: "TokenStream \<Rightarrow> bool" where
  "stream_more ts \<longleftrightarrow> m_tokenBuffer ts \<noteq> [] \<or> it ts \<noteq> []"

text \<open>\<open>operator*\<close>; the assertion that the buffer is not empty is an error.\<close>

definition stream_front :: "TokenStream \<Rightarrow> Token option" where
  "stream_front ts = (case m_tokenBuffer ts of [] \<Rightarrow> None | t # _ \<Rightarrow> Some t)"

definition stream_next :: "TokenStream \<Rightarrow> TokenStream" where
  "stream_next ts =
     (if length (m_tokenBuffer ts) \<ge> 2 then ts\<lparr>m_tokenBuffer := tl (m_tokenBuffer ts)\<rparr>
      else loadBuffer (tl (it ts)))"

section \<open>Results\<close>

datatype ErrorType = LogicError | RuntimeError

type_synonym 'a BasicResult = "(ErrorType \<times> string) + 'a"

datatype ParseResultType = Matched | NoMatch | ShortCircuitAll | ShortCircuitSame

type_synonym ParserResult = "ParseResultType BasicResult"
type_synonym ParseState = "ParseResultType \<times> TokenStream"

section \<open>Converting an argument\<close>

text \<open>
  \<open>ss >> target\<close> for \<open>int\<close> and \<open>uint32_t\<close>: white space, a sign, digits; what follows is not looked
  at.  Extraction fails without a digit and when the number is out of range.  A minus sign negates
  an unsigned number modulo its width.  On failure the target is 0 or the nearest limit.
\<close>

definition scan_number :: "string \<Rightarrow> bool \<times> string" where
  "scan_number source =
     (let s = dropWhile is_space source;
          signed = (s \<noteq> [] \<and> (hd s = CHR ''-'' \<or> hd s = CHR ''+''))
      in (s \<noteq> [] \<and> hd s = CHR ''-'', takeWhile is_digit (if signed then tl s else s)))"

definition extract_int :: "string \<Rightarrow> bool \<times> int" where
  "extract_int source =
     (let (neg, ds) = scan_number source; v = (if neg then - int (digits_val ds) else int (digits_val ds)) in
      if ds = [] then (False, 0)
      else if v < - (2 ^ 31) then (False, - (2 ^ 31))
      else if v \<ge> 2 ^ 31 then (False, 2 ^ 31 - 1)
      else (True, v))"

definition extract_uint32 :: "string \<Rightarrow> bool \<times> 32 word" where
  "extract_uint32 source =
     (let (neg, ds) = scan_number source; v = digits_val ds in
      if ds = [] then (False, 0)
      else if v \<ge> 2 ^ 32 then (False, - 1)
      else (True, if neg then - word_of_nat v else word_of_nat v))"

definition conversion_error :: "string \<Rightarrow> ParserResult" where
  "conversion_error source = Inl (RuntimeError, ''Unable to convert '' @ [CHR 0x27] @ source @ [CHR 0x27] @ '' to destination type'')"

definition convertInto_int :: "string \<Rightarrow> ParserResult \<times> int" where
  "convertInto_int source = (case extract_int source of (good, v) \<Rightarrow> (if good then Inr Matched else conversion_error source, v))"

definition convertInto_uint32 :: "string \<Rightarrow> ParserResult \<times> 32 word" where
  "convertInto_uint32 source = (case extract_uint32 source of (good, v) \<Rightarrow> (if good then Inr Matched else conversion_error source, v))"

definition convertInto_string :: "string \<Rightarrow> ParserResult \<times> string" where
  "convertInto_string source = (Inr Matched, source)"

definition tolower :: "char \<Rightarrow> char" where
  "tolower c = (if 65 \<le> (of_char c :: nat) \<and> (of_char c :: nat) \<le> 90 then char_of (of_char c + 32 :: nat) else c)"

text \<open>An unrecognised word leaves the target as it was.\<close>

definition convertInto_bool :: "string \<Rightarrow> bool \<Rightarrow> ParserResult \<times> bool" where
  "convertInto_bool source target =
     (let srcLC = map tolower source in
      if srcLC \<in> set [''y'', ''1'', ''true'', ''yes'', ''on''] then (Inr Matched, True)
      else if srcLC \<in> set [''n'', ''0'', ''false'', ''no'', ''off''] then (Inr Matched, False)
      else (Inl (RuntimeError, ''Expected a boolean value but did not recognise: '' @ [CHR 0x27] @ source @ [CHR 0x27]), target))"

section \<open>Bound references\<close>

datatype 's BoundRef =
    BoundFlagRef "bool \<Rightarrow> 's \<Rightarrow> ParserResult \<times> 's"
  | BoundValueRef bool "string \<Rightarrow> 's \<Rightarrow> ParserResult \<times> 's"

fun isFlag :: "'s BoundRef \<Rightarrow> bool" where
  "isFlag (BoundFlagRef _) = True"
| "isFlag (BoundValueRef _ _) = False"

fun isContainer :: "'s BoundRef \<Rightarrow> bool" where
  "isContainer (BoundFlagRef _) = False"
| "isContainer (BoundValueRef c _) = c"

text \<open>A flag, a variable of a type that \<open>convertInto\<close> handles, and the flag of \<open>Help\<close>.\<close>

definition bound_flag :: "(bool \<Rightarrow> 's \<Rightarrow> 's) \<Rightarrow> 's BoundRef" where
  "bound_flag put = BoundFlagRef (\<lambda>flag st. (Inr Matched, put flag st))"

definition bound_value :: "(string \<Rightarrow> ParserResult \<times> 'v) \<Rightarrow> ('v \<Rightarrow> 's \<Rightarrow> 's) \<Rightarrow> 's BoundRef" where
  "bound_value conv put = BoundValueRef False (\<lambda>arg st. case conv arg of (r, v) \<Rightarrow> (r, put v st))"

definition bound_vector :: "(string \<Rightarrow> ParserResult \<times> 'v) \<Rightarrow> ('v \<Rightarrow> 's \<Rightarrow> 's) \<Rightarrow> 's BoundRef" where
  "bound_vector conv push = BoundValueRef True
     (\<lambda>arg st. case conv arg of (r, v) \<Rightarrow> (r, case r of Inr _ \<Rightarrow> push v st | Inl _ \<Rightarrow> st))"

definition bound_help :: "(bool \<Rightarrow> 's \<Rightarrow> 's) \<Rightarrow> 's BoundRef" where
  "bound_help put = BoundFlagRef (\<lambda>flag st. (Inr ShortCircuitAll, put flag st))"

section \<open>Options and arguments\<close>

record 's Opt =
  opt_ref :: "'s BoundRef"
  m_optNames :: "string list"
  m_hint :: string
  m_description :: string

record 's Arg =
  arg_ref :: "'s BoundRef"
  arg_hint :: string
  arg_optional :: bool

definition isMatch :: "string \<Rightarrow> 's Opt \<Rightarrow> bool" where
  "isMatch optToken opt \<longleftrightarrow> optToken \<in> set (m_optNames opt)"

fun names_validate :: "string list \<Rightarrow> unit BasicResult" where
  "names_validate [] = Inr ()"
| "names_validate (name # names) =
     (if name = [] then Inl (LogicError, ''Option name cannot be empty'')
      else if name ! 0 \<noteq> CHR ''-'' then Inl (LogicError, ''Option name must begin with '' @ [CHR 0x27] @ ''-'' @ [CHR 0x27])
      else names_validate names)"

definition Opt_validate :: "'s Opt \<Rightarrow> unit BasicResult" where
  "Opt_validate opt =
     (if m_optNames opt = [] then Inl (LogicError, ''No options supplied to Opt'') else names_validate (m_optNames opt))"

definition expected_argument :: "string \<Rightarrow> ParseState BasicResult" where
  "expected_argument name = Inl (RuntimeError, ''Expected argument following '' @ name)"

text \<open>What a bound reference reports: an error, the end of all parsing, or a match.\<close>

definition after_set :: "ParserResult \<Rightarrow> TokenStream \<Rightarrow> ParseState BasicResult" where
  "after_set r ts =
     (case r of
        Inl e \<Rightarrow> Inl e
      | Inr ShortCircuitAll \<Rightarrow> Inr (ShortCircuitAll, ts)
      | Inr _ \<Rightarrow> Inr (Matched, stream_next ts))"

text \<open>A failed assertion is \<^term>\<open>None\<close>.\<close>

definition Opt_parse :: "'s Opt \<Rightarrow> TokenStream \<Rightarrow> 's \<Rightarrow> (ParseState BasicResult \<times> 's) option" where
  "Opt_parse opt tokens st =
     (case Opt_validate opt of
        Inl e \<Rightarrow> Some (Inl e, st)
      | Inr _ \<Rightarrow>
          if \<not> stream_more tokens then Some (Inr (NoMatch, tokens), st)
          else do {
            t \<leftarrow> stream_front tokens;
            if token_type t = Option \<and> isMatch (token t) opt
            then (case opt_ref opt of
                    BoundFlagRef setFlag \<Rightarrow> (case setFlag True st of (r, st) \<Rightarrow> Some (after_set r tokens, st))
                  | BoundValueRef _ setValue \<Rightarrow>
                      let rest = stream_next tokens in
                      if \<not> stream_more rest then Some (expected_argument (token t), st)
                      else do {
                        argToken \<leftarrow> stream_front rest;
                        if token_type argToken \<noteq> Argument then Some (expected_argument (token t), st)
                        else (case setValue (token argToken) st of (r, st) \<Rightarrow> Some (after_set r rest, st)) })
            else Some (Inr (NoMatch, tokens), st) })"

definition Arg_parse :: "'s Arg \<Rightarrow> TokenStream \<Rightarrow> 's \<Rightarrow> (ParseState BasicResult \<times> 's) option" where
  "Arg_parse arg tokens st = do {
     t \<leftarrow> stream_front tokens;
     if token_type t \<noteq> Argument then Some (Inr (NoMatch, tokens), st)
     else (case arg_ref arg of
             BoundFlagRef _ \<Rightarrow> None
           | BoundValueRef _ setValue \<Rightarrow>
               (case setValue (token t) st of
                  (Inl e, st) \<Rightarrow> Some (Inl e, st)
                | (Inr _, st) \<Rightarrow> Some (Inr (Matched, stream_next tokens), st))) }"

section \<open>The parser\<close>

record 's Parser =
  m_options :: "'s Opt list"
  m_args :: "'s Arg list"

datatype 's component = OptParser "'s Opt" | ArgParser "'s Arg"

fun component_parse :: "'s component \<Rightarrow> TokenStream \<Rightarrow> 's \<Rightarrow> (ParseState BasicResult \<times> 's) option" where
  "component_parse (OptParser opt) = Opt_parse opt"
| "component_parse (ArgParser arg) = Arg_parse arg"

fun cardinality :: "'s component \<Rightarrow> nat" where
  "cardinality (OptParser opt) = (if isContainer (opt_ref opt) then 0 else 1)"
| "cardinality (ArgParser arg) = (if isContainer (arg_ref arg) then 0 else 1)"

type_synonym 's ParserInfo = "'s component \<times> nat"

definition parseInfos :: "'s Parser \<Rightarrow> 's ParserInfo list" where
  "parseInfos p = map (\<lambda>o'. (OptParser o', 0)) (m_options p) @ map (\<lambda>a. (ArgParser a, 0)) (m_args p)"

text \<open>
  The inner loop: the components in turn, as long as they do not match; a component that has been
  used up is passed over.  The last result stays when all were passed over.
\<close>

fun offer ::
  "'s ParserInfo list \<Rightarrow> ParseResultType \<Rightarrow> TokenStream \<Rightarrow> 's \<Rightarrow>
   (((ParseState \<times> bool) BasicResult) \<times> 's ParserInfo list \<times> 's) option" where
  "offer [] r ts st = Some (Inr ((r, ts), False), [], st)"
| "offer ((c, n) # infos) r ts st =
     (if cardinality c = 0 \<or> n < cardinality c
      then (case component_parse c ts st of
              None \<Rightarrow> None
            | Some (Inl e, st) \<Rightarrow> Some (Inl e, (c, n) # infos, st)
            | Some (Inr (r, ts), st) \<Rightarrow>
                if r \<noteq> NoMatch then Some (Inr ((r, ts), True), (c, Suc n) # infos, st)
                else map_option (\<lambda>(x, is, st). (x, (c, n) # is, st)) (offer infos r ts st))
      else map_option (\<lambda>(x, is, st). (x, (c, n) # is, st)) (offer infos r ts st))"

section \<open>The loop over the tokens\<close>

text \<open>The tokens that are left, counted with those that the arguments not looked at may give.\<close>

definition stream_size :: "TokenStream \<Rightarrow> nat" where
  "stream_size ts = length (m_tokenBuffer ts) + (\<Sum>s \<leftarrow> tl (it ts). length s + 2)"

lemma length_tokens_of: "s \<noteq> [] \<Longrightarrow> length (tokens_of s) \<le> length s + 1"
  by (cases s) (auto simp: tokens_of_def find_delimiter_def Let_def)

lemma size_loadBuffer: "stream_size (loadBuffer args) \<le> (\<Sum>s \<leftarrow> args. length s + 2)"
proof (induction args)
  case (Cons s args)
  then show ?case using length_tokens_of [of s] by (cases "s = []") (auto simp: loadBuffer_def stream_size_def)
qed (simp add: loadBuffer_def stream_size_def)

lemma size_stream_next:
  assumes "stream_front ts = Some t"
  shows "stream_size (stream_next ts) < stream_size ts"
proof -
  obtain b where b: "m_tokenBuffer ts = t # b" using assms by (auto simp: stream_front_def split: list.splits)
  show ?thesis using size_loadBuffer [of "tl (it ts)"]
    by (cases b) (simp_all add: b stream_next_def stream_size_def)
qed

lemma after_set_cases:
  assumes "after_set r ts = Inr (p, ts')"
  shows "p = ShortCircuitAll \<and> ts' = ts \<or> p = Matched \<and> ts' = stream_next ts"
  using assms by (auto simp: after_set_def split: sum.splits ParseResultType.splits)

text \<open>No match changes nothing, and a match leaves fewer tokens.\<close>

definition advanced :: "TokenStream \<Rightarrow> 's \<Rightarrow> ParseResultType \<Rightarrow> TokenStream \<Rightarrow> 's \<Rightarrow> bool" where
  "advanced ts st p ts' st' \<longleftrightarrow>
     p = NoMatch \<and> ts' = ts \<and> st' = st \<or> p = ShortCircuitAll \<or> p = Matched \<and> stream_size ts' < stream_size ts"

lemma Opt_parse_advances:
  assumes "Opt_parse opt ts st = Some (Inr (p, ts'), st')"
  shows "advanced ts st p ts' st'"
proof (cases "stream_more ts")
  case False
  then show ?thesis using assms by (auto simp: Opt_parse_def advanced_def split: sum.splits)
next
  case True
  then obtain t where t: "stream_front ts = Some t"
    using assms by (auto simp: Opt_parse_def split: sum.splits bind_splits)
  show ?thesis
  proof (cases "token_type t = Option \<and> isMatch (token t) opt")
    case False
    then show ?thesis using assms True t by (auto simp: Opt_parse_def advanced_def split: sum.splits)
  next
    case match: True
    show ?thesis
    proof (cases "opt_ref opt")
      case (BoundFlagRef f)
      then show ?thesis using assms True t match size_stream_next [OF t]
        by (auto simp: Opt_parse_def advanced_def split: sum.splits prod.splits dest!: after_set_cases)
    next
      case (BoundValueRef cont f)
      then obtain a r st2 where a: "stream_front (stream_next ts) = Some a" "f (token a) st = (r, st2)"
        "after_set r (stream_next ts) = Inr (p, ts')"
        using assms True t match
        by (auto simp: Opt_parse_def Let_def expected_argument_def split: sum.splits prod.splits if_splits bind_splits)
      then show ?thesis using size_stream_next [OF t] size_stream_next [OF a(1)] after_set_cases [OF a(3)]
        by (auto simp: advanced_def)
    qed
  qed
qed

lemma Arg_parse_advances:
  assumes "Arg_parse arg ts st = Some (Inr (p, ts'), st')"
  shows "advanced ts st p ts' st'"
  using assms
  by (auto simp: Arg_parse_def advanced_def size_stream_next split: bind_splits if_splits BoundRef.splits prod.splits sum.splits)

lemma component_parse_advances:
  assumes "component_parse c ts st = Some (Inr (p, ts'), st')"
  shows "advanced ts st p ts' st'"
  using assms by (cases c) (simp_all add: Opt_parse_advances Arg_parse_advances)

lemma offer_advances:
  assumes "offer infos r ts st = Some (Inr ((r', ts'), True), infos', st')" and "r' \<noteq> ShortCircuitAll"
  shows "stream_size ts' < stream_size ts"
  using assms
proof (induction infos arbitrary: r infos' st)
  case (Cons i infos)
  obtain c n where i: "i = (c, n)" by fastforce
  show ?case
  proof (cases "cardinality c = 0 \<or> n < cardinality c")
    case False
    then show ?thesis using Cons.prems Cons.IH by (auto simp: i)
  next
    case True
    then obtain q ts1 st1 where q: "component_parse c ts st = Some (Inr (q, ts1), st1)"
      using Cons.prems by (auto simp: i split: option.splits sum.splits)
    with component_parse_advances [OF q] Cons.prems Cons.IH True show ?thesis
      by (auto simp: i advanced_def split: if_splits)
  qed
qed simp

function parse_loop ::
  "'s ParserInfo list \<Rightarrow> ParseResultType \<Rightarrow> TokenStream \<Rightarrow> 's \<Rightarrow> (ParseState BasicResult \<times> 's) option" where
  "parse_loop infos r ts st =
     (if \<not> stream_more ts then Some (Inr (r, ts), st)
      else case offer infos r ts st of
             None \<Rightarrow> None
           | Some (Inl e, infos', st') \<Rightarrow> Some (Inl e, st')
           | Some (Inr ((r', ts'), tokenParsed), infos', st') \<Rightarrow>
               if r' = ShortCircuitAll then Some (Inr (r', ts'), st')
               else if \<not> tokenParsed
               then map_option (\<lambda>t. (Inl (RuntimeError, ''Unrecognised token: '' @ token t), st')) (stream_front ts')
               else parse_loop infos' r' ts' st')"
  by pat_completeness auto
termination
  by (relation "measure (\<lambda>(_, _, ts, _). stream_size ts)") (auto intro: offer_advances)

declare parse_loop.simps [simp del]

definition Parser_parse :: "'s Parser \<Rightarrow> string list \<Rightarrow> 's \<Rightarrow> (ParseState BasicResult \<times> 's) option" where
  "Parser_parse p args st =
     (if length (m_options p) + length (m_args p) < 512
      then parse_loop (parseInfos p) NoMatch (loadBuffer args) st else None)"


section \<open>What a command line assigns\<close>

text \<open>
  The ways to write an option: a flag, a value as an argument of its own, and a value behind one of
  the delimiters.  The option is given by its position in the parser, with one of its names.
\<close>

datatype setting = Flag nat string | Spaced nat string string | Joined nat string char string

fun setting_option :: "setting \<Rightarrow> nat" where
  "setting_option (Flag i n) = i"
| "setting_option (Spaced i n v) = i"
| "setting_option (Joined i n c v) = i"

fun setting_name :: "setting \<Rightarrow> string" where
  "setting_name (Flag i n) = n"
| "setting_name (Spaced i n v) = n"
| "setting_name (Joined i n c v) = n"

fun written :: "setting \<Rightarrow> string list" where
  "written (Flag i n) = [n]"
| "written (Spaced i n v) = [n, v]"
| "written (Joined i n c v) = [n @ c # v]"

text \<open>A name is a dash and one character, or begins with two dashes.\<close>

definition name_ok :: "string \<Rightarrow> bool" where
  "name_ok n \<longleftrightarrow> n \<noteq> [] \<and> hd n = CHR ''-'' \<and> list_all (\<lambda>c. \<not> is_delimiter c) n \<and> (length n \<le> 2 \<or> n ! 1 = CHR ''-'')"

fun setting_ok :: "'s Opt list \<Rightarrow> setting \<Rightarrow> bool" where
  "setting_ok opts (Flag i n) \<longleftrightarrow> i < length opts \<and> n \<in> set (m_optNames (opts ! i)) \<and> isFlag (opt_ref (opts ! i))"
| "setting_ok opts (Spaced i n v) \<longleftrightarrow> i < length opts \<and> n \<in> set (m_optNames (opts ! i)) \<and> \<not> isFlag (opt_ref (opts ! i)) \<and>
     v \<noteq> [] \<and> hd v \<noteq> CHR ''-''"
| "setting_ok opts (Joined i n c v) \<longleftrightarrow> i < length opts \<and> n \<in> set (m_optNames (opts ! i)) \<and> \<not> isFlag (opt_ref (opts ! i)) \<and>
     is_delimiter c"

text \<open>Options that can be told apart, each bound to one variable.\<close>

definition options_ok :: "'s Opt list \<Rightarrow> bool" where
  "options_ok opts \<longleftrightarrow> distinct (concat (map m_optNames opts)) \<and> length opts < 512 \<and>
     list_all (\<lambda>opt. m_optNames opt \<noteq> [] \<and> list_all name_ok (m_optNames opt) \<and> \<not> isContainer (opt_ref opt)) opts"

text \<open>The assignments in the order of the command line; \<open>used\<close> are the options seen before.\<close>

fun assign :: "'s Opt list \<Rightarrow> setting \<Rightarrow> 's \<Rightarrow> ParserResult \<times> 's" where
  "assign opts (Flag i n) st = (case opt_ref (opts ! i) of BoundFlagRef f \<Rightarrow> f True st | _ \<Rightarrow> (Inr NoMatch, st))"
| "assign opts (Spaced i n v) st = (case opt_ref (opts ! i) of BoundValueRef _ f \<Rightarrow> f v st | _ \<Rightarrow> (Inr NoMatch, st))"
| "assign opts (Joined i n c v) st = (case opt_ref (opts ! i) of BoundValueRef _ f \<Rightarrow> f v st | _ \<Rightarrow> (Inr NoMatch, st))"

fun assign_all :: "'s Opt list \<Rightarrow> nat set \<Rightarrow> setting list \<Rightarrow> 's \<Rightarrow> unit BasicResult \<times> 's" where
  "assign_all opts used [] st = (Inr (), st)"
| "assign_all opts used (x # xs) st =
     (if setting_option x \<in> used then (Inl (RuntimeError, ''Unrecognised token: '' @ setting_name x), st)
      else case assign opts x st of
             (Inl e, st) \<Rightarrow> (Inl e, st)
           | (Inr ShortCircuitAll, st) \<Rightarrow> (Inr (), st)
           | (Inr _, st) \<Rightarrow> assign_all opts (insert (setting_option x) used) xs st)"

lemma name_not_empty: "name_ok n \<Longrightarrow> n \<noteq> []"
  by (simp add: name_ok_def)

lemma takeWhile_name: "name_ok n \<Longrightarrow> takeWhile (\<lambda>c. \<not> is_delimiter c) n = n"
  by (simp add: name_ok_def list_all_iff)

lemma tokens_of_name:
  assumes "name_ok n"
  shows "tokens_of n = [\<lparr>token_type = Option, token = n\<rparr>]"
proof -
  have "find_delimiter n = None" by (simp add: find_delimiter_def takeWhile_name [OF assms])
  moreover have "n ! 0 = CHR ''-''" using assms by (cases n) (auto simp: name_ok_def)
  ultimately show ?thesis using assms by (auto simp: tokens_of_def isOptPrefix_def name_ok_def)
qed

lemma tokens_of_joined:
  assumes "name_ok n" and "is_delimiter c"
  shows "tokens_of (n @ c # v) = [\<lparr>token_type = Option, token = n\<rparr>, \<lparr>token_type = Argument, token = v\<rparr>]"
proof -
  have "takeWhile (\<lambda>c. \<not> is_delimiter c) (n @ c # v) = n"
    using assms by (simp add: name_ok_def list_all_iff takeWhile_append2)
  moreover have "(n @ c # v) ! 0 = CHR ''-''" using assms(1) by (cases n) (auto simp: name_ok_def)
  ultimately show ?thesis by (simp add: tokens_of_def find_delimiter_def isOptPrefix_def)
qed

lemma tokens_of_value: "v \<noteq> [] \<Longrightarrow> hd v \<noteq> CHR ''-'' \<Longrightarrow> tokens_of v = [\<lparr>token_type = Argument, token = v\<rparr>]"
  by (cases v) (simp_all add: tokens_of_def isOptPrefix_def)

lemma loadBuffer_Cons: "s \<noteq> [] \<Longrightarrow> loadBuffer (s # args) = \<lparr>it = s # args, m_tokenBuffer = tokens_of s\<rparr>"
  by (simp add: loadBuffer_def)

lemmas stream_defs = stream_more_def stream_front_def stream_next_def

lemma names_validate_ok: "list_all name_ok names \<Longrightarrow> names_validate names = Inr ()"
proof (induction names)
  case (Cons n names)
  then show ?case by (cases n) (auto simp: name_ok_def)
qed simp

lemma option_names_ok: "options_ok opts \<Longrightarrow> i < length opts \<Longrightarrow> n \<in> set (m_optNames (opts ! i)) \<Longrightarrow> name_ok n"
  using nth_mem [of i opts] by (auto simp: options_ok_def list_all_iff)

lemma option_validates: "options_ok opts \<Longrightarrow> i < length opts \<Longrightarrow> Opt_validate (opts ! i) = Inr ()"
  by (auto simp: options_ok_def list_all_length Opt_validate_def names_validate_ok)

text \<open>The option that is named takes its setting off the stream, and the others do not match.\<close>

lemma written_front:
  assumes "options_ok opts" and "setting_ok opts x"
  shows "stream_front (loadBuffer (written x @ args)) = Some \<lparr>token_type = Option, token = setting_name x\<rparr>"
    and "stream_more (loadBuffer (written x @ args))" and "name_ok (setting_name x)"
proof -
  show n: "name_ok (setting_name x)" using assms option_names_ok by (cases x) auto
  then show "stream_front (loadBuffer (written x @ args)) = Some \<lparr>token_type = Option, token = setting_name x\<rparr>"
    "stream_more (loadBuffer (written x @ args))"
    using assms(2) by (cases x; simp add: loadBuffer_Cons tokens_of_name tokens_of_joined name_not_empty stream_defs)+
qed

lemma named_option_parses:
  assumes ok: "options_ok opts" and x: "setting_ok opts x"
  shows "\<exists>ts. Opt_parse (opts ! setting_option x) (loadBuffer (written x @ args)) st =
      Some (after_set (fst (assign opts x st)) ts, snd (assign opts x st)) \<and> stream_next ts = loadBuffer args"
proof -
  note front = written_front(1,2) [OF assms, of args] written_front(3) [OF assms]
  have v: "Opt_validate (opts ! setting_option x) = Inr ()" using option_validates [OF ok] x by (cases x) auto
  have m: "isMatch (setting_name x) (opts ! setting_option x)" using x by (cases x) (auto simp: isMatch_def)
  show ?thesis
  proof (cases x)
    case (Flag i n)
    then obtain f where f: "opt_ref (opts ! i) = BoundFlagRef f" using x by (cases "opt_ref (opts ! i)") auto
    have "stream_next (loadBuffer (n # args)) = loadBuffer args"
      using front(3) Flag by (simp add: loadBuffer_Cons tokens_of_name name_not_empty stream_defs)
    with Flag f front v m show ?thesis
      by (intro exI [of _ "loadBuffer (written x @ args)"]) (simp add: Opt_parse_def split: prod.splits)
  next
    case (Spaced i n w)
    then obtain cont f where f: "opt_ref (opts ! i) = BoundValueRef cont f" using x by (cases "opt_ref (opts ! i)") auto
    have w: "w \<noteq> []" "hd w \<noteq> CHR ''-''" using x Spaced by auto
    have "stream_next (loadBuffer (n # w # args)) = loadBuffer (w # args)"
      using front(3) Spaced by (simp add: loadBuffer_Cons tokens_of_name name_not_empty stream_defs)
    with Spaced f front v m w show ?thesis
      by (intro exI [of _ "loadBuffer (w # args)"])
        (simp add: Opt_parse_def loadBuffer_Cons tokens_of_value stream_defs split: prod.splits)
  next
    case (Joined i n c w)
    then obtain cont f where f: "opt_ref (opts ! i) = BoundValueRef cont f" using x by (cases "opt_ref (opts ! i)") auto
    let ?s = "n @ c # w"
    have "stream_next (loadBuffer (?s # args)) = \<lparr>it = ?s # args, m_tokenBuffer = [\<lparr>token_type = Argument, token = w\<rparr>]\<rparr>"
      using front(3) Joined x by (simp add: loadBuffer_Cons tokens_of_joined stream_defs)
    with Joined f front v m show ?thesis
      by (intro exI [of _ "\<lparr>it = ?s # args, m_tokenBuffer = [\<lparr>token_type = Argument, token = w\<rparr>]\<rparr>"])
        (simp add: Opt_parse_def stream_defs split: prod.splits)
  qed
qed

lemma distinct_concat_nth:
  "distinct (concat xss) \<Longrightarrow> i < length xss \<Longrightarrow> j < length xss \<Longrightarrow> i \<noteq> j \<Longrightarrow> set (xss ! i) \<inter> set (xss ! j) = {}"
proof (induction xss arbitrary: i j)
  case (Cons xs xss)
  have "set (xss ! k) \<inter> set xs = {}" if "k < length xss" for k
    using Cons.prems(1) nth_mem [OF that] by auto
  with Cons show ?case by (cases i; cases j) (auto simp: Int_commute)
qed simp

lemma other_option_passes:
  assumes ok: "options_ok opts" and x: "setting_ok opts x" and j: "j < length opts" "j \<noteq> setting_option x"
  shows "Opt_parse (opts ! j) (loadBuffer (written x @ args)) st = Some (Inr (NoMatch, loadBuffer (written x @ args)), st)"
proof -
  have i: "setting_option x < length opts" "setting_name x \<in> set (m_optNames (opts ! setting_option x))"
    using x by (cases x; simp)+
  have "setting_name x \<notin> set (m_optNames (opts ! j))"
    using ok i j distinct_concat_nth [of "map m_optNames opts" "setting_option x" j] by (auto simp: options_ok_def)
  then show ?thesis using written_front [OF ok x] option_validates [OF ok j(1)]
    by (simp add: Opt_parse_def isMatch_def)
qed

text \<open>The components after the options in \<open>used\<close> have been seen.\<close>

definition infos_after :: "'s Opt list \<Rightarrow> nat set \<Rightarrow> 's ParserInfo list" where
  "infos_after opts used = map (\<lambda>i. (OptParser (opts ! i), if i \<in> used then 1 else 0)) [0..<length opts]"

lemma infos_after_empty: "parseInfos \<lparr>m_options = opts, m_args = []\<rparr> = infos_after opts {}"
  by (rule nth_equalityI) (simp_all add: parseInfos_def infos_after_def)

text \<open>Components that are used up or do not match are passed over.\<close>

definition passes :: "'s ParserInfo \<Rightarrow> TokenStream \<Rightarrow> 's \<Rightarrow> bool" where
  "passes i ts st \<longleftrightarrow> cardinality (fst i) \<noteq> 0 \<and>
     (snd i \<ge> cardinality (fst i) \<or> component_parse (fst i) ts st = Some (Inr (NoMatch, ts), st))"

lemma offer_passes_all:
  "list_all (\<lambda>i. passes i ts st) infos \<Longrightarrow>
   \<exists>r'. r' \<in> {r, NoMatch} \<and> offer infos r ts st = Some (Inr ((r', ts), False), infos, st)"
proof (induction infos arbitrary: r)
  case (Cons i infos)
  obtain c n where i: "i = (c, n)" by fastforce
  show ?case using Cons.IH [of r] Cons.IH [of NoMatch] Cons.prems by (auto simp: i passes_def)
qed simp

lemma offer_reaches:
  assumes "list_all (\<lambda>i. passes i ts st) pre" and "n < cardinality c" and "component_parse c ts st = Some (x, st')"
    and "case x of Inl e \<Rightarrow> True | Inr (p, _) \<Rightarrow> p \<noteq> NoMatch"
  shows "offer (pre @ (c, n) # post) r ts st =
    Some (map_sum id (\<lambda>p. (p, True)) x, pre @ (c, case x of Inl e \<Rightarrow> n | Inr _ \<Rightarrow> Suc n) # post, st')"
  using assms(1)
proof (induction pre arbitrary: r)
  case Nil
  show ?case using assms(2-4) by (auto split: sum.splits)
next
  case (Cons i pre)
  obtain d m where i: "i = (d, m)" by fastforce
  show ?case using Cons.IH [of r] Cons.IH [of NoMatch] Cons.prems by (auto simp: i passes_def)
qed

lemma infos_after_split:
  assumes "i < length opts"
  shows "infos_after opts used =
    map (\<lambda>i. (OptParser (opts ! i), if i \<in> used then 1 else 0)) [0..<i] @
    (OptParser (opts ! i), if i \<in> used then 1 else 0) #
    map (\<lambda>i. (OptParser (opts ! i), if i \<in> used then 1 else 0)) [Suc i..<length opts]"
proof -
  have "[0..<length opts] = [0..<i] @ i # [Suc i..<length opts]"
    using assms upt_add_eq_append [of 0 i "length opts - i"] upt_conv_Cons [of i "length opts"] by simp
  then show ?thesis by (simp add: infos_after_def)
qed

lemma infos_after_insert:
  assumes "i < length opts"
  shows "map (\<lambda>i. (OptParser (opts ! i), if i \<in> used then 1 else 0)) [0..<i] @
    (OptParser (opts ! i), Suc 0) # map (\<lambda>i. (OptParser (opts ! i), if i \<in> used then 1 else 0)) [Suc i..<length opts] =
    infos_after opts (insert i used)"
  unfolding infos_after_split [OF assms] by (auto intro!: map_cong)

lemma option_cardinality: "options_ok opts \<Longrightarrow> i < length opts \<Longrightarrow> cardinality (OptParser (opts ! i)) = 1"
  by (auto simp: options_ok_def list_all_length)

lemma used_passes:
  "options_ok opts \<Longrightarrow> setting_ok opts x \<Longrightarrow> j < length opts \<Longrightarrow> j \<noteq> setting_option x \<or> j \<in> used \<Longrightarrow>
   passes (OptParser (opts ! j), if j \<in> used then 1 else 0) (loadBuffer (written x @ args)) st"
  using option_cardinality [of opts j] other_option_passes [of opts x j args st] by (auto simp: passes_def)

lemma setting_option_less: "setting_ok opts x \<Longrightarrow> setting_option x < length opts"
  by (cases x) auto

lemma parse_loop_assigns:
  assumes ok: "options_ok opts"
  shows "list_all (setting_ok opts) xs \<Longrightarrow> r \<noteq> ShortCircuitAll \<Longrightarrow>
    map_option (\<lambda>(x, st). (map_sum id (\<lambda>_. ()) x, st)) (parse_loop (infos_after opts used) r (loadBuffer (concat (map written xs))) st) =
    Some (assign_all opts used xs st)"
proof (induction xs arbitrary: used r st)
  case Nil
  then show ?case by (simp add: parse_loop.simps loadBuffer_def stream_more_def)
next
  case (Cons x xs)
  let ?args = "concat (map written xs)" and ?i = "setting_option x"
  let ?ts = "loadBuffer (written x @ ?args)"
  have x: "setting_ok opts x" using Cons.prems by simp
  have i: "?i < length opts" by (rule setting_option_less [OF x])
  note front = written_front(1,2) [OF ok x, of ?args]
  show ?case
  proof (cases "?i \<in> used")
    case True
    have "list_all (\<lambda>i. passes i ?ts st) (infos_after opts used)"
      using used_passes [OF ok x, of _ used ?args st] True by (auto simp: infos_after_def list_all_iff)
    from offer_passes_all [OF this, of r] obtain r' where
      "r' \<in> {r, NoMatch}" "offer (infos_after opts used) r ?ts st = Some (Inr ((r', ?ts), False), infos_after opts used, st)" by blast
    then show ?thesis using front Cons.prems(2) True by (auto simp: parse_loop.simps [of _ r])
  next
    case False
    obtain y st' where a: "assign opts x st = (y, st')" by fastforce
    obtain ts where ts: "Opt_parse (opts ! ?i) ?ts st = Some (after_set y ts, st')" "stream_next ts = loadBuffer ?args"
      using named_option_parses [OF ok x, of ?args st] a by auto
    let ?x = "after_set y ts"
    have pre: "list_all (\<lambda>i. passes i ?ts st) (map (\<lambda>i. (OptParser (opts ! i), if i \<in> used then 1 else 0)) [0..<?i])"
      using used_passes [OF ok x, of _ used ?args st] i by (auto simp: list_all_iff)
    have nm: "case ?x of Inl e \<Rightarrow> True | Inr (p, _) \<Rightarrow> p \<noteq> NoMatch"
      by (auto simp: after_set_def split: sum.splits ParseResultType.splits)
    have card: "(0 :: nat) < cardinality (OptParser (opts ! ?i))" using option_cardinality [OF ok i] by simp
    have "component_parse (OptParser (opts ! ?i)) ?ts st = Some (?x, st')" using ts(1) by simp
    from offer_reaches [OF pre card this nm, of "map (\<lambda>i. (OptParser (opts ! i), if i \<in> used then 1 else 0)) [Suc ?i..<length opts]" r]
    have off: "offer (infos_after opts used) r ?ts st = Some (map_sum id (\<lambda>p. (p, True)) ?x,
        case ?x of Inl _ \<Rightarrow> infos_after opts used | Inr _ \<Rightarrow> infos_after opts (insert ?i used), st')"
      unfolding infos_after_insert [OF i, of used, symmetric] infos_after_split [OF i, of used]
      using False by (cases ?x) simp_all
    show ?thesis
    proof (cases y)
      case (Inl e)
      then show ?thesis using off front False a
        by (simp add: parse_loop.simps [of _ r] after_set_def)
    next
      case (Inr p)
      then show ?thesis
      proof (cases "p = ShortCircuitAll")
        case True
        then show ?thesis using Inr off front False a
          by (simp add: parse_loop.simps [of _ r] after_set_def)
      next
        case no: False
        then have "?x = Inr (Matched, loadBuffer ?args)" using Inr ts(2) by (cases p) (auto simp: after_set_def)
        then have step: "parse_loop (infos_after opts used) r ?ts st =
            parse_loop (infos_after opts (insert ?i used)) Matched (loadBuffer ?args) st'"
          using off front by (simp add: parse_loop.simps [of _ r])
        have "assign_all opts used (x # xs) st = assign_all opts (insert ?i used) xs st'"
          using Inr no False a by (cases p) simp_all
        with step Cons.IH [of Matched "insert ?i used" st'] Cons.prems show ?thesis by simp
      qed
    qed
  qed
qed

lemma Parser_parse_assigns:
  assumes "options_ok opts" and "list_all (setting_ok opts) xs"
  shows "map_option (\<lambda>(x, st). (map_sum id (\<lambda>_. ()) x, st))
      (Parser_parse \<lparr>m_options = opts, m_args = []\<rparr> (concat (map written xs)) st) =
    Some (assign_all opts {} xs st)"
  using parse_loop_assigns [OF assms, of NoMatch "{}" st] assms(1)
  by (simp add: Parser_parse_def infos_after_empty options_ok_def)

text \<open>
  C13: the command line parser assigns what is written.  For every parser whose options have
  different names, and every command line that is a sequence of flags and of options with a value,
  each with one of its names and its value as an argument of its own or behind a blank, a colon or
  an equals sign, parsing ends, and it makes the assignments in the order of the command line: up
  to the first value that cannot be converted, which is reported, up to an option that ends parsing
  (help), and up to an option that was given before, which is reported as unrecognised.
\<close>

theorem command_line_is_assigned:
  assumes "options_ok opts" and "list_all (setting_ok opts) xs"
  shows "map_option (\<lambda>(x, st). (map_sum id (\<lambda>_. ()) x, st))
      (Parser_parse \<lparr>m_options = opts, m_args = []\<rparr> (concat (map written xs)) st) =
    Some (assign_all opts {} xs st)"
  by (rule Parser_parse_assigns [OF assms])

text \<open>A parser with a flag, a number and the help option, over the three variables.\<close>

definition sample_options :: "(bool \<times> int \<times> bool) Opt list" where
  "sample_options =
     [\<lparr>opt_ref = bound_help (\<lambda>b (h, n, v). (b, n, v)), m_optNames = [''-?'', ''-h'', ''--help''], m_hint = [],
       m_description = ''display usage information''\<rparr>,
      \<lparr>opt_ref = bound_value convertInto_int (\<lambda>i (h, n, v). (h, i, v)), m_optNames = [''-n'', ''--number''], m_hint = ''8'',
       m_description = []\<rparr>,
      \<lparr>opt_ref = bound_flag (\<lambda>b (h, n, v). (h, n, b)), m_optNames = [''-v''], m_hint = [], m_description = []\<rparr>]"

theorem command_line_is_assigned_witness:
  "map_option (\<lambda>(x, st). (map_sum id (\<lambda>_. ()) x, st))
      (Parser_parse \<lparr>m_options = sample_options, m_args = []\<rparr> [''-v'', ''--number=-17'', ''-n'', ''3''] (False, 0, False)) =
   Some (Inl (RuntimeError, ''Unrecognised token: -n''), False, - 17, True)"
proof -
  let ?xs = "[Flag 2 ''-v'', Joined 1 ''--number'' CHR ''='' ''-17'', Spaced 1 ''-n'' ''3'']"
  have "options_ok sample_options" "list_all (setting_ok sample_options) ?xs" by code_simp+
  note command_line_is_assigned [OF this, of "(False, 0, False)"]
  moreover have "assign_all sample_options {} ?xs (False, 0, False) =
      (Inl (RuntimeError, ''Unrecognised token: -n''), False, - 17, True)" by code_simp
  ultimately show ?thesis by simp
qed

section \<open>Every command line\<close>

text \<open>The buffer holds a token as long as there is one.\<close>

definition stream_ok :: "TokenStream \<Rightarrow> bool" where
  "stream_ok ts \<longleftrightarrow> (stream_more ts \<longrightarrow> m_tokenBuffer ts \<noteq> [])"

lemma tokens_of_nonempty: "s \<noteq> [] \<Longrightarrow> tokens_of s \<noteq> []"
  by (cases s) (auto simp: tokens_of_def split: option.splits)

lemma stream_ok_load: "stream_ok (loadBuffer args)"
proof (induction args)
  case (Cons s args)
  then show ?case using tokens_of_nonempty [of s] by (cases "s = []") (auto simp: stream_ok_def loadBuffer_def)
qed (simp add: stream_ok_def loadBuffer_def stream_more_def)

lemma stream_ok_next: "stream_ok (stream_next ts)"
  using stream_ok_load by (cases "m_tokenBuffer ts") (auto simp: stream_next_def stream_ok_def neq_Nil_conv Suc_le_length_iff)

lemma stream_ok_front: "stream_ok ts \<Longrightarrow> stream_more ts \<Longrightarrow> \<exists>t. stream_front ts = Some t"
  by (auto simp: stream_ok_def stream_front_def split: list.splits)

lemma Opt_parse_total:
  assumes "stream_ok ts"
  shows "\<exists>x st'. Opt_parse opt ts st = Some (x, st') \<and> (\<forall>p ts'. x = Inr (p, ts') \<longrightarrow> stream_ok ts')"
proof -
  have set: "stream_ok ts' \<Longrightarrow> after_set r ts' = Inr (p, ts'') \<Longrightarrow> stream_ok ts''" for r p ts' ts''
    using after_set_cases [of r ts' p ts''] stream_ok_next by auto
  show ?thesis
  proof (cases "stream_more ts")
    case False
    then show ?thesis using assms by (auto simp: Opt_parse_def split: sum.splits)
  next
    case True
    with stream_ok_front [OF assms] obtain t where t: "stream_front ts = Some t" by blast
    have "stream_more (stream_next ts) \<Longrightarrow> \<exists>a. stream_front (stream_next ts) = Some a"
      by (rule stream_ok_front [OF stream_ok_next])
    with True t show ?thesis using assms set set [OF stream_ok_next [of ts]]
      by (auto simp: Opt_parse_def Let_def expected_argument_def split: sum.splits BoundRef.splits prod.splits)
  qed
qed

lemma Arg_parse_total:
  assumes "stream_ok ts" and "stream_more ts" and "\<not> isFlag (arg_ref arg)"
  shows "\<exists>x st'. Arg_parse arg ts st = Some (x, st') \<and> (\<forall>p ts'. x = Inr (p, ts') \<longrightarrow> stream_ok ts')"
  using assms stream_ok_front [OF assms(1,2)] stream_ok_next [of ts]
  by (cases "arg_ref arg") (auto simp: Arg_parse_def split: prod.splits sum.splits)

fun component_ok :: "'s component \<Rightarrow> bool" where
  "component_ok (OptParser opt) = True"
| "component_ok (ArgParser arg) = (\<not> isFlag (arg_ref arg))"

lemma component_parse_total:
  assumes "stream_ok ts" and "stream_more ts" and "component_ok c"
  shows "\<exists>x st'. component_parse c ts st = Some (x, st') \<and> (\<forall>p ts'. x = Inr (p, ts') \<longrightarrow> stream_ok ts')"
  using assms Opt_parse_total [OF assms(1)] Arg_parse_total [OF assms(1,2)] by (cases c) auto

lemma offer_total:
  assumes ts: "stream_ok ts" "stream_more ts"
  shows "list_all (\<lambda>i. component_ok (fst i)) infos \<Longrightarrow>
    \<exists>x infos' st'. offer infos r ts st = Some (x, infos', st') \<and> list_all (\<lambda>i. component_ok (fst i)) infos' \<and>
      (\<forall>p ts' b. x = Inr ((p, ts'), b) \<longrightarrow> stream_ok ts' \<and> (\<not> b \<longrightarrow> ts' = ts))"
proof (induction infos arbitrary: r)
  case (Cons i infos)
  obtain c n where i: "i = (c, n)" by fastforce
  have c: "component_ok c" "list_all (\<lambda>i. component_ok (fst i)) infos" using Cons.prems by (simp_all add: i)
  note IH = Cons.IH [OF c(2)]
  from component_parse_total [OF ts c(1), of st] obtain x st' where
    x: "component_parse c ts st = Some (x, st')" "\<And>p ts'. x = Inr (p, ts') \<Longrightarrow> stream_ok ts'" by blast
  show ?case
  proof (cases "cardinality c = 0 \<or> n < cardinality c")
    case False
    then show ?thesis using IH [of r] c by (auto simp: i)
  next
    case True
    show ?thesis
    proof (cases x)
      case (Inl e)
      then show ?thesis using True x c by (auto simp: i)
    next
      case (Inr y)
      obtain p ts' where y: "y = (p, ts')" by fastforce
      show ?thesis
      proof (cases "p = NoMatch")
        case nm: True
        have "ts' = ts \<and> st' = st" using component_parse_advances x(1) Inr y nm by (fastforce simp: advanced_def)
        then show ?thesis using True x Inr y nm c IH [of NoMatch] by (auto simp: i)
      next
        case False
        then show ?thesis using True x Inr y c by (auto simp: i)
      qed
    qed
  qed
qed (use ts in simp)

text \<open>An error, help, or no token left.\<close>

definition finished :: "ParseState BasicResult \<Rightarrow> bool" where
  "finished x = (case x of Inl e \<Rightarrow> True | Inr (r, ts) \<Rightarrow> if r = ShortCircuitAll then True else \<not> stream_more ts)"

lemma parse_loop_total:
  assumes "list_all (\<lambda>i. component_ok (fst i)) infos" and "stream_ok ts"
  shows "\<exists>x st'. parse_loop infos r ts st = Some (x, st') \<and> finished x"
  using assms
proof (induction "stream_size ts" arbitrary: infos r ts st rule: less_induct)
  case less
  show ?case
  proof (cases "stream_more ts")
    case False
    then show ?thesis by (simp add: parse_loop.simps [of _ r] finished_def)
  next
    case more: True
    from offer_total [OF less.prems(2) more less.prems(1), of r st] obtain x infos' st' where
      x: "offer infos r ts st = Some (x, infos', st')" "list_all (\<lambda>i. component_ok (fst i)) infos'"
      "\<And>p ts' b. x = Inr ((p, ts'), b) \<Longrightarrow> stream_ok ts' \<and> (\<not> b \<longrightarrow> ts' = ts)" by blast
    show ?thesis
    proof (cases x)
      case (Inl e)
      then show ?thesis using more x by (simp add: parse_loop.simps [of _ r] finished_def)
    next
      case (Inr y)
      obtain p ts' b where y: "y = ((p, ts'), b)" by (metis surj_pair)
      note ts' = x(3) [of p ts' b]
      consider "p = ShortCircuitAll" | "p \<noteq> ShortCircuitAll" "\<not> b" | "p \<noteq> ShortCircuitAll" b by blast
      then show ?thesis
      proof cases
        case 1
        then show ?thesis using more x Inr y by (simp add: parse_loop.simps [of _ r] finished_def)
      next
        case 2
        then show ?thesis using more x Inr y ts' stream_ok_front [OF less.prems(2) more]
          by (auto simp: parse_loop.simps [of _ r] finished_def)
      next
        case 3
        then have "stream_size ts' < stream_size ts" using offer_advances x(1) Inr y by fastforce
        from less.hyps [OF this x(2), of p st'] ts' Inr y 3 show ?thesis
          using more x by (simp add: parse_loop.simps [of _ r] finished_def)
      qed
    qed
  qed
qed

text \<open>
  C39: every command line is parsed: for every parser of fewer than 512 options and arguments, and
  every list of arguments, the loops end without a failed assertion, with an error message, or with
  a result after which help was asked for or no token is left over.
\<close>

theorem every_command_line_is_parsed:
  assumes "length (m_options p) + length (m_args p) < 512" and "list_all (\<lambda>a. \<not> isFlag (arg_ref a)) (m_args p)"
  shows "\<exists>x st'. Parser_parse p args st = Some (x, st') \<and> finished x"
proof -
  have "list_all (\<lambda>i. component_ok (fst i)) (parseInfos p)" using assms(2) by (auto simp: parseInfos_def list_all_iff)
  from parse_loop_total [OF this stream_ok_load] show ?thesis using assms(1) by (simp add: Parser_parse_def)
qed

theorem every_command_line_is_parsed_witness:
  "\<exists>x st'. Parser_parse \<lparr>m_options = sample_options, m_args = []\<rparr> [''-vx'', '''', ''-n''] (False, 0, False) = Some (x, st') \<and> finished x"
  by (rule every_command_line_is_parsed) (simp_all add: sample_options_def)

end
