(* ===== verification/Text_Flow.thy ===== *)
theory Text_Flow
  imports Clara "HOL-Library.Sublist"
begin

text \<open>
  The text of the help, \<open>TextFlow\<close> in \<open>src/common/util/clara.hpp\<close> and \<open>writeToStream\<close> of the parser:
  a column wraps its text to a width, columns are printed side by side.  The iterators of the source
  are states; the loops over them are partial functions, because a column of width one does not end
  on a word that cannot be broken.  A failed assertion is \<^term>\<open>None\<close>.
\<close>

section \<open>A column\<close>

definition isWhitespace :: "char \<Rightarrow> bool" where
  "isWhitespace c \<longleftrightarrow> c \<in> set [CHR '' '', CHR 0x09, CHR 0x0A, CHR 0x0D]"

definition isBreakableBefore :: "char \<Rightarrow> bool" where
  "isBreakableBefore c \<longleftrightarrow> c \<in> set ''[({<|''"

definition isBreakableAfter :: "char \<Rightarrow> bool" where
  "isBreakableAfter c \<longleftrightarrow> c \<in> set ''])}>.,:;*+-=&/'' \<or> c = CHR 0x5C"

record Column =
  m_strings :: "string list"
  m_width :: nat
  m_indent :: nat
  m_initialIndent :: "nat option"

record ColumnIterator =
  m_stringIndex :: nat
  m_pos :: nat
  m_len :: nat
  m_end :: nat
  m_suffix :: bool

definition isBoundary :: "string \<Rightarrow> nat \<Rightarrow> bool" where
  "isBoundary line at \<longleftrightarrow> at = length line \<or> (isWhitespace (line ! at) \<and> \<not> isWhitespace (line ! (at - 1))) \<or>
     isBreakableBefore (line ! at) \<or> isBreakableAfter (line ! (at - 1))"

definition column_indent :: "Column \<Rightarrow> nat \<Rightarrow> nat \<Rightarrow> nat" where
  "column_indent col index pos =
     (case (if pos = 0 \<and> index = 0 then m_initialIndent col else None) of None \<Rightarrow> m_indent col | Some n \<Rightarrow> n)"

text \<open>The two loops that look for a break, from \<open>len\<close> downwards.\<close>

fun back_to_boundary :: "string \<Rightarrow> nat \<Rightarrow> nat \<Rightarrow> nat" where
  "back_to_boundary line pos 0 = 0"
| "back_to_boundary line pos (Suc len) =
     (if isBoundary line (pos + Suc len) then Suc len else back_to_boundary line pos len)"

fun back_over_space :: "string \<Rightarrow> nat \<Rightarrow> nat \<Rightarrow> nat" where
  "back_over_space line pos 0 = 0"
| "back_over_space line pos (Suc len) =
     (if isWhitespace (line ! (pos + len)) then back_over_space line pos len else Suc len)"

definition line_end :: "string \<Rightarrow> nat \<Rightarrow> nat" where
  "line_end line pos = pos + length (takeWhile (\<lambda>c. c \<noteq> CHR 0x0A) (drop pos line))"

definition calcLength :: "Column \<Rightarrow> ColumnIterator \<Rightarrow> ColumnIterator option" where
  "calcLength col i =
     (if m_stringIndex i < length (m_strings col)
      then let line = m_strings col ! m_stringIndex i; pos = m_pos i;
               width = m_width col - column_indent col (m_stringIndex i) pos; end' = line_end line pos in
           if end' < pos + width
           then Some (i\<lparr>m_suffix := False, m_end := end', m_len := end' - pos\<rparr>)
           else let len = back_over_space line pos (back_to_boundary line pos width) in
                if len > 0 then Some (i\<lparr>m_suffix := False, m_end := end', m_len := len\<rparr>)
                else Some (i\<lparr>m_suffix := True, m_end := end', m_len := width - 1\<rparr>)
      else None)"

definition column_begin :: "Column \<Rightarrow> ColumnIterator option" where
  "column_begin col =
     (if m_indent col < m_width col \<and> (case m_initialIndent col of None \<Rightarrow> True | Some n \<Rightarrow> n < m_width col)
      then do {
        i \<leftarrow> calcLength col \<lparr>m_stringIndex = 0, m_pos = 0, m_len = 0, m_end = 0, m_suffix = False\<rparr>;
        Some (if m_len i = 0 then i\<lparr>m_stringIndex := m_stringIndex i + 1\<rparr> else i) }
      else None)"

definition column_at_end :: "Column \<Rightarrow> ColumnIterator \<Rightarrow> bool" where
  "column_at_end col i \<longleftrightarrow> m_pos i = 0 \<and> m_stringIndex i = length (m_strings col)"

definition column_deref :: "Column \<Rightarrow> ColumnIterator \<Rightarrow> string option" where
  "column_deref col i =
     (if m_stringIndex i < length (m_strings col) \<and> m_pos i \<le> m_end i
      then let plain = take (m_len i) (drop (m_pos i) (m_strings col ! m_stringIndex i)) in
           Some (replicate (column_indent col (m_stringIndex i) (m_pos i)) CHR '' '' @
             (if m_suffix i then plain @ ''-'' else plain))
      else None)"

definition skip_space :: "string \<Rightarrow> nat \<Rightarrow> nat" where
  "skip_space line pos =
     (if pos < length line \<and> line ! pos = CHR 0x0A then pos + 1
      else pos + length (takeWhile isWhitespace (drop pos line)))"

definition column_next :: "Column \<Rightarrow> ColumnIterator \<Rightarrow> ColumnIterator option" where
  "column_next col i =
     (if m_stringIndex i < length (m_strings col)
      then let line = m_strings col ! m_stringIndex i; pos = skip_space line (m_pos i + m_len i);
               i = (if pos = length line then i\<lparr>m_pos := 0, m_stringIndex := m_stringIndex i + 1\<rparr> else i\<lparr>m_pos := pos\<rparr>) in
           if m_stringIndex i < length (m_strings col) then calcLength col i else Some i
      else None)"

section \<open>Columns side by side\<close>

definition Spacer :: "nat \<Rightarrow> Column" where
  "Spacer w = \<lparr>m_strings = [[]], m_width = w, m_indent = 0, m_initialIndent = None\<rparr>"

text \<open>One row: a column at its end is only padding for what follows.\<close>

fun row_of :: "(Column \<times> ColumnIterator) list \<Rightarrow> string \<Rightarrow> string \<Rightarrow> string option" where
  "row_of [] row padding = Some row"
| "row_of ((col, i) # cols) row padding =
     (if column_at_end col i then row_of cols row (padding @ replicate (m_width col) CHR '' '')
      else do {
        text \<leftarrow> column_deref col i;
        row_of cols (row @ padding @ text)
          (if length text < m_width col then replicate (m_width col - length text) CHR '' '' else []) })"

fun columns_next :: "(Column \<times> ColumnIterator) list \<Rightarrow> (Column \<times> ColumnIterator) list option" where
  "columns_next [] = Some []"
| "columns_next ((col, i) # cols) = do {
     i \<leftarrow> (if column_at_end col i then Some i else column_next col i);
     cols \<leftarrow> columns_next cols;
     Some ((col, i) # cols) }"

partial_function (option) column_rows :: "(Column \<times> ColumnIterator) list \<Rightarrow> string list option" where
  "column_rows cols =
     (if list_all (\<lambda>(col, i). column_at_end col i) cols then Some []
      else Option.bind (row_of cols [] []) (\<lambda>row.
        Option.bind (columns_next cols) (\<lambda>cols'.
          Option.bind (column_rows cols') (\<lambda>rows. Some (row # rows)))))"

fun columns_begin :: "Column list \<Rightarrow> (Column \<times> ColumnIterator) list option" where
  "columns_begin [] = Some []"
| "columns_begin (col # cols) = do { i \<leftarrow> column_begin col; is \<leftarrow> columns_begin cols; Some ((col, i) # is) }"

definition print_columns :: "Column list \<Rightarrow> string list option" where
  "print_columns cols = do { is \<leftarrow> columns_begin cols; column_rows is }"

section \<open>The help of a parser\<close>

definition comma_list :: "string list \<Rightarrow> string" where
  "comma_list names = concat (map2 (\<lambda>i n. (if i = 0 then [] else '', '') @ n) [0..<length names] names)"

definition help_left :: "'s Opt \<Rightarrow> string" where
  "help_left opt = comma_list (m_optNames opt) @ (if m_hint opt = [] then [] else '' <'' @ m_hint opt @ ''>'')"

definition getHelpColumns :: "'s Parser \<Rightarrow> (string \<times> string) list" where
  "getHelpColumns p = map (\<lambda>opt. (help_left opt, m_description opt)) (m_options p)"

definition consoleWidth :: nat where
  "consoleWidth = 80"

definition optWidth :: "(string \<times> string) list \<Rightarrow> nat" where
  "optWidth rows = min (fold (\<lambda>(left, _) w. max w (length left + 2)) rows 0) (consoleWidth div 2)"

definition help_row :: "nat \<Rightarrow> string \<times> string \<Rightarrow> Column list" where
  "help_row w cols =
     [\<lparr>m_strings = [fst cols], m_width = w, m_indent = 2, m_initialIndent = None\<rparr>, Spacer 4,
      \<lparr>m_strings = [snd cols], m_width = consoleWidth - 7 - w, m_indent = 0, m_initialIndent = None\<rparr>]"

text \<open>\<open>ExeName::set\<close>: what follows the last slash or backslash.\<close>

definition exe_filename :: "string \<Rightarrow> string" where
  "exe_filename name = rev (takeWhile (\<lambda>c. c \<noteq> CHR ''/'' \<and> c \<noteq> CHR 0x5C) (rev name))"

fun usage_args :: "'s Arg list \<Rightarrow> bool \<Rightarrow> bool \<Rightarrow> string" where
  "usage_args [] required first = (if required then [] else '']'')"
| "usage_args (a # as) required first =
     (if first then [] else '' '') @ (if arg_optional a \<and> required then ''['' else []) @
     ''<'' @ arg_hint a @ ''>'' @ (if isContainer (arg_ref a) then '' ... '' else []) @
     usage_args as (required \<and> \<not> arg_optional a) False"

definition usage_head :: "'s Parser \<Rightarrow> string \<Rightarrow> string" where
  "usage_head p exe =
     (if exe = [] then []
      else ''usage:'' @ [CHR 0x0A] @ ''  '' @ exe @ '' '' @ usage_args (m_args p) True True @
        (if m_options p = [] then [] else '' options'') @ [CHR 0x0A, CHR 0x0A] @ ''where options are:'' @ [CHR 0x0A])"

fun print_rows :: "nat \<Rightarrow> (string \<times> string) list \<Rightarrow> string list option" where
  "print_rows w [] = Some []"
| "print_rows w (r # rs) = do {
     lines \<leftarrow> print_columns (help_row w r);
     let lines = (if lines = [] then [[]] else lines);
     rest \<leftarrow> print_rows w rs;
     Some (lines @ rest) }"

text \<open>The head, and the lines of the options, each ended by a new line.\<close>

definition writeToStream :: "'s Parser \<Rightarrow> string \<Rightarrow> string option" where
  "writeToStream p exe = (let rows = getHelpColumns p in do {
     lines \<leftarrow> print_rows (optWidth rows) rows;
     Some (usage_head p exe @ concat (map (\<lambda>l. l @ [CHR 0x0A]) lines)) })"

section \<open>The iterator of a column\<close>

abbreviation (input) iter_line :: "Column \<Rightarrow> ColumnIterator \<Rightarrow> string" where
  "iter_line col i \<equiv> m_strings col ! m_stringIndex i"

text \<open>A column that is wide enough for a letter and a hyphen beside its indent.\<close>

definition column_ok :: "Column \<Rightarrow> bool" where
  "column_ok col \<longleftrightarrow> m_indent col + 2 \<le> m_width col \<and> (case m_initialIndent col of None \<Rightarrow> True | Some n \<Rightarrow> n + 2 \<le> m_width col)"

definition iter_ok :: "Column \<Rightarrow> ColumnIterator \<Rightarrow> bool" where
  "iter_ok col i \<longleftrightarrow> column_at_end col i \<or>
     (m_stringIndex i < length (m_strings col) \<and> m_pos i \<le> length (iter_line col i) \<and> calcLength col i = Some i)"

lemma column_indent_less: "column_ok col \<Longrightarrow> column_indent col index pos + 2 \<le> m_width col"
  by (auto simp: column_ok_def column_indent_def split: option.splits)

lemma back_to_boundary_le: "back_to_boundary line pos len \<le> len"
  by (induction len) auto

lemma back_over_space_le: "back_over_space line pos len \<le> len"
  by (induction len) auto

lemma line_end_bounds: "pos \<le> length line \<Longrightarrow> pos \<le> line_end line pos \<and> line_end line pos \<le> length line"
  using length_takeWhile_le [of "\<lambda>c. c \<noteq> CHR 0x0A" "drop pos line"] by (simp add: line_end_def)

lemma calcLength_cases:
  assumes "calcLength col i = Some i'"
  shows "m_stringIndex i' = m_stringIndex i" "m_pos i' = m_pos i" "m_stringIndex i < length (m_strings col)"
    "m_end i' = line_end (iter_line col i) (m_pos i)" "calcLength col i' = Some i'"
  using assms by (auto simp: calcLength_def Let_def split: if_splits)

lemma calcLength_total:
  assumes "m_stringIndex i < length (m_strings col)"
  obtains i' where "calcLength col i = Some i'"
  using assms by (cases "calcLength col i") (auto simp: calcLength_def Let_def split: if_splits)

text \<open>A piece of a line fits into the column, stays in its line, and is empty only where the line ends.\<close>

lemma calcLength_len:
  assumes col: "column_ok col" and pos: "m_pos i \<le> length (iter_line col i)" and calc: "calcLength col i = Some i'"
  shows "m_pos i + m_len i' \<le> length (iter_line col i)"
    and "column_indent col (m_stringIndex i) (m_pos i) + m_len i' + (if m_suffix i' then 1 else 0) \<le> m_width col"
    and "m_len i' = 0 \<Longrightarrow> line_end (iter_line col i) (m_pos i) = m_pos i"
proof -
  let ?line = "iter_line col i" and ?w = "m_width col - column_indent col (m_stringIndex i) (m_pos i)"
  let ?len = "back_over_space ?line (m_pos i) (back_to_boundary ?line (m_pos i) ?w)"
  have w: "2 \<le> ?w" using column_indent_less [OF col, of "m_stringIndex i" "m_pos i"] by simp
  have len: "?len \<le> ?w" using back_over_space_le back_to_boundary_le le_trans by blast
  note e = line_end_bounds [OF pos]
  show "m_pos i + m_len i' \<le> length ?line"
    "column_indent col (m_stringIndex i) (m_pos i) + m_len i' + (if m_suffix i' then 1 else 0) \<le> m_width col"
    "m_len i' = 0 \<Longrightarrow> line_end ?line (m_pos i) = m_pos i"
    using calc e len w by (auto simp: calcLength_def Let_def split: if_splits)
qed

lemma deref_ok:
  assumes "column_ok col" and "iter_ok col i" and "\<not> column_at_end col i"
  obtains t where "column_deref col i = Some t" "length t \<le> m_width col"
    "subseq (take (m_len i) (drop (m_pos i) (iter_line col i))) t"
proof -
  have i: "m_stringIndex i < length (m_strings col)" "m_pos i \<le> length (iter_line col i)" "calcLength col i = Some i"
    using assms(2,3) by (auto simp: iter_ok_def)
  have e: "m_pos i \<le> m_end i" using calcLength_cases(4) [OF i(3)] line_end_bounds [OF i(2)] by simp
  let ?plain = "take (m_len i) (drop (m_pos i) (iter_line col i))"
  let ?t = "replicate (column_indent col (m_stringIndex i) (m_pos i)) CHR '' '' @ (if m_suffix i then ?plain @ ''-'' else ?plain)"
  have "subseq ?plain (if m_suffix i then ?plain @ ''-'' else ?plain)" by auto
  then have "subseq ?plain ?t" by (rule list_emb_append2)
  moreover have "length ?t \<le> m_width col"
    using calcLength_len(1,2) [OF assms(1) i(2,3)] by (auto split: if_splits)
  moreover have "column_deref col i = Some ?t" using i(1) e by (simp add: column_deref_def Let_def)
  ultimately show ?thesis using that by blast
qed

section \<open>Steps of the iterator\<close>

definition nonspace :: "string \<Rightarrow> string" where
  "nonspace s = filter (\<lambda>c. \<not> isWhitespace c) s"

text \<open>What is still to be printed, and a measure of it.\<close>

definition rest_of :: "Column \<Rightarrow> ColumnIterator \<Rightarrow> string" where
  "rest_of col i = (if column_at_end col i then []
     else nonspace (drop (m_pos i) (iter_line col i) @ concat (drop (Suc (m_stringIndex i)) (m_strings col))))"

definition col_left :: "Column \<Rightarrow> ColumnIterator \<Rightarrow> nat" where
  "col_left col i = (\<Sum>s \<leftarrow> drop (m_stringIndex i) (m_strings col). length s + 1) - m_pos i"

lemma nonspace_append [simp]: "nonspace (a @ b) = nonspace a @ nonspace b"
  by (simp add: nonspace_def)

lemma nonspace_skip:
  assumes "pos \<le> length line"
  shows "nonspace (drop (skip_space line pos) line) = nonspace (drop pos line)"
    and "pos \<le> skip_space line pos" and "skip_space line pos \<le> length line"
proof -
  have d: "drop (length (takeWhile isWhitespace xs)) xs = dropWhile isWhitespace xs" for xs :: string
    by (simp add: dropWhile_eq_drop)
  have f: "nonspace (dropWhile isWhitespace xs) = nonspace xs" for xs
    by (induction xs) (auto simp: nonspace_def)
  show "nonspace (drop (skip_space line pos) line) = nonspace (drop pos line)"
  proof (cases "pos < length line \<and> line ! pos = CHR 0x0A")
    case True
    then have "drop pos line = CHR 0x0A # drop (Suc pos) line" by (metis Cons_nth_drop_Suc)
    with True show ?thesis by (simp add: skip_space_def nonspace_def isWhitespace_def)
  next
    case False
    then have "skip_space line pos = pos + length (takeWhile isWhitespace (drop pos line))" by (auto simp: skip_space_def)
    then have "drop (skip_space line pos) line = dropWhile isWhitespace (drop pos line)"
      by (simp add: d [symmetric] add.commute)
    then show ?thesis by (simp add: f)
  qed
  show "pos \<le> skip_space line pos" by (simp add: skip_space_def)
  show "skip_space line pos \<le> length line"
    using assms length_takeWhile_le [of isWhitespace "drop pos line"] by (auto simp: skip_space_def)
qed

lemma skip_space_progress:
  assumes "pos + len \<le> length line" and "len = 0 \<Longrightarrow> line_end line pos = pos" and "pos < length line"
  shows "pos < skip_space line (pos + len)"
proof (cases "len = 0")
  case True
  have "takeWhile (\<lambda>c. c \<noteq> CHR 0x0A) (drop pos line) = []" using assms(2) [OF True] by (simp add: line_end_def)
  moreover have "drop pos line = line ! pos # drop (Suc pos) line" using assms(3) by (simp add: Cons_nth_drop_Suc)
  ultimately have "line ! pos = CHR 0x0A" by (simp split: if_splits)
  then show ?thesis using True assms(3) by (simp add: skip_space_def)
next
  case False
  then show ?thesis using nonspace_skip(2) [OF assms(1)] by simp
qed

lemma next_ok:
  assumes col: "column_ok col" and it: "iter_ok col i" and more: "\<not> column_at_end col i"
  obtains i' where "column_next col i = Some i'" "iter_ok col i'" "col_left col i' < col_left col i"
    "rest_of col i = nonspace (take (m_len i) (drop (m_pos i) (iter_line col i))) @ rest_of col i'"
proof -
  let ?line = "iter_line col i" and ?n = "m_stringIndex i"
  let ?pos = "skip_space ?line (m_pos i + m_len i)"
  have i: "?n < length (m_strings col)" "m_pos i \<le> length ?line" "calcLength col i = Some i"
    using it more by (auto simp: iter_ok_def)
  note len = calcLength_len [OF col i(2,3)]
  note skip = nonspace_skip [OF len(1)]
  have strs: "drop ?n (m_strings col) = ?line # drop (Suc ?n) (m_strings col)"
    using i(1) by (simp add: Cons_nth_drop_Suc)
  have "drop (m_pos i) ?line = take (m_len i) (drop (m_pos i) ?line) @ drop (m_pos i + m_len i) ?line"
    by (metis append_take_drop_id drop_drop add.commute)
  from arg_cong [OF this, of nonspace] have split: "nonspace (drop (m_pos i) ?line) =
      nonspace (take (m_len i) (drop (m_pos i) ?line)) @ nonspace (drop ?pos ?line)" by (simp add: skip(1))
  have rest: "rest_of col i = nonspace (take (m_len i) (drop (m_pos i) ?line)) @
      nonspace (drop ?pos ?line @ concat (drop (Suc ?n) (m_strings col)))"
    using more split by (simp add: rest_of_def)
  show ?thesis
  proof (cases "?pos = length ?line")
    case False
    then have "?pos < length ?line" using skip(3) by simp
    then have lt: "m_pos i < ?pos" using skip(2) skip_space_progress [OF len(1) len(3)] by auto
    from calcLength_total [of "i\<lparr>m_pos := ?pos\<rparr>" col] i(1) obtain i' where
      i': "calcLength col (i\<lparr>m_pos := ?pos\<rparr>) = Some i'" by auto
    note c = calcLength_cases [OF i']
    have "column_next col i = Some i'" using i(1) False i' by (simp add: column_next_def Let_def)
    moreover have "iter_ok col i'" using c skip(3) by (simp add: iter_ok_def)
    moreover have "col_left col i' < col_left col i" using c lt \<open>?pos < length ?line\<close> by (simp add: col_left_def strs)
    moreover have "rest_of col i' = nonspace (drop ?pos ?line @ concat (drop (Suc ?n) (m_strings col)))"
      using c i(1) by (simp add: rest_of_def column_at_end_def)
    ultimately show ?thesis using that rest by simp
  next
    case True
    let ?j = "i\<lparr>m_pos := 0, m_stringIndex := Suc ?n\<rparr>"
    have less: "col_left col ?j < col_left col i" using i(2) by (simp add: col_left_def strs)
    show ?thesis
    proof (cases "Suc ?n < length (m_strings col)")
      case False
      then have "column_next col i = Some ?j" using i(1) True by (simp add: column_next_def Let_def)
      moreover have "column_at_end col ?j" using i(1) False by (simp add: column_at_end_def)
      ultimately show ?thesis using that [of ?j] less rest True False
        by (simp add: iter_ok_def rest_of_def nonspace_def)
    next
      case inside: True
      with calcLength_total [of ?j col] obtain i' where i': "calcLength col ?j = Some i'" by auto
      note c = calcLength_cases [OF i']
      have "column_next col i = Some i'" using i(1) True inside i' by (simp add: column_next_def Let_def)
      moreover have "iter_ok col i'" using c by (simp add: iter_ok_def)
      moreover have "col_left col i' < col_left col i" using less c by (simp add: col_left_def)
      moreover have "rest_of col i' = nonspace (concat (drop (Suc ?n) (m_strings col)))"
        using c inside Cons_nth_drop_Suc [OF inside] by (simp add: rest_of_def column_at_end_def) (metis concat.simps(2) nonspace_append)
      ultimately show ?thesis using that rest True by simp
    qed
  qed
qed

section \<open>Rows of columns\<close>

definition columns_ok :: "(Column \<times> ColumnIterator) list \<Rightarrow> bool" where
  "columns_ok cols \<longleftrightarrow> list_all (\<lambda>(col, i). column_ok col \<and> iter_ok col i) cols"

text \<open>What a column contributes to a row.\<close>

definition piece_of :: "Column \<times> ColumnIterator \<Rightarrow> string" where
  "piece_of ci = (case ci of (col, i) \<Rightarrow>
     if column_at_end col i then [] else nonspace (take (m_len i) (drop (m_pos i) (iter_line col i))))"

lemma subseq_nonspace: "subseq (nonspace s) s"
  by (simp add: nonspace_def)

lemma row_of_ok:
  "columns_ok cols \<Longrightarrow> \<exists>out. row_of cols row padding = Some (row @ out) \<and>
     length out \<le> length padding + (\<Sum>(col, i) \<leftarrow> cols. m_width col) \<and> (\<forall>ci \<in> set cols. subseq (piece_of ci) out)"
proof (induction cols arbitrary: row padding)
  case (Cons ci cols)
  obtain col i where ci: "ci = (col, i)" by fastforce
  have ok: "column_ok col" "iter_ok col i" "columns_ok cols" using Cons.prems by (simp_all add: columns_ok_def ci)
  show ?case
  proof (cases "column_at_end col i")
    case True
    then show ?thesis using Cons.IH [OF ok(3), of row "padding @ replicate (m_width col) CHR '' ''"]
      by (auto simp: ci piece_of_def)
  next
    case False
    from deref_ok [OF ok(1,2) False] obtain t where
      t: "column_deref col i = Some t" "length t \<le> m_width col" "subseq (take (m_len i) (drop (m_pos i) (iter_line col i))) t" .
    let ?pad = "if length t < m_width col then replicate (m_width col - length t) CHR '' '' else []"
    from Cons.IH [OF ok(3), of "row @ padding @ t" ?pad] obtain out where
      tx: "row_of cols (row @ padding @ t) ?pad = Some ((row @ padding @ t) @ out)"
      "length out \<le> length ?pad + (\<Sum>(col, i) \<leftarrow> cols. m_width col)" "\<forall>ci \<in> set cols. subseq (piece_of ci) out" by blast
    have "subseq (piece_of ci) t" using t(3) subseq_nonspace subseq_order.trans False by (auto simp: ci piece_of_def)
    then have "subseq (piece_of ci) (padding @ t @ out)" by auto
    moreover have "length t + length out \<le> m_width col + (\<Sum>(col, i) \<leftarrow> cols. m_width col)"
      using tx(2) t(2) by (simp split: if_splits)
    moreover have "subseq (piece_of x) (padding @ t @ out)" if "x \<in> set cols" for x using tx(3) that by auto
    ultimately show ?thesis using False t(1,2) tx
      by (intro exI [of _ "padding @ t @ out"]) (auto simp: ci)
  qed
qed simp

lemma columns_next_ok:
  "columns_ok cols \<Longrightarrow> \<exists>cols'. columns_next cols = Some cols' \<and> columns_ok cols' \<and>
     list_all2 (\<lambda>(col, i) (col', i'). col' = col \<and> rest_of col i = piece_of (col, i) @ rest_of col i' \<and>
       (if column_at_end col i then i' = i else col_left col i' < col_left col i)) cols cols'"
proof (induction cols)
  case (Cons ci cols)
  obtain col i where ci: "ci = (col, i)" by fastforce
  have ok: "column_ok col" "iter_ok col i" "columns_ok cols" using Cons.prems by (simp_all add: columns_ok_def ci)
  from Cons.IH [OF ok(3)] obtain cols' where
    cols': "columns_next cols = Some cols'" "columns_ok cols'"
    "list_all2 (\<lambda>(col, i) (col', i'). col' = col \<and> rest_of col i = piece_of (col, i) @ rest_of col i' \<and>
       (if column_at_end col i then i' = i else col_left col i' < col_left col i)) cols cols'" by blast
  show ?case
  proof (cases "column_at_end col i")
    case True
    then show ?thesis using cols' ok by (auto simp: ci columns_ok_def piece_of_def rest_of_def)
  next
    case False
    from next_ok [OF ok(1,2) False] obtain i' where
      "column_next col i = Some i'" "iter_ok col i'" "col_left col i' < col_left col i"
      "rest_of col i = nonspace (take (m_len i) (drop (m_pos i) (iter_line col i))) @ rest_of col i'" .
    then show ?thesis using cols' ok False by (auto simp: ci columns_ok_def piece_of_def)
  qed
qed simp

definition columns_left :: "(Column \<times> ColumnIterator) list \<Rightarrow> nat" where
  "columns_left cols = (\<Sum>(col, i) \<leftarrow> cols. col_left col i)"

lemma columns_left_less:
  assumes "list_all2 (\<lambda>(col, i) (col', i'). col' = col \<and> rest_of col i = piece_of (col, i) @ rest_of col i' \<and>
       (if column_at_end col i then i' = i else col_left col i' < col_left col i)) cols cols'"
  shows "columns_left cols' \<le> columns_left cols"
    and "\<not> list_all (\<lambda>(col, i). column_at_end col i) cols \<Longrightarrow> columns_left cols' < columns_left cols"
    and "(\<Sum>(col, i) \<leftarrow> cols'. m_width col) = (\<Sum>(col, i) \<leftarrow> cols. m_width col)"
  using assms
proof (induction cols cols' rule: list_all2_induct)
  case (Cons x xs y ys)
  { case 1 show ?case using Cons by (auto simp: columns_left_def split: if_splits) }
  { case 2 then show ?case using Cons by (auto simp: columns_left_def split: if_splits) }
  { case 3 show ?case using Cons by auto }
qed (simp_all add: columns_left_def)

lemma column_rows_ok:
  "columns_ok cols \<Longrightarrow> \<exists>rows. column_rows cols = Some rows \<and>
     (\<forall>row \<in> set rows. length row \<le> (\<Sum>(col, i) \<leftarrow> cols. m_width col)) \<and>
     list_all (\<lambda>(col, i). subseq (rest_of col i) (concat rows)) cols"
proof (induction "columns_left cols" arbitrary: cols rule: less_induct)
  case less
  show ?case
  proof (cases "list_all (\<lambda>(col, i). column_at_end col i) cols")
    case True
    then show ?thesis by (auto simp: column_rows.simps rest_of_def list_all_iff)
  next
    case False
    from columns_next_ok [OF less.prems] obtain cols' where
      step: "columns_next cols = Some cols'" "columns_ok cols'" and
      rel: "list_all2 (\<lambda>(col, i) (col', i'). col' = col \<and> rest_of col i = piece_of (col, i) @ rest_of col i' \<and>
       (if column_at_end col i then i' = i else col_left col i' < col_left col i)) cols cols'" by blast
    from less.hyps [OF columns_left_less(2) [OF rel False] step(2)] obtain rows where
      rows: "column_rows cols' = Some rows" "\<forall>row \<in> set rows. length row \<le> (\<Sum>(col, i) \<leftarrow> cols'. m_width col)"
      "list_all (\<lambda>(col, i). subseq (rest_of col i) (concat rows)) cols'" by blast
    from row_of_ok [OF less.prems, of "[]" "[]"] obtain row where
      row: "row_of cols [] [] = Some row" "length row \<le> (\<Sum>(col, i) \<leftarrow> cols. m_width col)"
      "\<forall>ci \<in> set cols. subseq (piece_of ci) row" by auto
    have "list_all (\<lambda>(col, i). subseq (rest_of col i) (row @ concat rows)) cols"
    proof (unfold list_all_length, intro allI impI)
      fix k
      assume k: "k < length cols"
      obtain col i where ci: "cols ! k = (col, i)" by fastforce
      obtain col' i' where ci': "cols' ! k = (col', i')" by fastforce
      have "col' = col" "rest_of col i = piece_of (col, i) @ rest_of col i'"
        using list_all2_nthD [OF rel k] by (simp_all add: ci ci')
      moreover have "subseq (rest_of col' i') (concat rows)"
        using rows(3) k list_all2_lengthD [OF rel] ci' by (auto simp: list_all_length)
      moreover have "subseq (piece_of (col, i)) row" using row(3) nth_mem [OF k] ci by simp
      ultimately show "case cols ! k of (col, i) \<Rightarrow> subseq (rest_of col i) (row @ concat rows)"
        by (simp add: ci list_emb_append_mono)
    qed
    with rows row step False columns_left_less(3) [OF rel] show ?thesis
      by (intro exI [of _ "row # rows"]) (simp add: column_rows.simps [of cols])
  qed
qed

text \<open>The start of a column; a text that starts with a new line would be lost.\<close>

lemma column_begin_ok:
  assumes "column_ok col" and "m_strings col = [s]" and "s = [] \<or> hd s \<noteq> CHR 0x0A"
  obtains i where "column_begin col = Some i" "iter_ok col i" "rest_of col i = nonspace s"
proof -
  let ?i = "\<lparr>m_stringIndex = 0, m_pos = 0, m_len = 0, m_end = 0, m_suffix = False\<rparr>"
  from calcLength_total [of ?i col] assms(2) obtain i where i: "calcLength col ?i = Some i" by auto
  note c = calcLength_cases [OF i]
  have ind: "m_indent col < m_width col" "case m_initialIndent col of None \<Rightarrow> True | Some n \<Rightarrow> n < m_width col"
    using assms(1) by (auto simp: column_ok_def split: option.splits)
  show ?thesis
  proof (cases "m_len i = 0")
    case True
    then have "line_end s 0 = 0" using calcLength_len(3) [OF assms(1) _ i] assms(2) by simp
    then have "s = []" using assms(3) by (cases s) (auto simp: line_end_def)
    then show ?thesis using that [of "i\<lparr>m_stringIndex := m_stringIndex i + 1\<rparr>"] ind i c True assms(2)
      by (auto simp: column_begin_def iter_ok_def rest_of_def column_at_end_def nonspace_def)
  next
    case False
    then show ?thesis using that [of i] ind i c assms(2)
      by (simp add: column_begin_def iter_ok_def rest_of_def column_at_end_def)
  qed
qed

section \<open>The help is complete\<close>

lemma optWidth_fold: "w \<le> fold (\<lambda>(left :: string, r :: string) w. max w (length left + 2)) rows w \<and>
    (\<forall>(left, right) \<in> set rows. length left + 2 \<le> fold (\<lambda>(left, r) w. max w (length left + 2)) rows w)"
proof (induction rows arbitrary: w)
  case (Cons r rows)
  obtain left right where r: "r = (left, right)" by fastforce
  from Cons.IH [of "max w (length left + 2)"] show ?case by (auto simp: r)
qed simp

text \<open>A row that can be printed: a name and a description that do not start with a new line.\<close>

definition row_ok :: "string \<times> string \<Rightarrow> bool" where
  "row_ok r \<longleftrightarrow> 2 \<le> length (fst r) \<and> hd (fst r) \<noteq> CHR 0x0A \<and> (if snd r = [] then True else hd (snd r) \<noteq> CHR 0x0A)"

lemma optWidth_bounds: "r \<in> set rows \<Longrightarrow> row_ok r \<Longrightarrow> 4 \<le> optWidth rows \<and> optWidth rows \<le> 40"
  using optWidth_fold [of 0 rows] by (auto simp: optWidth_def consoleWidth_def row_ok_def)

lemma help_row_prints:
  assumes w: "4 \<le> w" "w \<le> 40" and r: "row_ok r"
  obtains lines where "print_columns (help_row w r) = Some lines" "\<forall>l \<in> set lines. length l \<le> 77"
    "subseq (nonspace (fst r)) (concat lines)" "subseq (nonspace (snd r)) (concat lines)"
proof -
  let ?a = "\<lparr>m_strings = [fst r], m_width = w, m_indent = 2, m_initialIndent = None\<rparr>"
    and ?b = "Spacer 4"
    and ?c = "\<lparr>m_strings = [snd r], m_width = consoleWidth - 7 - w, m_indent = 0, m_initialIndent = None\<rparr>"
  have ok: "column_ok ?a" "column_ok ?b" "column_ok ?c"
    using w by (simp_all add: column_ok_def Spacer_def consoleWidth_def)
  obtain i where i: "column_begin ?a = Some i" "iter_ok ?a i" "rest_of ?a i = nonspace (fst r)"
    using column_begin_ok [OF ok(1), of "fst r"] r by (auto simp: row_ok_def)
  obtain j where j: "column_begin ?b = Some j" "iter_ok ?b j"
    using column_begin_ok [OF ok(2), of "[]"] by (auto simp: Spacer_def)
  obtain k where k: "column_begin ?c = Some k" "iter_ok ?c k" "rest_of ?c k = nonspace (snd r)"
    using column_begin_ok [OF ok(3), of "snd r"] r by (auto simp: row_ok_def split: if_splits)
  have begin': "columns_begin (help_row w r) = Some [(?a, i), (?b, j), (?c, k)]" using i j k by (simp add: help_row_def)
  have "columns_ok [(?a, i), (?b, j), (?c, k)]" using i j k ok by (simp add: columns_ok_def)
  from column_rows_ok [OF this] obtain lines where
    lines: "column_rows [(?a, i), (?b, j), (?c, k)] = Some lines" "\<forall>l \<in> set lines. length l \<le> w + (4 + (73 - w))"
    "subseq (rest_of ?a i) (concat lines)" "subseq (rest_of ?c k) (concat lines)"
    by (auto simp: Spacer_def consoleWidth_def)
  have "print_columns (help_row w r) = Some lines" using begin' lines(1) by (simp add: print_columns_def)
  with that lines w i(3) k(3) show ?thesis by auto
qed

definition shows_row :: "string list \<Rightarrow> string \<times> string \<Rightarrow> bool" where
  "shows_row lines r \<longleftrightarrow> subseq (nonspace (fst r)) (concat lines) \<and> subseq (nonspace (snd r)) (concat lines)"

lemma print_rows_ok:
  assumes w: "rows \<noteq> [] \<Longrightarrow> 4 \<le> w \<and> w \<le> 40" and "list_all row_ok rows"
  shows "\<exists>lines. print_rows w rows = Some lines \<and> list_all (\<lambda>l. length l \<le> 77) lines \<and> list_all (shows_row lines) rows"
  using assms
proof (induction rows)
  case (Cons r rows)
  from Cons obtain rest where
    rest: "print_rows w rows = Some rest" "list_all (\<lambda>l. length l \<le> 77) rest" "list_all (shows_row rest) rows" by auto
  have wr: "4 \<le> w" "w \<le> 40" "row_ok r" using Cons.prems by simp_all
  from help_row_prints [OF wr] obtain lines where
    lines: "print_columns (help_row w r) = Some lines" "\<forall>l \<in> set lines. length l \<le> 77"
    "subseq (nonspace (fst r)) (concat lines)" "subseq (nonspace (snd r)) (concat lines)" .
  let ?lines = "if lines = [] then [[]] else lines"
  have cat: "concat ?lines = concat lines" by simp
  have "shows_row (?lines @ rest) r" using lines(3,4) cat by (simp add: shows_row_def subseq_rev_drop_many)
  moreover have "list_all (shows_row (?lines @ rest)) rows" using rest(3) by (auto simp: shows_row_def list_all_iff)
  moreover have "list_all (\<lambda>l. length l \<le> 77) (?lines @ rest)" using lines(2) rest(2) by (auto simp: list_all_iff)
  moreover have "print_rows w (r # rows) = Some (?lines @ rest)" using lines(1) rest(1) by (simp add: Let_def)
  ultimately show ?case by (intro exI [of _ "?lines @ rest"]) simp
qed simp

lemma writeToStream_complete:
  assumes "list_all row_ok (getHelpColumns p)"
  shows "\<exists>lines. writeToStream p exe = Some (usage_head p exe @ concat (map (\<lambda>l. l @ [CHR 0x0A]) lines)) \<and>
    list_all (\<lambda>l. length l \<le> 77) lines \<and> list_all (shows_row lines) (getHelpColumns p)"
proof -
  have "4 \<le> optWidth (getHelpColumns p) \<and> optWidth (getHelpColumns p) \<le> 40" if "getHelpColumns p \<noteq> []"
    using that assms optWidth_bounds [of "hd (getHelpColumns p)" "getHelpColumns p"] by (auto simp: list_all_iff)
  from print_rows_ok [OF this assms] show ?thesis by (auto simp: writeToStream_def Let_def)
qed

text \<open>
  C40: the help fits the console and leaves nothing out: for every parser whose options have a name of
  two characters and texts that do not start with a new line, printing the help ends, no line of the
  table is longer than 77 characters, and the names, the hint and the description of every option
  appear in it, letter by letter and in order.
\<close>

theorem help_is_complete:
  assumes "list_all row_ok (getHelpColumns p)"
  shows "\<exists>lines. writeToStream p exe = Some (usage_head p exe @ concat (map (\<lambda>l. l @ [CHR 0x0A]) lines)) \<and>
    list_all (\<lambda>l. length l \<le> 77) lines \<and> list_all (shows_row lines) (getHelpColumns p)"
  by (rule writeToStream_complete [OF assms])

theorem help_is_complete_witness:
  "\<exists>lines. writeToStream \<lparr>m_options = sample_options, m_args = []\<rparr> ''cli'' =
      Some (usage_head \<lparr>m_options = sample_options, m_args = []\<rparr> ''cli'' @ concat (map (\<lambda>l. l @ [CHR 0x0A]) lines)) \<and>
    list_all (\<lambda>l. length l \<le> 77) lines \<and>
    shows_row lines (''-?, -h, --help'', ''display usage information'')"
proof -
  let ?p = "\<lparr>m_options = sample_options, m_args = []\<rparr>"
  have rows: "getHelpColumns ?p =
      [(''-?, -h, --help'', ''display usage information''), (''-n, --number <8>'', []), (''-v'', [])]" by code_simp
  have "list_all row_ok (getHelpColumns ?p)" unfolding rows by code_simp
  from help_is_complete [OF this, of "''cli''"] show ?thesis unfolding rows by auto
qed

end
