(* ===== verification/Service.thy ===== *)
theory Service
  imports Peer_Listener End_To_End Log_Line
begin

text \<open>
  The server process as a whole: \<open>main\<close> of \<open>src/service/main.cpp\<close>, the loops that accept connections
  (\<open>tcp/server.cpp\<close>, \<open>tcp/notifier.cpp\<close>), TLS, and the connections that are served side by side.
  Coroutines are scheduled at the granularity of a document: the event loop runs \<open>respond\<close> of any
  connection, accepts, or stops, in any order.  Reading is local to its connection and the storage
  serialises its methods, so that this covers the orders in which several threads run the event loop.

  A coroutine is spawned with \<open>boost::asio::detached\<close>, which discards an exception that leaves it.
\<close>

section \<open>Opening a connection\<close>

text \<open>
  Without TLS the bytes are taken as they arrive.  With TLS they pass a handshake, a parameter that
  returns the pieces of the decrypted stream; it is undefined when the context cannot be created or
  the handshake fails, and then the connection is closed.
\<close>

type_synonym tls = "(bytes list \<Rightarrow> bytes list option) option"

definition plain_stream :: "tls \<Rightarrow> bytes list \<Rightarrow> bytes list option" where
  "plain_stream tls wire = (case tls of None \<Rightarrow> Some wire | Some handshake \<Rightarrow> handshake wire)"

definition open_session :: "tls \<Rightarrow> bytes list \<Rightarrow> Socket option" where
  "open_session tls wire =
     map_option (\<lambda>segs. \<lparr>incoming = segs, outgoing = [], is_open = True\<rparr>) (plain_stream tls wire)"

section \<open>The event loop\<close>

text \<open>
  The sessions of the TCP service are numbered in the order in which they were accepted; a session
  that has ended keeps what was written to it.  A peer has the address of its \<open>Listener\<close>.
\<close>

record ('s, 't, 'x, 'q) Service =
  svc_server :: "('s, 't, 'x, 'q) Server"
  tcp_listening :: bool
  accepted :: nat
  sessions :: "nat \<Rightarrow> Socket option"
  notify_listening :: bool
  peer_sockets :: "u64 \<Rightarrow> Socket option"
  ioc_stopped :: bool

text \<open>\<open>tcp::start\<close> and \<open>tcp::notifier\<close> spawn the listeners; one whose port cannot be bound ends at once.\<close>

definition Service_start ::
  "('s, 't, 'x, 'q) Env \<Rightarrow> bool \<Rightarrow> bool \<Rightarrow> ('s, 't, 'x, 'q) Server \<Rightarrow> ('s, 't, 'x, 'q) Service" where
  "Service_start X tcp_bound notify_bound srv =
     \<lparr>svc_server = srv, tcp_listening = tcp_bound, accepted = 0, sessions = Map.empty,
      notify_listening = (peers (conf (ext X)) \<noteq> [] \<and> notify_bound), peer_sockets = Map.empty, ioc_stopped = False\<rparr>"

text \<open>\<open>listener\<close> of the TCP service: a connection is accepted, or accepting throws.\<close>

definition tcp_accept :: "tls \<Rightarrow> bytes list option \<Rightarrow> ('s, 't, 'x, 'q) Service \<Rightarrow> ('s, 't, 'x, 'q) Service" where
  "tcp_accept tls arrival S =
     (if \<not> tcp_listening S then S
      else case arrival of
             None \<Rightarrow> S\<lparr>tcp_listening := False\<rparr>
           | Some wire \<Rightarrow> S\<lparr>sessions := (sessions S)(accepted S := open_session tls wire), accepted := Suc (accepted S)\<rparr>)"

text \<open>One round of the loop of \<open>serve\<close>; the end of the stream ends the session.\<close>

definition session_turn ::
  "('s, 't, 'x, 'q) Env \<Rightarrow> nat \<Rightarrow> ('s, 't, 'x, 'q) Service \<Rightarrow> ('s, 't, 'x, 'q) Service option" where
  "session_turn X c S =
     (case sessions S c of
        None \<Rightarrow> Some S
      | Some sock \<Rightarrow>
          if \<not> is_open sock then Some S
          else case tcp_respond X sock (svc_server S) of
                 Inl Eof \<Rightarrow> Some (S\<lparr>sessions := (sessions S)(c \<mapsto> close_socket sock)\<rparr>)
               | Inl Abnormal \<Rightarrow> None
               | Inr (sock', srv') \<Rightarrow> Some (S\<lparr>sessions := (sessions S)(c \<mapsto> sock'), svc_server := srv'\<rparr>))"

text \<open>
  \<open>listener\<close> of the notifier: the address of the peer is logged before the connection is served,
  which throws when the peer has left in the meantime.  The \<open>Listener\<close> is created at an unused
  address \<open>p\<close>.
\<close>

datatype peer_arrival = PeerFails | PeerGone | PeerThere "bytes list"

definition peer_accept ::
  "('s, 't, 'x, 'q) Env \<Rightarrow> tls \<Rightarrow> peer_arrival \<Rightarrow> u64 \<Rightarrow> int \<Rightarrow> ('s, 't, 'x, 'q) Service \<Rightarrow> ('s, 't, 'x, 'q) Service" where
  "peer_accept X tls arrival p at S =
     (if \<not> notify_listening S then S
      else case arrival of
             PeerFails \<Rightarrow> S\<lparr>notify_listening := False\<rparr>
           | PeerGone \<Rightarrow> S\<lparr>notify_listening := False\<rparr>
           | PeerThere wire \<Rightarrow>
               (case open_session tls wire of
                  None \<Rightarrow> S
                | Some sock \<Rightarrow>
                    if listeners (srv_signals (svc_server S)) p \<noteq> None then S
                    else S\<lparr>svc_server := (svc_server S)\<lparr>srv_signals :=
                             Listener_new (platform X) at p (srv_signals (svc_server S))\<rparr>,
                           peer_sockets := (peer_sockets S)(p \<mapsto> sock)\<rparr>))"

text \<open>One round of the loop of the notifier for the peer at \<open>p\<close>.\<close>

definition peer_turn ::
  "('s, 't, 'x, 'q) Env \<Rightarrow> u64 \<Rightarrow> int \<Rightarrow> ('s, 't, 'x, 'q) Service \<Rightarrow> ('s, 't, 'x, 'q) Service" where
  "peer_turn X p at S =
     (case (listeners (srv_signals (svc_server S)) p, peer_sockets S p) of
        (Some l, Some sock) \<Rightarrow>
          let (l', sock') = notifier_respond (platform X) at l sock; sg = srv_signals (svc_server S) in
          S\<lparr>svc_server := (svc_server S)\<lparr>srv_signals := sg\<lparr>listeners := (listeners sg)(p \<mapsto> l')\<rparr>\<rparr>,
            peer_sockets := (peer_sockets S)(p \<mapsto> sock')\<rparr>
      | _ \<Rightarrow> S)"

datatype event =
    Accept "bytes list option"
  | Turn nat
  | PeerAccept peer_arrival u64 int
  | PeerTurn u64 int
  | Stop

definition service_event ::
  "('s, 't, 'x, 'q) Env \<Rightarrow> tls \<Rightarrow> event \<Rightarrow> ('s, 't, 'x, 'q) Service \<Rightarrow> ('s, 't, 'x, 'q) Service option" where
  "service_event X tls e S =
     (if ioc_stopped S then Some S
      else case e of
             Accept arrival \<Rightarrow> Some (tcp_accept tls arrival S)
           | Turn c \<Rightarrow> session_turn X c S
           | PeerAccept arrival p at \<Rightarrow> Some (peer_accept X tls arrival p at S)
           | PeerTurn p at \<Rightarrow> Some (peer_turn X p at S)
           | Stop \<Rightarrow> Some (S\<lparr>ioc_stopped := True\<rparr>))"

fun service_run ::
  "('s, 't, 'x, 'q) Env \<Rightarrow> tls \<Rightarrow> event list \<Rightarrow> ('s, 't, 'x, 'q) Service \<Rightarrow> ('s, 't, 'x, 'q) Service option" where
  "service_run X tls [] S = Some S"
| "service_run X tls (e # es) S = do { S \<leftarrow> service_event X tls e S; service_run X tls es S }"

section \<open>Clients of a map\<close>

text \<open>
  The specification: clients with the operations they still have to be answered, one map for all of
  them, and what each has been told.  Peers and the notifier do not show.
\<close>

record Clients =
  shared :: kv_map
  admitting :: bool
  admitted :: nat
  waiting :: "nat \<Rightarrow> operation list option"
  told :: "nat \<Rightarrow> ResultVariant list"
  halted :: bool

definition Clients_start :: "bool \<Rightarrow> kv_map \<Rightarrow> Clients" where
  "Clients_start bound m = \<lparr>shared = m, admitting = bound, admitted = 0, waiting = Map.empty, told = (\<lambda>_. []), halted = False\<rparr>"

datatype client_event = Join "operation list option" | Refuse | Serve nat | Unrelated | Halt

fun client_step :: "client_event \<Rightarrow> Clients \<Rightarrow> Clients" where
  "client_step (Join ops) T =
     (if admitting T then T\<lparr>waiting := (waiting T)(admitted T := ops), admitted := Suc (admitted T)\<rparr> else T)"
| "client_step Refuse T = T\<lparr>admitting := False\<rparr>"
| "client_step (Serve c) T =
     (case waiting T c of
        Some (p # ps) \<Rightarrow>
          T\<lparr>shared := op_next p (shared T), waiting := (waiting T)(c \<mapsto> ps),
            told := (told T)(c := told T c @ [op_response p (shared T)])\<rparr>
      | _ \<Rightarrow> T)"
| "client_step Unrelated T = T"
| "client_step Halt T = T\<lparr>halted := True\<rparr>"

fun client_steps :: "client_event list \<Rightarrow> Clients \<Rightarrow> Clients" where
  "client_steps [] T = T"
| "client_steps (e # es) T = client_steps es (if halted T then T else client_step e T)"

text \<open>The stream of a client that sends the requests of its operations, and the events that correspond.\<close>

definition sends :: "FlatBuffers \<Rightarrow> operation list \<Rightarrow> bytes list \<Rightarrow> bool" where
  "sends fb ops segs \<longleftrightarrow> list_all op_small ops \<and>
     (\<exists>segss. list_all2 delivered (map (\<lambda>p. FinishRequest fb (op_request p)) ops) segss \<and> segs = concat segss)"

definition stands_for :: "FlatBuffers \<Rightarrow> tls \<Rightarrow> client_event \<Rightarrow> event \<Rightarrow> bool" where
  "stands_for fb tls ce e \<longleftrightarrow>
     (case e of
        Accept None \<Rightarrow> ce = Refuse
      | Accept (Some wire) \<Rightarrow>
          (case plain_stream tls wire of None \<Rightarrow> ce = Join None | Some segs \<Rightarrow> \<exists>ops. ce = Join (Some ops) \<and> sends fb ops segs)
      | Turn c \<Rightarrow> ce = Serve c
      | PeerAccept _ _ _ \<Rightarrow> ce = Unrelated
      | PeerTurn _ _ \<Rightarrow> ce = Unrelated
      | Stop \<Rightarrow> ce = Halt)"

definition response_bytes :: "('s, 't, 'x, 'q) Env \<Rightarrow> ResultVariant \<Rightarrow> bytes" where
  "response_bytes X r = outgoing (write_response X r \<lparr>incoming = [], outgoing = [], is_open = True\<rparr>)"

lemma outgoing_write_response: "outgoing (write_response X r sock) = outgoing sock @ response_bytes X r"
  by (simp add: response_bytes_def write_response_def write_builder_def async_write_def Let_def)

lemma is_open_write_response: "is_open (write_response X r sock) = is_open sock"
  by (simp add: write_response_def write_builder_def async_write_def Let_def)

lemma response_bytes_frame:
  "response_fits (fbs X) r \<Longrightarrow> response_bytes X r = frame_bytes (FinishResponse (fbs X) r)"
  by (simp add: response_bytes_def write_response_frame)

section \<open>Simulation\<close>

text \<open>A session and its client.\<close>

definition session_rel ::
  "('s, 't, 'x, 'q) Env \<Rightarrow> operation list option \<Rightarrow> ResultVariant list \<Rightarrow> Socket option \<Rightarrow> bool" where
  "session_rel X w t s \<longleftrightarrow>
     (case (w, s) of
        (None, None) \<Rightarrow> t = []
      | (Some ops, Some sock) \<Rightarrow> outgoing sock = concat (map (response_bytes X) t) \<and>
          (if is_open sock then sends (fbs X) ops (incoming sock) else ops = [])
      | _ \<Rightarrow> False)"

lemma session_rel_cases:
  assumes "session_rel X w t s"
  obtains (absent) "w = None" "s = None" "t = []"
  | (open_session) ops sock where "w = Some ops" "s = Some sock" "is_open sock" "sends (fbs X) ops (incoming sock)"
      "outgoing sock = concat (map (response_bytes X) t)"
  | (closed) sock where "w = Some []" "s = Some sock" "\<not> is_open sock" "outgoing sock = concat (map (response_bytes X) t)"
  using assms by (auto simp: session_rel_def split: option.splits if_splits)

lemma sends_Nil: "sends fb [] segs \<longleftrightarrow> segs = []"
  by (simp add: sends_def)

lemma sends_Cons:
  assumes "sends fb (p # ps) segs"
  obtains s rest where "delivered (FinishRequest fb (op_request p)) s" "segs = s @ rest" "sends fb ps rest" "op_small p"
proof -
  from assms obtain s segss where "delivered (FinishRequest fb (op_request p)) s" "segs = s @ concat segss"
    "list_all2 delivered (map (\<lambda>p. FinishRequest fb (op_request p)) ps) segss" "op_small p" "list_all op_small ps"
    by (auto simp: sends_def list_all2_Cons1)
  then show ?thesis by (intro that [of s "concat segss"]) (auto simp: sends_def)
qed

lemma signals_inv_serve:
  assumes "signals_inv P sg" and "listeners sg p = Some l"
  shows "signals_inv P (sg\<lparr>listeners := (listeners sg)(p \<mapsto> l')\<rparr>)"
proof -
  have "dom (listeners (sg\<lparr>listeners := (listeners sg)(p \<mapsto> l')\<rparr>)) = dom (listeners sg)" using assms(2) by auto
  with assms(1) show ?thesis by (simp add: signals_inv_def)
qed

context server
begin

definition service_rel :: "Clients \<Rightarrow> ('s, 't, 'x, 'q) Service \<Rightarrow> bool" where
  "service_rel T S \<longleftrightarrow> (\<exists>a. srv_inv a (svc_server S) \<and> vals a = shared T) \<and>
     admitting T = tcp_listening S \<and> admitted T = accepted S \<and> halted T = ioc_stopped S \<and>
     (\<forall>c \<ge> admitted T. waiting T c = None) \<and>
     (\<forall>c. session_rel X (waiting T c) (told T c) (sessions S c))"

lemma service_relE:
  assumes "service_rel T S"
  obtains a where "srv_inv a (svc_server S)" "vals a = shared T"
    "admitting T = tcp_listening S" "admitted T = accepted S" "halted T = ioc_stopped S"
    "\<And>c. admitted T \<le> c \<Longrightarrow> waiting T c = None"
    "\<And>c. session_rel X (waiting T c) (told T c) (sessions S c)"
  using assms by (auto simp: service_rel_def)

text \<open>One document of a session is one operation of its client.\<close>

lemma respond_operation:
  assumes inv: "srv_inv a srv" and clk: "clock_ok" and sends: "sends (fbs X) (p # ps) (incoming sock)"
  obtains sock' srv' b where "tcp_respond X sock srv = Inr (sock', srv')" "srv_inv b srv'" "vals b = op_next p (vals a)"
    "sends (fbs X) ps (incoming sock')" "is_open sock' = is_open sock"
    "outgoing sock' = outgoing sock @ response_bytes X (op_response p (vals a))"
proof -
  from sends_Cons [OF sends] obtain s rest where
    d: "delivered (FinishRequest (fbs X) (op_request p)) s" "incoming sock = s @ rest" "sends (fbs X) ps rest" "op_small p" .
  let ?r = "op_response p (vals a)" and ?sock = "sock\<lparr>incoming := rest\<rparr>"
  from process_operation [OF inv clk d(4), of "FinishRequest (fbs X) (op_request p)"] obtain srv' b where
    run: "\<And>sock. tcp_process (FinishRequest (fbs X) (op_request p)) X (op_request p) sock srv = Some (write_response X ?r sock, srv')"
    and b: "srv_inv b srv'" "vals b = op_next p (vals a)" by blast
  have "tcp_respond X sock srv = Inr (write_response X ?r ?sock, srv')"
    using tcp_respond_frame [OF d(1,2), of X srv] by (simp add: handle_request run or_abnormal_def)
  from that [OF this b] d(3) show ?thesis by (simp add: outgoing_write_response is_open_write_response)
qed

lemma turn_simulates:
  assumes rel: "service_rel T S" and clk: "clock_ok"
  shows "\<exists>S'. session_turn X c S = Some S' \<and> service_rel (client_step (Serve c) T) S'"
  using rel
proof (rule service_relE)
  fix a
  assume inv: "srv_inv a (svc_server S)" and a: "vals a = shared T"
    and same: "admitting T = tcp_listening S" "admitted T = accepted S" "halted T = ioc_stopped S"
    and new: "\<And>c. admitted T \<le> c \<Longrightarrow> waiting T c = None"
    and each: "\<And>c. session_rel X (waiting T c) (told T c) (sessions S c)"
  from each [of c] show ?thesis
  proof (cases rule: session_rel_cases)
    case absent
    then show ?thesis using rel by (simp add: session_turn_def)
  next
    case (closed sock)
    then show ?thesis using rel by (simp add: session_turn_def)
  next
    case (open_session ops sock)
    show ?thesis
    proof (cases ops)
      case Nil
      with open_session have "tcp_respond X sock (svc_server S) = Inl Eof" by (simp add: sends_Nil tcp_respond_def)
      moreover have "session_rel X (Some []) (told T c) (Some (close_socket sock))"
        using open_session by (simp add: session_rel_def close_socket_def)
      ultimately show ?thesis using open_session Nil inv a same new each
        by (auto simp: session_turn_def service_rel_def)
    next
      case (Cons p ps)
      from respond_operation [OF inv clk] open_session(4) Cons obtain sock' srv' b where
        r: "tcp_respond X sock (svc_server S) = Inr (sock', srv')" "srv_inv b srv'" "vals b = op_next p (vals a)"
        "sends (fbs X) ps (incoming sock')" "is_open sock' = is_open sock"
        "outgoing sock' = outgoing sock @ response_bytes X (op_response p (vals a))" by blast
      have "session_rel X (Some ps) (told T c @ [op_response p (shared T)]) (Some sock')"
        using r open_session a by (simp add: session_rel_def)
      moreover have "c < admitted T" using new [of c] open_session(1) by fastforce
      ultimately show ?thesis using open_session Cons r(1-3) a same new each
        by (auto simp: session_turn_def service_rel_def)
    qed
  qed
qed

lemma accept_simulates:
  assumes rel: "service_rel T S" and ev: "stands_for (fbs X) tls ce (Accept arrival)"
  shows "service_rel (client_step ce T) (tcp_accept tls arrival S)"
  using rel
proof (rule service_relE)
  fix a
  assume inv: "srv_inv a (svc_server S)" and a: "vals a = shared T"
    and same: "admitting T = tcp_listening S" "admitted T = accepted S" "halted T = ioc_stopped S"
    and new: "\<And>c. admitted T \<le> c \<Longrightarrow> waiting T c = None"
    and each: "\<And>c. session_rel X (waiting T c) (told T c) (sessions S c)"
  show ?thesis
  proof (cases arrival)
    case None
    then show ?thesis using rel ev same by (auto simp: stands_for_def tcp_accept_def service_rel_def)
  next
    case (Some wire)
    then obtain ops where ops: "ce = Join ops"
      using ev by (auto simp: stands_for_def split: option.splits)
    have none: "told T (accepted S) = []"
      using each [of "accepted S"] new [of "accepted S"] same(2) by (auto simp: session_rel_def split: option.splits)
    have "session_rel X ops [] (open_session tls wire)"
      using ev Some ops by (auto simp: stands_for_def open_session_def session_rel_def split: option.splits)
    then show ?thesis using rel Some ops same none
      by (auto simp: tcp_accept_def service_rel_def)
  qed
qed

lemma peer_accept_inv:
  assumes "srv_inv a (svc_server S)"
  shows "srv_inv a (svc_server (peer_accept X tls arrival p at S))"
  using assms signals_inv_new [of "platform X" "srv_signals (svc_server S)" p at]
  by (auto simp: peer_accept_def srv_inv_def split: peer_arrival.splits option.splits)

lemma peer_turn_inv:
  assumes "srv_inv a (svc_server S)"
  shows "srv_inv a (svc_server (peer_turn X p at S))"
  using assms signals_inv_serve [of "platform X" "srv_signals (svc_server S)" p]
  by (auto simp: peer_turn_def srv_inv_def Let_def split: option.splits prod.splits)

lemma unrelated_frame:
  "tcp_listening (peer_accept X tls arrival p at S) = tcp_listening S" "tcp_listening (peer_turn X p at S) = tcp_listening S"
  "accepted (peer_accept X tls arrival p at S) = accepted S" "accepted (peer_turn X p at S) = accepted S"
  "sessions (peer_accept X tls arrival p at S) = sessions S" "sessions (peer_turn X p at S) = sessions S"
  "ioc_stopped (peer_accept X tls arrival p at S) = ioc_stopped S" "ioc_stopped (peer_turn X p at S) = ioc_stopped S"
  by (auto simp: peer_accept_def peer_turn_def Let_def split: peer_arrival.splits option.splits prod.splits)

lemma event_simulates:
  assumes rel: "service_rel T S" and clk: "clock_ok" and ev: "stands_for (fbs X) tls ce e" and go: "\<not> halted T"
  shows "\<exists>S'. service_event X tls e S = Some S' \<and> service_rel (client_step ce T) S'"
proof -
  have run: "\<not> ioc_stopped S" using rel go by (simp add: service_rel_def)
  show ?thesis
  proof (cases e)
    case (Accept arrival)
    then show ?thesis using accept_simulates [OF rel, of tls ce arrival] ev run by (simp add: service_event_def)
  next
    case (Turn c)
    then show ?thesis using turn_simulates [OF rel clk, of c] ev run by (simp add: service_event_def stands_for_def)
  next
    case (PeerAccept arrival p at)
    then show ?thesis using rel ev run peer_accept_inv [of _ S tls arrival p at]
      by (auto simp: service_event_def stands_for_def service_rel_def unrelated_frame)
  next
    case (PeerTurn p at)
    then show ?thesis using rel ev run peer_turn_inv [of _ S p at]
      by (auto simp: service_event_def stands_for_def service_rel_def unrelated_frame)
  next
    case Stop
    then show ?thesis using rel ev run by (auto simp: service_event_def stands_for_def service_rel_def)
  qed
qed

lemma run_simulates:
  assumes "list_all2 (stands_for (fbs X) tls) ces es" and "service_rel T S" and clk: "clock_ok"
  shows "\<exists>S'. service_run X tls es S = Some S' \<and> service_rel (client_steps ces T) S'"
  using assms(1,2)
proof (induction ces es arbitrary: T S rule: list_all2_induct)
  case Nil
  then show ?case by simp
next
  case (Cons ce ces e es)
  show ?case
  proof (cases "halted T")
    case True
    then have "service_event X tls e S = Some S" using Cons.prems by (simp add: service_event_def service_rel_def)
    with Cons.IH [OF Cons.prems] True show ?thesis by simp
  next
    case False
    from event_simulates [OF Cons.prems clk Cons.hyps(1) False] obtain S1 where
      "service_event X tls e S = Some S1" "service_rel (client_step ce T) S1" by blast
    with Cons.IH [of "client_step ce T" S1] False show ?thesis by simp
  qed
qed

lemma start_simulates:
  "srv_inv a srv \<Longrightarrow> service_rel (Clients_start tb (vals a)) (Service_start X tb nb srv)"
  by (auto simp: service_rel_def Clients_start_def Service_start_def session_rel_def)

lemma service_answers:
  assumes inv: "srv_inv a srv" and clk: "clock_ok" and ev: "list_all2 (stands_for (fbs X) tls) ces es"
  shows "\<exists>S. service_run X tls es (Service_start X tb nb srv) = Some S \<and>
    (\<forall>c. map_option outgoing (sessions S c) = map_option
       (\<lambda>_. concat (map (response_bytes X) (told (client_steps ces (Clients_start tb (vals a))) c)))
       (waiting (client_steps ces (Clients_start tb (vals a))) c))"
proof -
  let ?T = "client_steps ces (Clients_start tb (vals a))"
  from run_simulates [OF ev start_simulates [OF inv, of tb nb] clk] obtain S where
    S: "service_run X tls es (Service_start X tb nb srv) = Some S" "service_rel ?T S" by blast
  have "map_option outgoing (sessions S c) = map_option (\<lambda>_. concat (map (response_bytes X) (told ?T c))) (waiting ?T c)" for c
  proof -
    have "session_rel X (waiting ?T c) (told ?T c) (sessions S c)" using S(2) by (simp add: service_rel_def)
    then show ?thesis by (cases rule: session_rel_cases) simp_all
  qed
  with S(1) show ?thesis by blast
qed

end

text \<open>
  C2: clients that are connected at the same time share one map.  For every order in which the
  event loop accepts connections, runs the sessions, serves peers and stops, with or without TLS,
  the process returns from every event, and the bytes written to each client are the responses
  that a single map gives when it executes the operations in the order in which the sessions were
  run, each client seeing the changes of all others that ran before.
\<close>

theorem sessions_share_one_map:
  assumes "server X base pending ciph enc_ready enc_used dec_ready dec_used bag"
    and "server.srv_inv X base ciph enc_ready enc_used dec_ready dec_used a srv"
    and "database.clock_ok (ext X)" and "list_all2 (stands_for (fbs X) tls) ces es"
  shows "\<exists>S. service_run X tls es (Service_start X tb nb srv) = Some S \<and>
    (\<forall>c. map_option outgoing (sessions S c) = map_option
       (\<lambda>_. concat (map (response_bytes X) (told (client_steps ces (Clients_start tb (vals a))) c)))
       (waiting (client_steps ces (Clients_start tb (vals a))) c))"
  by (rule server.service_answers [OF assms])

text \<open>Two clients: the second overwrites the value of the first between the two requests of the first.\<close>

definition sample_stream :: "operation list \<Rightarrow> bytes list" where
  "sample_stream ops = map (\<lambda>p. frame_bytes (request_out (op_request p))) ops"

lemma sample_stream_sends:
  assumes "list_all op_small ops" and "list_all (\<lambda>p. length (request_out (op_request p)) + 4 < maxBytes) ops"
  shows "sends unary_flatbuffers ops (sample_stream ops)"
proof -
  have "list_all2 delivered (map (\<lambda>p. FinishRequest unary_flatbuffers (op_request p)) ops)
      (map (\<lambda>p. [frame_bytes (request_out (op_request p))]) ops)"
    using assms(2) delivered_whole [OF request_out_nonempty]
    by (auto simp: list_all2_map1 list_all2_map2 list.rel_refl_strong list_all_iff unary_flatbuffers_def
        intro!: list.rel_refl_strong)
  with assms(1) show ?thesis
    by (auto simp: sends_def sample_stream_def intro!: exI [of _ "map (\<lambda>p. [frame_bytes (request_out (op_request p))]) ops"])
qed

definition first_client :: "operation list" where
  "first_client = [OpSet (RequestData_kv ''a'' ''x''), OpGet ''a'']"

definition second_client :: "operation list" where
  "second_client = [OpSet (RequestData_kv ''/a'' ''y'')]"

theorem sessions_share_one_map_witness:
  "\<exists>S. service_run (sample_env True) None
      [Accept (Some (sample_stream first_client)), Accept (Some (sample_stream second_client)), Turn 0, Turn 1, Turn 0]
      (Service_start (sample_env True) True True sample_server) = Some S \<and>
    map_option outgoing (sessions S 0) = Some (response_bytes (sample_env True) (SuccessResult True) @
      response_bytes (sample_env True) (KeyValueResults [CreateKeyValueResult ''/a'' (Value ''y'')]))"
proof -
  let ?ces = "[Join (Some first_client), Join (Some second_client), Serve 0, Serve 1, Serve 0]"
  have "list_all op_small first_client" "list_all op_small second_client"
    "list_all (\<lambda>p. length (request_out (op_request p)) + 4 < maxBytes) first_client"
    "list_all (\<lambda>p. length (request_out (op_request p)) + 4 < maxBytes) second_client" by code_simp+
  note sent = sample_stream_sends [OF this(1,3)] sample_stream_sends [OF this(2,4)]
  have ev: "list_all2 (stands_for (fbs (sample_env True)) None) ?ces
      [Accept (Some (sample_stream first_client)), Accept (Some (sample_stream second_client)), Turn 0, Turn 1, Turn 0]"
    using sent by (simp add: stands_for_def plain_stream_def)
  define T where "T = client_steps ?ces (Clients_start True (vals empty_store))"
  have T: "told T 0 = [SuccessResult True, KeyValueResults [CreateKeyValueResult ''/a'' (Value ''y'')]]" "waiting T 0 = Some []"
    unfolding T_def by code_simp+
  from sessions_share_one_map [OF node.server_axioms node_inv [of True] node_clock_ok ev, of True True, folded T_def]
  obtain S where S: "service_run (sample_env True) None
      [Accept (Some (sample_stream first_client)), Accept (Some (sample_stream second_client)), Turn 0, Turn 1, Turn 0]
      (Service_start (sample_env True) True True sample_server) = Some S" and
    "\<And>c. map_option outgoing (sessions S c) =
      map_option (\<lambda>_. concat (map (response_bytes (sample_env True)) (told T c))) (waiting T c)" by blast
  from this(2) [of 0] have "map_option outgoing (sessions S 0) = Some (response_bytes (sample_env True) (SuccessResult True) @
      response_bytes (sample_env True) (KeyValueResults [CreateKeyValueResult ''/a'' (Value ''y'')]))"
    by (simp add: T)
  with S show ?thesis by blast
qed

section \<open>Listeners that end\<close>

definition registered :: "'q Signals \<Rightarrow> u64 set" where
  "registered sg = dom (listeners sg)"

lemma registered_notify: "Listener_notify P b p sg = Some sg' \<Longrightarrow> registered sg' = registered sg"
  by (auto simp: Listener_notify_def registered_def split: option.splits if_splits)

lemma registered_for_each:
  "for_each (\<lambda>_. True) (\<lambda>key. Listener_notify P b (fst key)) cs sg = Some sg' \<Longrightarrow> registered sg' = registered sg"
  by (induction cs arbitrary: sg) (auto split: bind_splits option.splits dest!: registered_notify)

lemma registered_emit: "SignalMgr_emit P b sg = Some sg' \<Longrightarrow> registered sg' = registered sg"
  unfolding SignalMgr_emit_def by (rule registered_for_each)

definition known_peers :: "('s, 't, 'x, 'q) Server \<Rightarrow> u64 set" where
  "known_peers srv = registered (srv_signals srv)"

lemma emit_change_peers: "emit_change X value rbuf srv = Some srv' \<Longrightarrow> known_peers srv' = known_peers srv"
  by (auto simp: emit_change_def known_peers_def registered_emit split: if_splits)

lemma tcp_process_peers:
  assumes "tcp_process rbuf X request sock srv = Some (sock', srv')"
  shows "known_peers srv' = known_peers srv"
  using assms emit_change_peers [of X _ rbuf "srv\<lparr>srv_db := _\<rparr>" srv']
  by (cases "req_action request")
    (auto simp: tcp_process_def tcp_get_def tcp_list_def tcp_put_def tcp_remove_def tcp_move_def tcp_ttl_def
      known_peers_def Let_def case_prod_beta split: bind_splits)

lemma tcp_respond_peers:
  "tcp_respond X sock srv = Inr (sock', srv') \<Longrightarrow> known_peers srv' = known_peers srv"
  by (auto simp: tcp_respond_def or_abnormal_def tcp_handle_def Let_def dest!: tcp_process_peers
      split: option.splits if_splits bind_splits)

lemma session_turn_cases:
  assumes "session_turn X c S = Some S'"
  obtains "S' = S" | s where "S' = S\<lparr>sessions := s\<rparr>"
  | s srv' where "S' = S\<lparr>sessions := s, svc_server := srv'\<rparr>" "known_peers srv' = known_peers (svc_server S)"
proof (cases "sessions S c")
  case None
  then show ?thesis using assms that(1) by (simp add: session_turn_def)
next
  case (Some sock)
  show ?thesis
  proof (cases "is_open sock")
    case False
    then show ?thesis using assms Some that(1) by (simp add: session_turn_def)
  next
    case True
    with assms Some that(2,3) show ?thesis
      by (cases "tcp_respond X sock (svc_server S)")
        (auto simp: session_turn_def dest: tcp_respond_peers split: fault.splits)
  qed
qed

lemma session_turn_frame:
  assumes "session_turn X c S = Some S'"
  shows "known_peers (svc_server S') = known_peers (svc_server S)" "tcp_listening S' = tcp_listening S"
    "accepted S' = accepted S" "notify_listening S' = notify_listening S"
  using assms by (cases rule: session_turn_cases; simp)+

lemma peer_turn_frame:
  "known_peers (svc_server (peer_turn X p at S)) = known_peers (svc_server S)"
  "notify_listening (peer_turn X p at S) = notify_listening S"
  by (auto simp: peer_turn_def known_peers_def registered_def Let_def split: option.splits prod.splits if_splits)

lemma event_frame:
  assumes "service_event X tls e S = Some S'"
  shows "\<not> tcp_listening S \<Longrightarrow> \<not> tcp_listening S' \<and> accepted S' = accepted S"
    and "\<not> notify_listening S \<Longrightarrow> \<not> notify_listening S' \<and> known_peers (svc_server S') = known_peers (svc_server S)"
proof -
  note defs = service_event_def tcp_accept_def peer_accept_def
  show "\<not> tcp_listening S' \<and> accepted S' = accepted S" if "\<not> tcp_listening S"
    using assms that
    by (cases e)
      (auto simp: service_event_def tcp_accept_def peer_accept_def peer_turn_def Let_def session_turn_frame(2,3)
        split: if_splits peer_arrival.splits option.splits prod.splits)
  show "\<not> notify_listening S' \<and> known_peers (svc_server S') = known_peers (svc_server S)" if "\<not> notify_listening S"
    using assms that
    by (cases e) (auto simp: defs peer_turn_frame session_turn_frame(1,4) split: if_splits option.splits)
qed

lemma run_frame:
  assumes "service_run X tls es S = Some S'"
  shows "\<not> tcp_listening S \<Longrightarrow> accepted S' = accepted S"
    and "\<not> notify_listening S \<Longrightarrow> known_peers (svc_server S') = known_peers (svc_server S)"
  using assms by (induction es arbitrary: S) (auto split: bind_splits dest: event_frame)



section \<open>What a response may hold\<close>

definition answers_action :: "Action \<Rightarrow> ResultVariant \<Rightarrow> bool" where
  "answers_action a r \<longleftrightarrow>
     (case r of
        NoResult \<Rightarrow> False
      | SuccessResult _ \<Rightarrow> a \<in> {Put, Delete, Move}
      | KeyValueResults rs \<Rightarrow> a \<in> {Get, List, TTL} \<and> list_all (\<lambda>x.
          case kvr_value x of
            NoValue \<Rightarrow> False
          | Value _ \<Rightarrow> a \<in> {Get, TTL}
          | Children _ \<Rightarrow> a = List
          | Success b \<Rightarrow> \<not> b \<and> a \<in> {Get, List}) rs)"



section \<open>The listener of a peer\<close>

text \<open>
  \<open>connect\<close>: an attempt fails, or the connection is opened, with TLS after a handshake.
  \<open>waitTillConnected\<close> tries until an attempt succeeds or the event loop has been stopped, which is
  read after each failure.
\<close>

definition peer_connect :: "tls \<Rightarrow> bytes list option \<Rightarrow> Socket option" where
  "peer_connect tls attempt = (case attempt of None \<Rightarrow> None | Some wire \<Rightarrow> open_session tls wire)"

fun waitTillConnected :: "tls \<Rightarrow> (bytes list option \<times> bool) list \<Rightarrow> Socket option \<times> (bytes list option \<times> bool) list" where
  "waitTillConnected tls [] = (None, [])"
| "waitTillConnected tls ((attempt, stopped) # attempts) =
     (case peer_connect tls attempt of
        Some sock \<Rightarrow> (Some sock, attempts)
      | None \<Rightarrow> if stopped then (None, []) else waitTillConnected tls attempts)"

lemma waitTillConnected_shorter:
  "waitTillConnected tls attempts = (Some sock, rest) \<Longrightarrow> length rest < length attempts"
  by (induction attempts) (auto split: option.splits if_splits)

text \<open>\<open>run\<close>: connect, apply the notifications until the connection is closed, and connect again.\<close>

function peer_listen ::
  "('s, 't, 'x, 'q) Env \<Rightarrow> tls \<Rightarrow> (bytes list option \<times> bool) list \<Rightarrow> ('s, 't, 'x) Database \<Rightarrow> ('s, 't, 'x) Database option" where
  "peer_listen X tls attempts d =
     (case waitTillConnected tls attempts of
        (None, _) \<Rightarrow> Some d
      | (Some sock, rest) \<Rightarrow> do { d \<leftarrow> peer_stream X sock d; peer_listen X tls rest d })"
  by pat_completeness auto
termination
  by (relation "measure (\<lambda>(_, _, attempts, _). length attempts)") (auto dest: waitTillConnected_shorter [OF sym])

declare peer_listen.simps [simp del]

text \<open>Failed attempts and failed handshakes are only repeated: what is applied are the streams that were opened.\<close>

lemma peer_listen_streams:
  "peer_listen X tls (map (\<lambda>a. (a, False)) attempts) d =
   peer_run X (map (\<lambda>a. Option.bind a (plain_stream tls)) attempts) d"
proof (induction attempts arbitrary: d)
  case Nil
  then show ?case by (simp add: peer_listen.simps)
next
  case (Cons a attempts)
  show ?case
  proof (cases "Option.bind a (plain_stream tls)")
    case None
    then have "peer_connect tls a = None" by (cases a) (simp_all add: peer_connect_def open_session_def)
    then have "peer_listen X tls (map (\<lambda>a. (a, False)) (a # attempts)) d = peer_listen X tls (map (\<lambda>a. (a, False)) attempts) d"
      by (subst (1 2) peer_listen.simps) simp
    with Cons.IH None show ?thesis by simp
  next
    case (Some segs)
    then have "peer_connect tls a = Some \<lparr>incoming = segs, outgoing = [], is_open = True\<rparr>"
      by (cases a) (simp_all add: peer_connect_def open_session_def)
    with Cons.IH Some show ?thesis
      by (cases "peer_stream X \<lparr>incoming = segs, outgoing = [], is_open = True\<rparr> d")
        (simp_all add: peer_listen.simps [of X tls "_ # _"])
  qed
qed

section \<open>Starting and running\<close>

text \<open>The level of the log: a name that is not known leaves the level at its initial value, debug.\<close>

definition main_log_level :: "Configuration \<Rightarrow> nat" where
  "main_log_level c =
     (if level (logging c) = ''debug'' then set_log_level DEBUG
      else if level (logging c) = ''info'' then set_log_level INFO
      else if level (logging c) = ''warn'' then set_log_level WARN
      else if level (logging c) = ''critical'' then set_log_level CRIT
      else 0)"

datatype task =
    TcpService int bool
  | HttpThread string u32 bool
  | CleanerThread
  | BackupThread
  | NotifierService int bool
  | PeerClient string string bool
  | IoThread

definition main_tasks :: "Configuration \<Rightarrow> task list" where
  "main_tasks c =
     [TcpService (tcp (services c)) (ssl_enable (ssl c))] @
     (if http (services c) \<noteq> ''0'' then [HttpThread (http (services c)) (threads c) (ssl_enable (ssl c))] else []) @
     [CleanerThread, BackupThread] @
     (if peers c \<noteq> []
      then NotifierService (notify_port (services c)) (ssl_enable (ssl c)) #
        map (\<lambda>p. PeerClient (host p) (int_to_string (port p)) (ssl_enable (ssl c))) (peers c)
      else []) @
     replicate (unat (threads c)) IoThread"

text \<open>
  \<open>run\<close> calls \<open>run\<close> of the event loop, which returns when the loop was stopped, or throws what a
  handler throws.  The first call is guarded; the call in the handler is not, and an exception that
  leaves the function of a thread ends the process.
\<close>

datatype io_run = Returned | Threw

datatype run_end = Running | Ended | Terminated

fun main_run :: "io_run list \<Rightarrow> run_end" where
  "main_run [] = Running"
| "main_run (Returned # rs) = Ended"
| "main_run [Threw] = Running"
| "main_run (Threw # Threw # rs) = Terminated"
| "main_run (Threw # Returned # rs) = main_run rs"

text \<open>\<open>http::start\<close>: status 1 when the port is not available; otherwise the thread joins the event loop.\<close>

definition http_start :: "bool \<Rightarrow> bool \<Rightarrow> bool \<Rightarrow> io_run \<Rightarrow> int option" where
  "http_start tls_enabled context_ok listens r =
     (if tls_enabled \<and> \<not> context_ok then None
      else if \<not> listens then Some 1
      else case r of Returned \<Rightarrow> Some 0 | Threw \<Rightarrow> None)"

text \<open>The guard holds for one exception at a time: two in a row end the process, any number apart do not.\<close>

lemma main_run_guarded: "main_run (concat (replicate n [Threw, Returned]) @ rs) = main_run rs"
  by (induction n) simp_all

lemma main_run_terminates:
  "main_run rs = Terminated \<longleftrightarrow> (\<exists>n rest. rs = concat (replicate n [Threw, Returned]) @ Threw # Threw # rest)"
proof
  show "main_run rs = Terminated \<Longrightarrow> \<exists>n rest. rs = concat (replicate n [Threw, Returned]) @ Threw # Threw # rest"
  proof (induction rs rule: main_run.induct)
    case (4 rs)
    show ?case by (intro exI [of _ 0] exI [of _ rs]) simp
  next
    case (5 rs)
    then obtain n rest where "rs = concat (replicate n [Threw, Returned]) @ Threw # Threw # rest" by auto
    then show ?case by (intro exI [of _ "Suc n"] exI [of _ rest]) simp
  qed simp_all
qed (auto simp: main_run_guarded)

lemma unknown_level_logs_everything:
  "level (logging c) \<notin> {''debug'', ''info'', ''warn'', ''critical''} \<Longrightarrow> is_logged l (main_log_level c)"
  by (simp add: main_log_level_def is_logged_def)

end
