(* ===== verification/Program_Options.thy ===== *)
theory Program_Options
  imports Command_Line Text_Flow Service
begin

text \<open>
  The programs as they are called: the options of the service (\<open>loadConfig\<close> and \<open>main\<close> of
  \<open>src/service/main.cpp\<close>), of the command line client (\<open>src/cli/main.cpp\<close>), of the shell
  (\<open>src/shell/main.cpp\<close>) and of the program that seeds a database (\<open>src/seed/main.cpp\<close>), read by the
  command line parser and passed on to what the programs do.  The program variables that the options
  are bound to are the fields of a record.  \<open>Inl\<close> is the status and the text with which a program
  exits early; \<^term>\<open>None\<close> is a failed assertion, an exception or undefined behaviour.  The
  defaults are those of a platform other than macOS.
\<close>

section \<open>Reading the options\<close>

definition value_opt ::
  "(string \<Rightarrow> ParserResult \<times> 'v) \<Rightarrow> ('v \<Rightarrow> 's \<Rightarrow> 's) \<Rightarrow> string \<Rightarrow> string list \<Rightarrow> string \<Rightarrow> 's Opt" where
  "value_opt conv assign_to hint names description =
     \<lparr>opt_ref = bound_value conv assign_to, m_optNames = names, m_hint = hint, m_description = description\<rparr>"

definition flag_opt :: "(bool \<Rightarrow> 's \<Rightarrow> 's) \<Rightarrow> string list \<Rightarrow> string \<Rightarrow> 's Opt" where
  "flag_opt assign_to names description =
     \<lparr>opt_ref = bound_flag assign_to, m_optNames = names, m_hint = [], m_description = description\<rparr>"

definition Help :: "(bool \<Rightarrow> 's \<Rightarrow> 's) \<Rightarrow> 's Opt" where
  "Help assign_to = \<lparr>opt_ref = bound_help assign_to, m_optNames = [''-?'', ''-h'', ''--help''], m_hint = [],
     m_description = ''display usage information''\<rparr>"

abbreviation (input) options_parser :: "'s Opt list \<Rightarrow> 's Parser" where
  "options_parser opts \<equiv> \<lparr>m_options = opts, m_args = []\<rparr>"

definition usage_text :: "'s Opt list \<Rightarrow> string \<Rightarrow> string option" where
  "usage_text opts exe = writeToStream (options_parser opts) (exe_filename exe)"

text \<open>The part that the four programs have in common: errors and the help.\<close>

definition read_options ::
  "'s Opt list \<Rightarrow> ('s \<Rightarrow> bool) \<Rightarrow> string \<Rightarrow> string list \<Rightarrow> 's \<Rightarrow> ((nat \<times> string) + 's) option" where
  "read_options opts help_asked exe args st = do {
     (result, st) \<leftarrow> Parser_parse (options_parser opts) args st;
     case result of
       Inl (_, msg) \<Rightarrow> Some (Inl (1, ''Error in command line: '' @ msg @ nl))
     | Inr _ \<Rightarrow>
         if help_asked st then do { usage \<leftarrow> usage_text opts exe; Some (Inl (0, usage)) }
         else Some (Inr st) }"

section \<open>The options of the service\<close>

record ServiceVars =
  sv_file :: string
  sv_peers :: string
  sv_help :: bool
  sv_conf :: Configuration

definition service_options :: "ServiceVars Opt list" where
  "service_options =
     [Help (\<lambda>b v. v\<lparr>sv_help := b\<rparr>),
      value_opt convertInto_string (\<lambda>x v. v\<lparr>sv_file := x\<rparr>) ''/tmp/configdb.json'' [''-f'', ''--config-file'']
        ''The JSON configuration file to load.  All other options are ignored.'',
      value_opt convertInto_string (\<lambda>x v. v\<lparr>sv_peers := x\<rparr>) ''confdb1:2020,confdb2:2020'' [''-z'', ''--peers'']
        ''Comma separated list of peers to listen to for notifications.'',
      flag_opt (\<lambda>x v. v\<lparr>sv_conf := sv_conf v\<lparr>logging := logging (sv_conf v)\<lparr>console := x\<rparr>\<rparr>\<rparr>) [''-c'', ''--console'']
        ''Log to console (default false)'',
      value_opt convertInto_string (\<lambda>x v. v\<lparr>sv_conf := sv_conf v\<lparr>services := services (sv_conf v)\<lparr>http := x\<rparr>\<rparr>\<rparr>)
        ''6020'' [''-p'', ''--http-port''] ''Port on which to listen for http/2 traffic.  Specify 0 to disable (default 6020)'',
      value_opt convertInto_int (\<lambda>x v. v\<lparr>sv_conf := sv_conf v\<lparr>services := services (sv_conf v)\<lparr>tcp := x\<rparr>\<rparr>\<rparr>)
        ''2020'' [''-t'', ''--tcp-port''] ''Port on which to listen for tcp traffic (default 2020)'',
      value_opt convertInto_int (\<lambda>x v. v\<lparr>sv_conf := sv_conf v\<lparr>services := services (sv_conf v)\<lparr>notify_port := x\<rparr>\<rparr>\<rparr>)
        ''2120'' [''-b'', ''--notify-port''] ''Port on which to publish notifications (default 2120)'',
      flag_opt (\<lambda>x v. v\<lparr>sv_conf := sv_conf v\<lparr>ssl := ssl (sv_conf v)\<lparr>ssl_enable := x\<rparr>\<rparr>\<rparr>) [''-s'', ''--with-ssl'']
        ''Enable SSL wrappers for services (default false)'',
      value_opt convertInto_uint32 (\<lambda>x v. v\<lparr>sv_conf := sv_conf v\<lparr>threads := x\<rparr>\<rparr>)
        ''8'' [''-n'', ''--threads''] ''Number of server threads to spawn (default system)'',
      value_opt convertInto_string (\<lambda>x v. v\<lparr>sv_conf := sv_conf v\<lparr>encryption := encryption (sv_conf v)\<lparr>secret := x\<rparr>\<rparr>\<rparr>)
        ''AESEncryptionKey'' [''-e'', ''--encryption-secret''] ''Secret to use to encrypt values (default internal)'',
      flag_opt (\<lambda>x v. v\<lparr>sv_conf := sv_conf v\<lparr>enableCache := x\<rparr>\<rparr>) [''-x'', ''--enable-cache'']
        ''Enable temporary cache for key values (default false)'',
      value_opt convertInto_string (\<lambda>x v. v\<lparr>sv_conf := sv_conf v\<lparr>logging := logging (sv_conf v)\<lparr>level := x\<rparr>\<rparr>\<rparr>)
        ''info'' [''-l'', ''--log-level''] ''Log level to use [debug|info|warn|critical] (default info).'',
      value_opt convertInto_string (\<lambda>x v. v\<lparr>sv_conf := sv_conf v\<lparr>logging := logging (sv_conf v)\<lparr>dir := x\<rparr>\<rparr>\<rparr>)
        ''logs/'' [''-o'', ''--log-dir''] ''Log directory (default logs/)'']"

record ConfigSource =
  json_parse :: "string \<Rightarrow> json option"
  json_files :: "string \<Rightarrow> string option"
  cast_int :: "string \<Rightarrow> int option"
  cfg_env :: env
  cfg_hardware :: u32

text \<open>
  \<open>conf\<close> is a reference to the object that the holder has: the options are written into it as they
  are read.
\<close>

definition loadConfig :: "ConfigSource \<Rightarrow> string \<Rightarrow> string list \<Rightarrow> Holder \<Rightarrow> ((nat \<times> string) + string \<times> Holder) option" where
  "loadConfig S exe args h = (let (conf, h) = Configuration_instance (cfg_env S) (cfg_hardware S) h in do {
     c \<leftarrow> objects h conf;
     r \<leftarrow> read_options service_options sv_help exe args \<lparr>sv_file = [], sv_peers = [], sv_help = False, sv_conf = c\<rparr>;
     case r of
       Inl x \<Rightarrow> Some (Inl x)
     | Inr v \<Rightarrow> do {
         h \<leftarrow> Some (h\<lparr>objects := (objects h)(conf \<mapsto> sv_conf v)\<rparr>);
         h \<leftarrow> loadConfig_tail (json_parse S) (json_files S) (cast_int S) (cfg_env S) (cfg_hardware S) (sv_file v) (sv_peers v) conf h;
         Some (Inr (if sv_file v = [] then [] else ''Loading configuration file '' @ sv_file v @ nl, h)) } })"

text \<open>What \<open>main\<close> prints before it starts the tasks of \<open>Service\<close>.\<close>

definition bool_text :: "bool \<Rightarrow> string" where
  "bool_text b = (if b then ''true'' else ''false'')"

definition start_text :: "Configuration \<Rightarrow> string" where
  "start_text c =
     ''Starting server with options'' @ nl @ ''console: '' @ bool_text (console (logging c)) @ nl @
     ''ssl: '' @ bool_text (ssl_enable (ssl c)) @ nl @ ''http-port: '' @ http (services c) @ nl @
     ''tcp-port: '' @ int_to_string (tcp (services c)) @ nl @ ''threads: '' @ nat_to_string (unat (threads c)) @ nl @
     ''logLevel: '' @ level (logging c) @ nl @ ''dir: '' @ dir (logging c) @ nl"

definition service_main ::
  "ConfigSource \<Rightarrow> string \<Rightarrow> string list \<Rightarrow> Holder \<Rightarrow> ((nat \<times> string) + string \<times> nat \<times> task list) option" where
  "service_main S exe args h = do {
     r \<leftarrow> loadConfig S exe args h;
     case r of
       Inl x \<Rightarrow> Some (Inl x)
     | Inr (text', h) \<Rightarrow> (let (conf, h) = Configuration_instance (cfg_env S) (cfg_hardware S) h in do {
         c \<leftarrow> objects h conf;
         Some (Inr (text' @ start_text c, main_log_level c, main_tasks c)) }) }"

section \<open>The options of the clients\<close>

record CliVars =
  cv_server :: string
  cv_port :: string
  cv_logLevel :: string
  cv_dir :: string
  cv_action :: string
  cv_key :: string
  cv_value :: string
  cv_file :: string
  cv_ssl :: bool
  cv_help :: bool

definition CliVars_init :: CliVars where
  "CliVars_init = \<lparr>cv_server = ''localhost'', cv_port = ''2020'', cv_logLevel = ''info'', cv_dir = ''/tmp/'', cv_action = [],
     cv_key = [], cv_value = [], cv_file = [], cv_ssl = False, cv_help = False\<rparr>"

definition cli_options :: "CliVars Opt list" where
  "cli_options =
     [Help (\<lambda>b v. v\<lparr>cv_help := b\<rparr>),
      value_opt convertInto_string (\<lambda>x v. v\<lparr>cv_server := x\<rparr>) ''localhost'' [''-s'', ''--server'']
        ''Server to connect to (default localhost).'',
      value_opt convertInto_string (\<lambda>x v. v\<lparr>cv_port := x\<rparr>) ''2020'' [''-p'', ''--port''] ''TCP port for the server (default 2020)'',
      flag_opt (\<lambda>x v. v\<lparr>cv_ssl := x\<rparr>) [''-t'', ''--with-ssl''] ''Use SSL to connect to service (default false)'',
      value_opt convertInto_string (\<lambda>x v. v\<lparr>cv_file := x\<rparr>) ''file.txt'' [''-f'', ''--file''] ''File to bulk import data from'',
      value_opt convertInto_string (\<lambda>x v. v\<lparr>cv_action := x\<rparr>) ''set'' [''-a'', ''--action''] ''Action to perform against the database.'',
      value_opt convertInto_string (\<lambda>x v. v\<lparr>cv_key := x\<rparr>) ''/key'' [''-k'', ''--key''] ''Key or path to apply action to'',
      value_opt convertInto_string (\<lambda>x v. v\<lparr>cv_value := x\<rparr>) ''value'' [''-v'', ''--value'']
        (''Value to set.  Only applies to '' @ [CHR 0x27] @ ''set'' @ [CHR 0x27] @ '' action''),
      value_opt convertInto_string (\<lambda>x v. v\<lparr>cv_logLevel := x\<rparr>) ''info'' [''-l'', ''--log-level'']
        ''Log level to use [debug|info|warn|critical] (default info).'',
      value_opt convertInto_string (\<lambda>x v. v\<lparr>cv_dir := x\<rparr>) ''/tmp/'' [''-o'', ''--log-dir''] ''Log directory (default /tmp/)'']"

definition CliArgs_of :: "CliVars \<Rightarrow> CliArgs" where
  "CliArgs_of v = \<lparr>arg_action = cv_action v, arg_key = cv_key v, arg_value = cv_value v, arg_file = cv_file v\<rparr>"

text \<open>Connecting depends on the server, the port and the use of TLS.\<close>

definition cli_program ::
  "(string \<Rightarrow> string list option) \<Rightarrow> (string \<Rightarrow> string \<Rightarrow> bool \<Rightarrow> 'w \<Rightarrow> (BaseConnection \<times> 'w) option) \<Rightarrow> 'w Remote \<Rightarrow>
   string \<Rightarrow> string list \<Rightarrow> 'w \<Rightarrow> ((nat \<times> string) \<times> 'w) option" where
  "cli_program files connect R exe args w = do {
     r \<leftarrow> read_options cli_options cv_help exe args CliVars_init;
     usage \<leftarrow> usage_text cli_options exe;
     case r of
       Inl x \<Rightarrow> Some (x, w)
     | Inr v \<Rightarrow> Some (cli_main files usage (connect (cv_server v) (cv_port v) (cv_ssl v)) R (CliArgs_of v) w) }"

record ShellVars =
  hv_server :: string
  hv_port :: string
  hv_logLevel :: string
  hv_dir :: string
  hv_ssl :: bool
  hv_help :: bool

definition ShellVars_init :: ShellVars where
  "ShellVars_init = \<lparr>hv_server = ''localhost'', hv_port = ''2020'', hv_logLevel = ''info'', hv_dir = ''/tmp/'', hv_ssl = False,
     hv_help = False\<rparr>"

definition shell_options :: "ShellVars Opt list" where
  "shell_options =
     [Help (\<lambda>b v. v\<lparr>hv_help := b\<rparr>),
      value_opt convertInto_string (\<lambda>x v. v\<lparr>hv_server := x\<rparr>) ''localhost'' [''-s'', ''--server'']
        ''Server to connect to (default localhost).'',
      value_opt convertInto_string (\<lambda>x v. v\<lparr>hv_port := x\<rparr>) ''2020'' [''-p'', ''--port''] ''TCP port for the server (default 2020)'',
      flag_opt (\<lambda>x v. v\<lparr>hv_ssl := x\<rparr>) [''-t'', ''--with-ssl''] ''Use SSL to connect to service (default false)'',
      value_opt convertInto_string (\<lambda>x v. v\<lparr>hv_logLevel := x\<rparr>) ''info'' [''-l'', ''--log-level'']
        ''Log level to use [debug|info|warn|critical] (default info).'',
      value_opt convertInto_string (\<lambda>x v. v\<lparr>hv_dir := x\<rparr>) ''/tmp/'' [''-o'', ''--log-dir''] ''Log directory (default /tmp/)'']"

text \<open>
  The exit status and what is printed.  The interface to the server is the one that \<open>init\<close> sets up.
  An exception ends the session, and the program with status 0.
\<close>

definition shell_program ::
  "(string \<Rightarrow> string list option) \<Rightarrow> (string \<Rightarrow> string \<Rightarrow> bool \<Rightarrow> 'w Api) \<Rightarrow> string \<Rightarrow> string list \<Rightarrow> string list \<Rightarrow> 'w Client \<Rightarrow>
   (nat \<times> string) option" where
  "shell_program files api exe args typed c = do {
     r \<leftarrow> read_options shell_options hv_help exe args ShellVars_init;
     case r of
       Inl x \<Rightarrow> Some x
     | Inr v \<Rightarrow>
         Some (0, case shell_run files (api (hv_server v) (hv_port v) (hv_ssl v)) typed c of None \<Rightarrow> [] | Some s \<Rightarrow> printed s) }"

section \<open>The options of the program that seeds a database\<close>

record SeedVars =
  dv_logLevel :: string
  dv_dir :: string
  dv_config :: string
  dv_file :: string
  dv_help :: bool

definition SeedVars_init :: SeedVars where
  "SeedVars_init = \<lparr>dv_logLevel = ''info'', dv_dir = ''/tmp/'', dv_config = [], dv_file = [], dv_help = False\<rparr>"

definition seed_options :: "SeedVars Opt list" where
  "seed_options =
     [Help (\<lambda>b v. v\<lparr>dv_help := b\<rparr>),
      value_opt convertInto_string (\<lambda>x v. v\<lparr>dv_config := x\<rparr>) ''config.json'' [''-c'', ''--conf''] ''Service configuration file (optional)'',
      value_opt convertInto_string (\<lambda>x v. v\<lparr>dv_file := x\<rparr>) ''file.txt'' [''-f'', ''--file''] ''File to bulk import data from'',
      value_opt convertInto_string (\<lambda>x v. v\<lparr>dv_logLevel := x\<rparr>) ''info'' [''-l'', ''--log-level'']
        ''Log level to use [debug|info|warn|critical] (default info).'',
      value_opt convertInto_string (\<lambda>x v. v\<lparr>dv_dir := x\<rparr>) ''/tmp/'' [''-o'', ''--log-dir''] ''Log directory (default /tmp/)'']"

text \<open>The database is opened with the configuration that is current when it is used first.\<close>

definition seed_program ::
  "ConfigSource \<Rightarrow> (string \<Rightarrow> string list option) \<Rightarrow> (Holder \<Rightarrow> ('s, 't, 'x) Ext) \<Rightarrow> string \<Rightarrow> string list \<Rightarrow>
   Holder \<times> ('s, 't, 'x) Database \<Rightarrow> ((nat \<times> string) \<times> Holder \<times> ('s, 't, 'x) Database) option" where
  "seed_program S files ext_of exe args = (\<lambda>(h, d). do {
     r \<leftarrow> read_options seed_options dv_help exe args SeedVars_init;
     usage \<leftarrow> usage_text seed_options exe;
     case r of
       Inl x \<Rightarrow> Some (x, h, d)
     | Inr v \<Rightarrow>
         if dv_file v = [] then Some ((2, ''Missing file to import'' @ nl @ usage), h, d)
         else (case (if dv_config v = [] then Some h
                     else loadFromFile (json_parse S) (json_files S) (cfg_env S) (cfg_hardware S) (dv_config v) h) of
                 None \<Rightarrow> Some ((0, []), h, d)
               | Some h \<Rightarrow> (case seed_main files (ext_of h) (dv_file v) d of (x, d) \<Rightarrow> Some (x, h, d))) })"

section \<open>What the options do\<close>

lemma read_options_assigned:
  assumes "options_ok opts" and "list_all (setting_ok opts) xs" and "assign_all opts {} xs st = (r, st')"
    and "list_all row_ok (getHelpColumns (options_parser opts))"
  shows "\<exists>usage. usage_text opts exe = Some usage \<and>
    read_options opts help_asked exe (concat (map written xs)) st =
      Some (case r of Inl (_, msg) \<Rightarrow> Inl (1, ''Error in command line: '' @ msg @ nl)
            | Inr _ \<Rightarrow> if help_asked st' then Inl (0, usage) else Inr st')"
proof -
  from writeToStream_complete [OF assms(4), of "exe_filename exe"] obtain usage where u: "usage_text opts exe = Some usage"
    by (auto simp: usage_text_def)
  from Parser_parse_assigns [OF assms(1,2), of st] assms(3) obtain x where
    "Parser_parse (options_parser opts) (concat (map written xs)) st = Some (x, st')" "r = map_sum id (\<lambda>_. ()) x" by auto
  then show ?thesis using u by (cases x) (auto simp: read_options_def)
qed

lemma options_are_ok:
  "options_ok service_options" "options_ok cli_options" "options_ok shell_options" "options_ok seed_options"
  by code_simp+

lemma rows_are_ok:
  "list_all row_ok (getHelpColumns (options_parser service_options))"
  "list_all row_ok (getHelpColumns (options_parser cli_options))"
  "list_all row_ok (getHelpColumns (options_parser shell_options))"
  "list_all row_ok (getHelpColumns (options_parser seed_options))"
  by code_simp+


section \<open>The command line client as it is called\<close>

text \<open>Options, in any order and in any of the ways to write them, that ask for an operation.\<close>

definition asks_for :: "setting list \<Rightarrow> operation \<Rightarrow> bool" where
  "asks_for xs p \<longleftrightarrow> list_all (setting_ok cli_options) xs \<and>
     (case assign_all cli_options {} xs CliVars_init of
        (Inl _, v) \<Rightarrow> False
      | (Inr _, v) \<Rightarrow> \<not> cv_help v \<and> CliArgs_of v = cli_args p)"

text \<open>The shortest way; a joined value may start with a hyphen.\<close>

fun cli_line :: "operation \<Rightarrow> setting list" where
  "cli_line (OpGet k) = [Joined 5 ''-a'' CHR ''='' ''get'', Joined 6 ''-k'' CHR ''='' k]"
| "cli_line (OpSet data) =
     [Joined 5 ''-a'' CHR ''='' ''set'', Joined 6 ''-k'' CHR ''='' (rd_key data), Joined 7 ''-v'' CHR ''='' (rd_value data)]"
| "cli_line (OpRemove k) = [Joined 5 ''-a'' CHR ''='' ''delete'', Joined 6 ''-k'' CHR ''='' k]"
| "cli_line (OpMove data) =
     [Joined 5 ''-a'' CHR ''='' ''move'', Joined 6 ''-k'' CHR ''='' (rd_key data), Joined 7 ''-v'' CHR ''='' (rd_value data)]"

lemma cli_line_asks_for: "asks_for (cli_line p) p"
  by (cases p) (simp_all add: asks_for_def cli_options_def value_opt_def bound_value_def is_delimiter_def convertInto_string_def
      CliVars_init_def CliArgs_of_def)

lemma cli_program_runs:
  assumes "asks_for xs p"
  obtains usage v where "CliArgs_of v = cli_args p"
    "cli_program files connect R exe (concat (map written xs)) w =
      Some (cli_main files usage (connect (cv_server v) (cv_port v) (cv_ssl v)) R (cli_args p) w)"
proof -
  obtain v where v: "assign_all cli_options {} xs CliVars_init = (Inr (), v)" "\<not> cv_help v" "CliArgs_of v = cli_args p"
    and xs: "list_all (setting_ok cli_options) xs"
    using assms by (auto simp: asks_for_def split: prod.splits sum.splits)
  from read_options_assigned [OF options_are_ok(2) xs v(1) rows_are_ok(2), of exe cv_help] obtain usage where
    "usage_text cli_options exe = Some usage"
    "read_options cli_options cv_help exe (concat (map written xs)) CliVars_init = Some (Inr v)" using v(2) by auto
  then show ?thesis using that [of v usage] v(3) by (simp add: cli_program_def)
qed

text \<open>
  C3: the command line client tells the outcome.  Called with options that ask for an operation, in
  any order and written in any way that the parser accepts, it connects, performs the operation over
  TCP and ends with status 0 exactly when the operation is accepted (a value found, a change made);
  it prints the value or which key failed, as a map from normalised keys to values answers, and the
  storage is changed as the map is.
\<close>

theorem cli_call_tells_outcome:
  assumes "server X base pending ciph enc_ready enc_used dec_ready dec_used bag"
    and "server.srv_inv X base ciph enc_ready enc_used dec_ready dec_used a srv"
    and "database.clock_ok (ext X)" and "chop_ok chop" and "op_small p"
    and "request_fits (fbs X) (op_request p)" and "response_fits (fbs X) (op_response p (vals a))" and "cli_args_ok p"
    and "asks_for xs p"
  shows "\<exists>srv' b. cli_program files (\<lambda>_ _ _ w. Some (Connection_new, w)) (tcp_remote X chop) exe (concat (map written xs)) srv =
      Some (cli_spec p (vals a), srv') \<and>
    server.srv_inv X base ciph enc_ready enc_used dec_ready dec_used b srv' \<and> vals b = op_next p (vals a)"
proof -
  obtain usage where
    run: "cli_program files (\<lambda>_ _ _ w. Some (Connection_new, w)) (tcp_remote X chop) exe (concat (map written xs)) srv =
      Some (cli_main files usage (\<lambda>w. Some (Connection_new, w)) (tcp_remote X chop) (cli_args p) srv)"
    by (rule cli_program_runs [OF assms(9)])
  from server.cli_main_ok [OF assms(1-8), of files usage] show ?thesis by (auto simp: run)
qed

theorem cli_call_tells_outcome_witness:
  "map_option fst (cli_program (\<lambda>_. None) (\<lambda>_ _ _ w. Some (Connection_new, w)) (tcp_remote (sample_env True) whole) ''./cli''
     [''-v'', ''b'', ''--key:a'', ''-p'', ''2021'', ''-a=move''] sample_server) = Some (3, ''Error moving key a to b'' @ nl)"
proof -
  let ?p = "OpMove (RequestData_kv ''a'' ''b'')"
    and ?xs = "[Spaced 7 ''-v'' ''b'', Joined 6 ''--key'' CHR '':'' ''a'', Spaced 2 ''-p'' ''2021'', Joined 5 ''-a'' CHR ''='' ''move'']"
  have chop: "chop_ok whole" by (auto simp: chop_ok_def whole_def)
  have fit: "op_small ?p" "request_fits (fbs (sample_env True)) (op_request ?p)"
    "response_fits (fbs (sample_env True)) (op_response ?p (vals empty_store))" "cli_args_ok ?p"
    unfolding sample_env_simps by code_simp+
  have ask: "asks_for ?xs ?p" by code_simp
  have "cli_spec ?p (vals empty_store) = (3, ''Error moving key a to b'' @ nl)" by code_simp
  moreover from cli_call_tells_outcome [OF node.server_axioms node_inv node_clock_ok chop fit ask, of "\<lambda>_. None" "''./cli''"] obtain srv' where
    "cli_program (\<lambda>_. None) (\<lambda>_ _ _ w. Some (Connection_new, w)) (tcp_remote (sample_env True) whole) ''./cli''
       (concat (map written ?xs)) sample_server = Some (cli_spec ?p (vals empty_store), srv')" by blast
  ultimately show ?thesis by simp
qed


section \<open>The service as it is called\<close>

abbreviation (input) service_vars :: "Configuration \<Rightarrow> ServiceVars" where
  "service_vars c \<equiv> \<lparr>sv_file = [], sv_peers = [], sv_help = False, sv_conf = c\<rparr>"

lemma loadConfig_assigned:
  assumes "list_all (setting_ok service_options) xs"
    and "assign_all service_options {} xs (service_vars (Configuration_new (cfg_env S) (cfg_hardware S))) = (Inr (), v)"
    and "\<not> sv_help v"
  shows "loadConfig S exe (concat (map written xs)) Holder_init = map_option
    (\<lambda>h. Inr (if sv_file v = [] then [] else ''Loading configuration file '' @ sv_file v @ nl, h))
    (loadConfig_tail (json_parse S) (json_files S) (cast_int S) (cfg_env S) (cfg_hardware S) (sv_file v) (sv_peers v) 0
      \<lparr>cfg = Some 0, objects = [0 \<mapsto> sv_conf v], next_address = 1\<rparr>)"
proof -
  have "read_options service_options sv_help exe (concat (map written xs))
      (service_vars (Configuration_new (cfg_env S) (cfg_hardware S))) = Some (Inr v)"
    using read_options_assigned [OF options_are_ok(1) assms(1,2) rows_are_ok(1), of exe sv_help] assms(3) by auto
  then show ?thesis
    by (simp add: loadConfig_def Configuration_instance_def Holder_init_def holder_assign_def Let_def map_conv_bind_option comp_def
        fun_upd_idem)
qed

lemma split_empty [simp]: "split [] ds = []"
  by (simp add: Split.split_def split_loop.simps)



definition sample_source :: ConfigSource where
  "sample_source = \<lparr>json_parse = (\<lambda>_. None), json_files = (\<lambda>_. None), cast_int = (\<lambda>s. Some (int (digits_val s))), cfg_env = Map.empty,
     cfg_hardware = 2\<rparr>"

definition sample_settings :: "setting list" where
  "sample_settings = [Joined 8 ''--threads'' CHR ''='' ''1'', Flag 7 ''-s'', Spaced 2 ''-z'' ''b:2120,c'', Spaced 4 ''-p'' ''0'']"


text \<open>With a configuration file and no peers, the other options have no effect.\<close>

lemma file_overrides_options:
  assumes "list_all (setting_ok service_options) xs"
    and "assign_all service_options {} xs (service_vars (Configuration_new (cfg_env S) (cfg_hardware S))) = (Inr (), v)"
    and "\<not> sv_help v" and "sv_file v = file" and "file \<noteq> []" and "sv_peers v = []"
    and "json_files S file = Some s" and "json_parse S s = Some j" and "as_object j = Some obj"
    and "json_configuration obj (Configuration_new (cfg_env S) (cfg_hardware S)) = Some c"
  shows "service_main S exe (concat (map written xs)) Holder_init =
    Some (Inr (''Loading configuration file '' @ file @ nl @ start_text c, main_log_level c, main_tasks c))"
proof -
  have "loadConfig S exe (concat (map written xs)) Holder_init =
      Some (Inr (''Loading configuration file '' @ file @ nl, \<lparr>cfg = Some 1, objects = [1 \<mapsto> c], next_address = 2\<rparr>))"
    using loadConfig_assigned [OF assms(1-3), of exe] assms(4-10)
    by (simp add: loadConfig_tail_def loadConfig_peers_def loadFromFile_def holder_assign_def Let_def fun_upd_idem)
  then show ?thesis by (simp add: service_main_def Configuration_instance_def)
qed

text \<open>A negative number of threads is taken modulo the width of the type.\<close>

lemma negative_threads: "convertInto_uint32 ''-1'' = (Inr Matched, - 1)" "unat (- 1 :: u32) = 4294967295"
  by code_simp+

text \<open>A value that starts with a hyphen is not taken as the argument of the option in front of it.\<close>

lemma hyphen_is_option:
  "cli_program files connect R ''cli'' [''-a'', ''set'', ''-k'', ''t'', ''-v'', ''-5''] w =
   Some ((1, ''Error in command line: Expected argument following -v'' @ nl), w)"
proof -
  have "read_options cli_options cv_help ''cli'' [''-a'', ''set'', ''-k'', ''t'', ''-v'', ''-5''] CliVars_init =
      Some (Inl (1, ''Error in command line: Expected argument following -v'' @ nl))" by code_simp
  moreover have "\<exists>usage. usage_text cli_options ''cli'' = Some usage"
    using writeToStream_complete [OF rows_are_ok(2), of "exe_filename ''cli''"] by (auto simp: usage_text_def)
  ultimately show ?thesis by (auto simp: cli_program_def)
qed


end
