(* ===== verification/Recovery.thy ===== *)
theory Recovery
  imports End_To_End
begin

text \<open>
  How the connections of the client come about and what becomes of them when the server goes away:
  \<open>init\<close>, \<open>create\<close> and the constructors of the plain and the secure connection
  (\<open>src/api/impl/connection.cpp\<close>), and the functions of \<open>src/api/api.cpp\<close> with the exceptions that
  leave them: the destructor of \<open>Proxy\<close> gives the connection back, and a factory that throws leaves
  \<open>acquire\<close> of \<open>src/common/pool/pool.hpp\<close> half way.
\<close>

section \<open>Settings and connections\<close>

record ApiSettings =
  api_server :: string
  api_port :: string
  api_ioc :: bool
  api_ssl :: bool

definition ApiSettings_new :: ApiSettings where
  "ApiSettings_new = \<lparr>api_server = [], api_port = [], api_ioc = False, api_ssl = False\<rparr>"

definition api_init :: "string \<Rightarrow> string \<Rightarrow> bool \<Rightarrow> ApiSettings \<Rightarrow> ApiSettings" where
  "api_init host' port' ssl' s =
     (if api_server s = []
      then s\<lparr>api_server := api_server s @ host', api_port := api_port s @ port', api_ioc := True, api_ssl := ssl'\<rparr>
      else s)"

text \<open>The network is a parameter: resolving, connecting, the handshake, and the files of the certificates.\<close>

record 'w Network =
  net_resolve :: "string \<Rightarrow> string \<Rightarrow> 'w \<Rightarrow> bool \<times> 'w"
  net_connect :: "'w \<Rightarrow> bool \<times> 'w"
  net_handshake :: "'w \<Rightarrow> bool \<times> 'w"
  net_certificate :: "string \<Rightarrow> bool"

datatype VerifyMode = verify_none | verify_peer

record SecureConnection =
  plain :: BaseConnection
  secured :: bool
  verify_mode :: VerifyMode

datatype connection = PlainConnection BaseConnection | TlsConnection SecureConnection

definition createContext :: "'w Network \<Rightarrow> VerifyMode option" where
  "createContext N =
     (if list_all (net_certificate N) [''/opt/spt/certs/ca.crt'', ''/opt/spt/certs/client.crt'', ''/opt/spt/certs/client.key'']
      then Some verify_peer else None)"

text \<open>\<open>connect( s, resolver.resolve( server, port ) )\<close>, where both calls throw on errors.\<close>

definition resolve_connect :: "'w Network \<Rightarrow> ApiSettings \<Rightarrow> 'w \<Rightarrow> 'w option" where
  "resolve_connect N s w =
     (if \<not> api_ioc s then None
      else let (found, w) = net_resolve N (api_server s) (api_port s) w in
        if \<not> found then None
        else let (up, w) = net_connect N w in if up then Some w else None)"

definition Connection_open :: "'w Network \<Rightarrow> ApiSettings \<Rightarrow> 'w \<Rightarrow> (BaseConnection \<times> 'w) option" where
  "Connection_open N s w = map_option (Pair Connection_new) (resolve_connect N s w)"

definition SSLConnection_open :: "'w Network \<Rightarrow> ApiSettings \<Rightarrow> 'w \<Rightarrow> (SecureConnection \<times> 'w) option" where
  "SSLConnection_open N s w = do {
     mode \<leftarrow> createContext N;
     w \<leftarrow> resolve_connect N s w;
     let (good, w) = net_handshake N w;
     Some (\<lparr>plain = Connection_new\<lparr>status := good\<rparr>, secured = good, verify_mode = verify_none\<rparr>, w) }"

definition create :: "'w Network \<Rightarrow> ApiSettings \<Rightarrow> 'w \<Rightarrow> (connection \<times> 'w) option" where
  "create N s w =
     (if api_ssl s then map_option (map_prod TlsConnection id) (SSLConnection_open N s w)
      else map_option (map_prod PlainConnection id) (Connection_open N s w))"

text \<open>\<open>socket\<close> of the secure connection: resolving throws, connecting does not.\<close>

definition SSLConnection_socket :: "'w Network \<Rightarrow> ApiSettings \<Rightarrow> SecureConnection \<Rightarrow> 'w \<Rightarrow> (SecureConnection \<times> 'w) option" where
  "SSLConnection_socket N s c w =
     (if opened (plain c) then Some (c, w)
      else let (found, w) = net_resolve N (api_server s) (api_port s) w in
        if \<not> found then None
        else let (up, w) = net_connect N w in
          Some (if up then c\<lparr>plain := (plain c)\<lparr>opened := True, arriving := []\<rparr>, secured := False\<rparr>
                else c\<lparr>plain := (plain c)\<lparr>status := False\<rparr>\<rparr>, w))"

section \<open>A call and its exceptions\<close>

text \<open>The connection as an exception of \<open>writeImpl\<close> leaves it.\<close>

definition writeImpl_unwound :: "'w Remote \<Rightarrow> Request \<Rightarrow> BaseConnection \<Rightarrow> 'w \<Rightarrow> BaseConnection \<times> 'w" where
  "writeImpl_unwound R request c w =
     (let (c, w) = reopen_socket R c w; payload = FinishRequest (client_fbs R) request;
          n = (word_of_nat (length payload) :: u32);
          (segs, w) = exchange R (buffer c @ le32 n @ take (unat n) payload) w;
          c = c\<lparr>buffer := []\<rparr> in
      case read_some 256 (arriving c @ segs) of
        None \<Rightarrow> (c\<lparr>arriving := []\<rparr>, w)
      | Some (data, segs) \<Rightarrow>
          if warn_logged R \<and> 2 ^ 31 \<le> unat (of_le32 data) then (c\<lparr>buffer := data, arriving := segs\<rparr>, w)
          else (c\<lparr>buffer := data @ concat segs, arriving := []\<rparr>, w))"

text \<open>
  The pool has no connection left; an exception leaves the function; the connection gave a response
  or null.
\<close>

datatype outcome = Exhausted | Threw | Answered "ResultVariant option"

text \<open>\<open>acquire\<close> when the factory throws: the counters have been increased.\<close>

definition acquire_unwound :: "'c Pool \<Rightarrow> 'c Pool" where
  "acquire_unwound p = p\<lparr>total := total p + 1, created := created p + 1\<rparr>"

definition api_call :: "'w Api \<Rightarrow> Request \<Rightarrow> 'w Client \<Rightarrow> outcome \<times> 'w Client" where
  "api_call A request c =
     (let p = client_pool c in
      if create_connection A = None \<and> acquire_check p \<and> available p = []
      then (Threw, c\<lparr>client_pool := acquire_unwound p, ticks := Suc (ticks c)\<rparr>)
      else let (popt, p) = acquire (create_connection A) (api_clock A (ticks c)) p in
        case popt of
          None \<Rightarrow> (Exhausted, c\<lparr>client_pool := p, ticks := Suc (ticks c)\<rparr>)
        | Some w \<Rightarrow>
            (case con w of
               None \<Rightarrow> (Threw, c\<lparr>client_pool := p, ticks := Suc (ticks c)\<rparr>)
             | Some k \<Rightarrow>
                 let (x, k, wd) = (case writeImpl (remote A) request k (world c) of
                         None \<Rightarrow> (Threw, writeImpl_unwound (remote A) request k (world c))
                       | Some (r, k, wd) \<Rightarrow> (Answered r, k, wd))
                 in (x, c\<lparr>client_pool := Proxy_destroy Connection_valid (api_clock A (Suc (ticks c))) (w\<lparr>con := Some k\<rparr>) p,
                          world := wd, ticks := ticks c + 2\<rparr>)))"

text \<open>Calls of a program and rounds of the thread that removes idle connections, in the order in which they happen.\<close>

datatype client_event = Call Request | Monitor int

fun client_events :: "'w Api \<Rightarrow> client_event list \<Rightarrow> 'w Client \<Rightarrow> outcome list \<times> 'w Client" where
  "client_events A [] c = ([], c)"
| "client_events A (Call request # es) c =
     (let (x, c) = api_call A request c; (xs, c) = client_events A es c in (x # xs, c))"
| "client_events A (Monitor t # es) c =
     client_events A es (c\<lparr>client_pool := removeExpired t (client_pool c)\<rparr>)"

text \<open>Without exceptions it is the call of \<open>Client_Api\<close>.\<close>

lemma api_call_agrees:
  "with_connection A (\<lambda>R. writeImpl R request) otherwise result c =
     (case api_call A request c of
        (Exhausted, c') \<Rightarrow> Some (otherwise, c')
      | (Threw, c') \<Rightarrow> None
      | (Answered r, c') \<Rightarrow> map_option (\<lambda>x. (x, c')) (result r))"
  by (auto simp: with_connection_def api_call_def Let_def bind_eq_Some_conv map_option_case split: prod.splits option.splits bind_splits)

section \<open>The settings\<close>

text \<open>The settings of the first call of \<open>init\<close> stay, and a connection needs such a call.\<close>

lemma init_once: "h \<noteq> [] \<Longrightarrow> api_init h' p' b' (api_init h p b ApiSettings_new) = api_init h p b ApiSettings_new"
  by (simp add: api_init_def ApiSettings_new_def)

lemma create_needs_init: "create N ApiSettings_new w = None"
  by (simp add: create_def Connection_open_def resolve_connect_def ApiSettings_new_def)

text \<open>The constructor overrides the mode of the context: the certificate of the server is not verified.\<close>

lemma ssl_server_not_verified:
  "create N s w = Some (TlsConnection c, w') \<Longrightarrow> createContext N = Some verify_peer \<and> verify_mode c = verify_none"
  by (auto simp: create_def SSLConnection_open_def createContext_def bind_eq_Some_conv case_prod_beta split: if_splits)

text \<open>A secure connection that is opened again would be used without a handshake.\<close>

lemma reopened_is_not_secured:
  assumes "SSLConnection_socket N s c w = Some (c', w')" and "\<not> opened (plain c)" and "opened (plain c')"
  shows "\<not> secured c'"
  using assms by (auto simp: SSLConnection_socket_def Let_def split: prod.splits if_splits)

text \<open>But no operation closes the socket, so that no connection is ever opened again.\<close>

lemma writeImpl_opened:
  assumes "opened c"
  shows "writeImpl R request c w = Some (r, c', w') \<Longrightarrow> opened c'" "opened (fst (writeImpl_unwound R request c w))"
  using assms
  by (auto simp: writeImpl_def writeImpl_unwound_def reopen_socket_def Let_def bind_eq_Some_conv
      split: prod.splits option.splits if_splits)

section \<open>A server that cannot be reached\<close>

lemma removeExpired_simps [simp]:
  "total (removeExpired t p) = total p" "configuration (removeExpired t p) = configuration p"
  "pool_in_use (removeExpired t p) = pool_in_use p" "pool_limit (removeExpired t p) = pool_limit p"
  "available p = [] \<Longrightarrow> available (removeExpired t p) = []"
  by (simp_all add: removeExpired_def pool_in_use_def pool_limit_def)

lemma acquire_unwound_simps:
  "pool_in_use p < pool_limit p \<Longrightarrow> pool_in_use (acquire_unwound p) = Suc (pool_in_use p)"
  "pool_limit (acquire_unwound p) = pool_limit p" "available (acquire_unwound p) = available p"
  using unat_Suc_below [of "total p" "maxConnections (configuration p)"]
  by (simp_all add: acquire_unwound_def pool_in_use_def pool_limit_def)

lemma exhausted_call:
  assumes "pool_limit (client_pool c) \<le> pool_in_use (client_pool c)"
  shows "api_call A request c = (Exhausted, c\<lparr>ticks := Suc (ticks c)\<rparr>)"
  using assms acquire_full [of "client_pool c"] by (simp add: api_call_def acquire_check_iff Let_def)

text \<open>A client without a connection while none can be made.\<close>

definition unconnected :: "'w Client \<Rightarrow> bool" where
  "unconnected c \<longleftrightarrow> available (client_pool c) = [] \<and> pool_in_use (client_pool c) \<le> pool_limit (client_pool c)"

lemma unconnected_call:
  assumes "create_connection A = None" and "unconnected c"
  shows "\<exists>x c'. api_call A request c = (x, c') \<and> x \<in> {Threw, Exhausted} \<and> unconnected c' \<and> world c' = world c \<and>
    pool_limit (client_pool c') = pool_limit (client_pool c) \<and>
    pool_in_use (client_pool c') = min (pool_limit (client_pool c)) (Suc (pool_in_use (client_pool c)))"
proof (cases "pool_in_use (client_pool c) < pool_limit (client_pool c)")
  case True
  then show ?thesis using assms
    by (auto simp: api_call_def acquire_check_iff unconnected_def acquire_unwound_simps)
next
  case False
  then show ?thesis using assms exhausted_call [of c A request] by (auto simp: unconnected_def)
qed

lemma outage:
  assumes "create_connection A = None"
  shows "unconnected c \<Longrightarrow> client_events A es c = (xs, c') \<Longrightarrow>
    set xs \<subseteq> {Threw, Exhausted} \<and> unconnected c' \<and> world c' = world c \<and>
    pool_limit (client_pool c') = pool_limit (client_pool c) \<and>
    pool_in_use (client_pool c') = min (pool_limit (client_pool c)) (pool_in_use (client_pool c) + length xs)"
proof (induction es arbitrary: c xs)
  case (Cons e es)
  show ?case
  proof (cases e)
    case (Call request)
    from unconnected_call [OF assms Cons.prems(1), of request] obtain x c1 where
      one: "api_call A request c = (x, c1)" "x \<in> {Threw, Exhausted}" "unconnected c1" "world c1 = world c"
      "pool_limit (client_pool c1) = pool_limit (client_pool c)"
      "pool_in_use (client_pool c1) = min (pool_limit (client_pool c)) (Suc (pool_in_use (client_pool c)))" by blast
    then obtain ys where "client_events A es c1 = (ys, c')" "xs = x # ys"
      using Cons.prems(2) Call by (auto split: prod.splits)
    with Cons.IH [OF one(3)] one show ?thesis by auto
  next
    case (Monitor t)
    then show ?thesis
      using Cons.IH [of "c\<lparr>client_pool := removeExpired t (client_pool c)\<rparr>"] Cons.prems by (simp add: unconnected_def)
  qed
qed (simp add: unconnected_def)

lemma exhausted_events:
  "pool_limit (client_pool c) \<le> pool_in_use (client_pool c) \<Longrightarrow> client_events A es c = (xs, c') \<Longrightarrow>
   set xs \<subseteq> {Exhausted} \<and> world c' = world c"
proof (induction es arbitrary: c xs)
  case (Cons e es)
  show ?case
  proof (cases e)
    case (Call request)
    then obtain ys where "client_events A es (c\<lparr>ticks := Suc (ticks c)\<rparr>) = (ys, c')" "xs = Exhausted # ys"
      using Cons.prems exhausted_call [OF Cons.prems(1)] by (auto split: prod.splits)
    with Cons.IH [of "c\<lparr>ticks := Suc (ticks c)\<rparr>"] Cons.prems(1) show ?thesis by auto
  next
    case (Monitor t)
    then show ?thesis
      using Cons.IH [of "c\<lparr>client_pool := removeExpired t (client_pool c)\<rparr>"] Cons.prems by simp
  qed
qed simp


text \<open>A server that is down for the time of two calls, with a pool of two connections.\<close>

definition small_pool :: "BaseConnection Pool" where
  "small_pool = \<lparr>configuration = PoolConfiguration_default\<lparr>maxConnections := 2\<rparr>, available = [], total = 0, created = 1\<rparr>"

definition silent :: "unit Remote" where
  "silent = \<lparr>exchange = (\<lambda>_ w. ([], w)), connect_again = (\<lambda>w. (True, w)), client_fbs = unary_flatbuffers, warn_logged = True\<rparr>"

definition silent_api :: "BaseConnection option \<Rightarrow> unit Api" where
  "silent_api k = \<lparr>remote = silent, create_connection = k, api_clock = (\<lambda>n. int n * 1000000000)\<rparr>"

definition small_client :: "unit Client" where
  "small_client = \<lparr>client_pool = small_pool, world = (), ticks = 0\<rparr>"

definition get_a :: Request where
  "get_a = CreateRequest Get [key_item ''a'']"


section \<open>A connection whose other side has gone\<close>

text \<open>Every round of the monitor comes less than the idle time after the last call; \<open>last'\<close> is its time.\<close>

fun busy :: "'w Api \<Rightarrow> int \<Rightarrow> nat \<Rightarrow> int \<Rightarrow> client_event list \<Rightarrow> bool" where
  "busy A idle n last' [] = True"
| "busy A idle n last' (Call request # es) = busy A idle (n + 2) (api_clock A (Suc n)) es"
| "busy A idle n last' (Monitor t # es) = (to_seconds (t - last') < idle \<and> busy A idle n last' es)"

text \<open>The pool holds one connection, from which nothing can be read any more.\<close>

definition holds_lost :: "'w Client \<Rightarrow> int \<Rightarrow> bool" where
  "holds_lost c t \<longleftrightarrow> (\<exists>w k. available (client_pool c) = [w] \<and> con w = Some k \<and> wtime w = t \<and> Connection_valid k \<and> opened k \<and> arriving k = [])
     \<and> pool_in_use (client_pool c) < pool_limit (client_pool c) \<and> 0 < unat (maxPoolSize (configuration (client_pool c)))"

lemma lost_write:
  assumes "opened k" and "arriving k = []" and "Connection_valid k" and "\<And>b w. fst (exchange R b w) = []"
  shows "writeImpl R request k w = None"
    "\<exists>k' w'. writeImpl_unwound R request k w = (k', w') \<and> Connection_valid k' \<and> opened k' \<and> arriving k' = []"
proof -
  show "writeImpl R request k w = None" using assms
    by (simp add: writeImpl_def reopen_socket_def Let_def case_prod_beta)
  show "\<exists>k' w'. writeImpl_unwound R request k w = (k', w') \<and> Connection_valid k' \<and> opened k' \<and> arriving k' = []"
    using assms by (simp add: writeImpl_unwound_def reopen_socket_def Let_def case_prod_beta Connection_valid_def)
qed

lemma lost_call:
  assumes "holds_lost c t" and R: "\<And>b w. fst (exchange (remote A) b w) = []"
  shows "\<exists>c'. api_call A request c = (Threw, c') \<and> holds_lost c' (api_clock A (Suc (ticks c))) \<and> ticks c' = ticks c + 2 \<and>
    configuration (client_pool c') = configuration (client_pool c) \<and> created (client_pool c') = created (client_pool c)"
proof -
  obtain w k where p: "available (client_pool c) = [w]" "con w = Some k" "Connection_valid k" "opened k" "arriving k = []"
    and use: "pool_in_use (client_pool c) < pool_limit (client_pool c)" "0 < unat (maxPoolSize (configuration (client_pool c)))"
    using assms(1) by (auto simp: holds_lost_def)
  from lost_write(2) [OF p(4,5,3) R, of request "world c"] obtain k' w' where
    k': "writeImpl_unwound (remote A) request k (world c) = (k', w')" "Connection_valid k'" "opened k'" "arriving k' = []" by blast
  have chk: "acquire_check (client_pool c)" using use by (simp add: acquire_check_iff)
  have t: "total (client_pool c) + 1 - 1 = total (client_pool c)" by simp
  show ?thesis
    using p use k' chk lost_write(1) [OF p(4,5,3) R, of request "world c"]
    by (auto simp: api_call_def acquire_def acquire_locked_def Proxy_destroy_def release_def holds_lost_def
        pool_in_use_def pool_limit_def Let_def)
qed

lemma lost_events:
  assumes R: "\<And>b w. fst (exchange (remote A) b w) = []"
  shows "holds_lost c t \<Longrightarrow> busy A (maxIdleTime (configuration (client_pool c))) (ticks c) t es \<Longrightarrow> client_events A es c = (xs, c') \<Longrightarrow>
    set xs \<subseteq> {Threw} \<and> created (client_pool c') = created (client_pool c)"
proof (induction es arbitrary: c t xs)
  case (Cons e es)
  show ?case
  proof (cases e)
    case (Call request)
    from lost_call [OF Cons.prems(1) R, of request] obtain c1 where
      one: "api_call A request c = (Threw, c1)" "holds_lost c1 (api_clock A (Suc (ticks c)))" "ticks c1 = ticks c + 2"
      "configuration (client_pool c1) = configuration (client_pool c)" "created (client_pool c1) = created (client_pool c)" by blast
    then obtain ys where "client_events A es c1 = (ys, c')" "xs = Threw # ys"
      using Cons.prems(3) Call by (auto split: prod.splits)
    with Cons.IH [OF one(2)] one Cons.prems(2) Call show ?thesis by auto
  next
    case (Monitor u)
    then have "client_pool c = removeExpired u (client_pool c)"
      using Cons.prems(1,2) by (auto simp: holds_lost_def removeExpired_def Let_def)
    then have "c\<lparr>client_pool := removeExpired u (client_pool c)\<rparr> = c" by simp
    then show ?thesis using Cons.IH [OF Cons.prems(1), of xs] Cons.prems(2,3) Monitor by simp
  qed
qed simp

text \<open>
  C10: a lost connection is kept.  When the server has gone, as after a restart, a call on the
  connection that the pool holds throws; the connection is given back as valid, and its socket counts
  as open, so that it is neither dropped nor opened again.  As long as the program calls more often
  than the idle time of the pool, every call throws, and no new connection is made, although one could
  be.
\<close>

theorem lost_connection_is_kept:
  assumes "\<And>b w. fst (exchange (remote A) b w) = []" and "create_connection A = Some fresh_connection"
    and "holds_lost c t" and "busy A (maxIdleTime (configuration (client_pool c))) (ticks c) t es"
    and "client_events A es c = (xs, c')"
  shows "set xs \<subseteq> {Threw} \<and> created (client_pool c') = created (client_pool c)"
  by (rule lost_events [OF assms(1,3-5)])

theorem lost_connection_is_kept_witness:
  "set (fst (client_events (silent_api (Some Connection_new)) [Call get_a, Monitor 299000000000, Call get_a, Call get_a]
     \<lparr>client_pool = Pool_new (Some Connection_new) PoolConfiguration_default (\<lambda>_. 0), world = (), ticks = 0\<rparr>)) \<subseteq> {Threw}"
proof -
  let ?c = "\<lparr>client_pool = Pool_new (Some Connection_new) PoolConfiguration_default (\<lambda>_. 0), world = (), ticks = 0\<rparr> :: unit Client"
    and ?es = "[Call get_a, Monitor 299000000000, Call get_a, Call get_a]"
  obtain xs c' where run: "client_events (silent_api (Some Connection_new)) ?es ?c = (xs, c')" by fastforce
  have "fst (exchange (remote (silent_api (Some Connection_new))) b w) = []" for b w by (simp add: silent_api_def silent_def)
  moreover have "create_connection (silent_api (Some Connection_new)) = Some Connection_new" by (simp add: silent_api_def)
  moreover have "holds_lost ?c 0"
    by (simp add: holds_lost_def Pool_new_def PoolConfiguration_default_def ConnectionWrapper_new_def Connection_new_def
        Connection_valid_def pool_in_use_def pool_limit_def)
  moreover have "busy (silent_api (Some Connection_new)) (maxIdleTime (configuration (client_pool ?c))) (ticks ?c) 0 ?es"
    by (simp add: silent_api_def Pool_new_def PoolConfiguration_default_def to_seconds_def)
  ultimately have "set xs \<subseteq> {Threw}" using lost_connection_is_kept [OF _ _ _ _ run] by blast
  with run show ?thesis by simp
qed

text \<open>Only a pause as long as the idle time makes the next call connect again.\<close>

lemma idle_connection_is_replaced:
  assumes "available (client_pool c) = [w]" and "maxIdleTime (configuration (client_pool c)) \<le> to_seconds (t - wtime w)"
    and "create_connection A = Some k" and "pool_in_use (client_pool c) < pool_limit (client_pool c)"
    and "writeImpl (remote A) request k (world c) = Some (r, k', w')"
  shows "fst (client_events A [Monitor t, Call request] c) = [Answered r]"
  using assms
  by (simp add: api_call_def removeExpired_def Let_def acquire_def acquire_check_iff acquire_locked_def pool_in_use_def pool_limit_def
      ConnectionWrapper_new_def)


end
