(* ===== verification/Signal_Threads.thy ===== *)
theory Signal_Threads
  imports Observer
begin

text \<open>
  The signal under threads: \<open>Spin_Mutex\<close> and the policy \<open>TS_Policy_Safe\<close> of
  \<open>src/service/signal/nano/nano_mutex.hpp\<close>, under which \<open>insert\<close>, \<open>remove\<close>, \<open>for_each\<close> and the
  destructor of \<open>nano_observer.hpp\<close> run.  A step is one access to shared state: the load and the
  exchange of \<open>lock\<close>, the store of \<open>unlock\<close>, reading the vector of connections, writing it, taking
  a copy, asking whether the observer of a slot is still there, calling a delegate.  The memory order
  of the atomic operations is taken as sequentially consistent.

  The delegates are the listeners of the notifier (\<open>src/service/tcp/notifier.cpp\<close>): the constructor
  connects the object, the destructor disconnects it, after which its memory is released.  They do not
  derive from \<open>Observer\<close>, so that the observer of their slots is the signal itself.
\<close>

section \<open>Threads and their steps\<close>

datatype signal_op = Insert Delegate_Key | Remove Delegate_Key | Fire

text \<open>What a thread does after \<open>unlock\<close>.\<close>

datatype after_unlock = Return | Release_memory Delegate_Key | Call_slots "Connection list"

text \<open>
  Where a thread is: outside; in the loop that loads; before the exchange; with the lock; with what it
  has read of the vector; before \<open>unlock\<close>; before the memory is released; in the loop over the copy;
  in a delegate, which holds the observer of its slot.
\<close>

datatype spc =
    Idle
  | Spinning signal_op
  | Trying signal_op
  | Locked signal_op
  | Writing signal_op "Connection list"
  | Unlocking after_unlock
  | Releasing Delegate_Key
  | Firing "Connection list"
  | In_call Delegate_Key "Connection list"

text \<open>
  \<open>tracker\<close> is the shared pointer of the policy; \<open>gone\<close> says that the destructor of the signal has
  passed \<open>before_disconnect_all\<close>.  \<open>history\<close> are the changes in the order in which they were made, and
  \<open>called_dead\<close> says that a delegate was called whose object had been released.
\<close>

record signal_system =
  locked :: bool
  connections :: "Connection list"
  living :: "Delegate_Key list"
  tracker :: bool
  gone :: bool
  history :: "change list"
  called_dead :: bool
  pcs :: "spc list"

definition signal_init :: "nat \<Rightarrow> signal_system" where
  "signal_init n = \<lparr>locked = False, connections = [], living = [], tracker = True, gone = False, history = [], called_dead = False,
     pcs = replicate n Idle\<rparr>"

fun in_delegate :: "spc \<Rightarrow> bool" where
  "in_delegate (In_call key cs) = True"
| "in_delegate _ = False"

text \<open>\<open>observer.lock()\<close> succeeds as long as the policy or a delegate that is running holds the pointer.\<close>

definition observed :: "signal_system \<Rightarrow> bool" where
  "observed s \<longleftrightarrow> tracker s \<or> list_ex in_delegate (pcs s)"

fun op_change :: "signal_op \<Rightarrow> change list" where
  "op_change (Insert key) = [Connect key 0]"
| "op_change (Remove key) = [Disconnect key]"
| "op_change Fire = []"

fun op_after :: "signal_op \<Rightarrow> after_unlock" where
  "op_after (Insert key) = Return"
| "op_after (Remove key) = Release_memory key"
| "op_after Fire = Return"

fun after_pc :: "after_unlock \<Rightarrow> spc" where
  "after_pc Return = Idle"
| "after_pc (Release_memory key) = Releasing key"
| "after_pc (Call_slots cs) = Firing cs"

definition begin_op :: "signal_op \<Rightarrow> signal_system \<Rightarrow> signal_system" where
  "begin_op op s = (case op of Insert key \<Rightarrow> s\<lparr>living := key # living s\<rparr> | _ \<Rightarrow> s)"

text \<open>The next step of a thread; an operation is given when the thread is outside.\<close>

fun thread_step :: "signal_op option \<Rightarrow> spc \<Rightarrow> signal_system \<Rightarrow> (spc \<times> signal_system) option" where
  "thread_step op Idle s = map_option (\<lambda>op. (Spinning op, begin_op op s)) op"
| "thread_step _ (Spinning op) s = Some (if locked s then Spinning op else Trying op, s)"
| "thread_step _ (Trying op) s = Some (if locked s then Spinning op else Locked op, s\<lparr>locked := True\<rparr>)"
| "thread_step _ (Locked op) s =
     Some (if op = Fire then Unlocking (Call_slots (connections s)) else Writing op (connections s), s)"
| "thread_step _ (Writing op cs) s =
     Some (Unlocking (op_after op), s\<lparr>connections := fold change_connections (op_change op) cs, history := history s @ op_change op\<rparr>)"
| "thread_step _ (Unlocking a) s = Some (after_pc a, s\<lparr>locked := False\<rparr>)"
| "thread_step _ (Releasing key) s = Some (Idle, s\<lparr>living := remove1 key (living s)\<rparr>)"
| "thread_step _ (Firing []) s = Some (Idle, s)"
| "thread_step _ (Firing (c # cs)) s =
     Some (if observed s then (In_call (delegate c) cs, s\<lparr>called_dead := (called_dead s \<or> delegate c \<notin> set (living s))\<rparr>) else (Firing cs, s))"
| "thread_step _ (In_call key cs) s = Some (Firing cs, s)"

definition run_thread :: "nat \<Rightarrow> signal_op option \<Rightarrow> signal_system \<Rightarrow> signal_system option" where
  "run_thread i op s =
     (if i < length (pcs s) then map_option (\<lambda>(pc, s). s\<lparr>pcs := (pcs s)[i := pc]\<rparr>) (thread_step op (pcs s ! i) s) else None)"

text \<open>
  The destructor: \<open>before_disconnect_all\<close> resets the tracker and waits until nobody holds the observer.
\<close>

definition reset_tracker :: "signal_system \<Rightarrow> signal_system" where
  "reset_tracker s = s\<lparr>tracker := False\<rparr>"

definition before_disconnect_all_returns :: "signal_system \<Rightarrow> bool" where
  "before_disconnect_all_returns s \<longleftrightarrow> \<not> observed s"

inductive signal_step :: "signal_system \<Rightarrow> signal_system \<Rightarrow> bool" where
  step_thread: "run_thread i op s = Some s' \<Longrightarrow> signal_step s s'"
| step_reset: "signal_step s (reset_tracker s)"
| step_gone: "before_disconnect_all_returns s \<Longrightarrow> signal_step s (s\<lparr>gone := True\<rparr>)"

inductive signal_reachable :: "nat \<Rightarrow> signal_system \<Rightarrow> bool" for n where
  signal_start: "signal_reachable n (signal_init n)"
| signal_more: "signal_reachable n s \<Longrightarrow> signal_step s s' \<Longrightarrow> signal_reachable n s'"

inductive_cases signal_stepE: "signal_step s s'"

section \<open>Mutual exclusion\<close>

fun in_critical :: "spc \<Rightarrow> bool" where
  "in_critical (Locked op) = True"
| "in_critical (Writing op cs) = True"
| "in_critical (Unlocking a) = True"
| "in_critical _ = False"

fun read_of :: "spc \<Rightarrow> Connection list option" where
  "read_of (Writing op cs) = Some cs"
| "read_of _ = None"

text \<open>
  The lock is taken exactly when one thread is in its critical section; what a thread has read of the
  vector is still what it holds; and the vector is the result of the changes in their order.
\<close>

definition signal_inv :: "signal_system \<Rightarrow> bool" where
  "signal_inv s \<longleftrightarrow> length (filter in_critical (pcs s)) = (if locked s then 1 else 0) \<and>
     (\<forall>pc \<in> set (pcs s). \<forall>cs. read_of pc = Some cs \<longrightarrow> cs = connections s) \<and>
     connections s = fold change_connections (history s) []"

lemma begin_op_simps [simp]:
  "locked (begin_op op s) = locked s" "connections (begin_op op s) = connections s" "history (begin_op op s) = history s"
  "pcs (begin_op op s) = pcs s" "tracker (begin_op op s) = tracker s" "gone (begin_op op s) = gone s"
  by (cases op; simp add: begin_op_def)+

lemma after_pc_simps [simp]: "\<not> in_critical (after_pc a)" "read_of (after_pc a) = None" "\<not> in_delegate (after_pc a)"
  by (cases a; simp)+

lemma pcs_unchanged: "thread_step op pc s = Some (pc', s') \<Longrightarrow> pcs s' = pcs s"
  by (cases "(op, pc, s)" rule: thread_step.cases) (auto split: if_splits)

lemma run_threadE:
  assumes "run_thread i op s = Some s'"
  obtains pc' s1 where "i < length (pcs s)" "thread_step op (pcs s ! i) s = Some (pc', s1)" "pcs s1 = pcs s"
    "s' = s1\<lparr>pcs := (pcs s)[i := pc']\<rparr>"
  using assms pcs_unchanged by (fastforce simp: run_thread_def split: if_splits)

lemma lock_follows_critical:
  assumes "thread_step op pc s = Some (pc', s1)" and "in_critical pc \<Longrightarrow> locked s"
  shows "(if locked s then 1 else 0) + (if in_critical pc' then 1 else 0) = (if in_critical pc then 1 else 0) + (if locked s1 then (1 :: nat) else 0)"
  using assms
  by (cases "(op, pc, s)" rule: thread_step.cases)
    (auto split: if_splits)

lemma changes_in_critical:
  assumes "thread_step op pc s = Some (pc', s1)" and "\<not> in_critical pc"
  shows "connections s1 = connections s \<and> history s1 = history s \<and> read_of pc' = None"
  using assms
  by (cases "(op, pc, s)" rule: thread_step.cases) (auto split: if_splits)

lemma changes_of_critical:
  assumes "thread_step op pc s = Some (pc', s1)" and "in_critical pc" and "\<And>cs. read_of pc = Some cs \<Longrightarrow> cs = connections s"
    and "connections s = fold change_connections (history s) []"
  shows "connections s1 = fold change_connections (history s1) [] \<and> (\<forall>cs. read_of pc' = Some cs \<longrightarrow> cs = connections s1)"
  using assms
  by (cases "(op, pc, s)" rule: thread_step.cases) (auto split: if_splits)

lemma read_of_critical: "read_of pc = Some cs \<Longrightarrow> in_critical pc"
  by (cases pc) auto

lemma thread_keeps_inv:
  assumes inv: "signal_inv s" and run: "run_thread i op s = Some s'"
  shows "signal_inv s'"
proof -
  from run obtain pc' s1 where r: "i < length (pcs s)" "thread_step op (pcs s ! i) s = Some (pc', s1)"
    "s' = s1\<lparr>pcs := (pcs s)[i := pc']\<rparr>" by (rule run_threadE)
  have one: "length (filter in_critical (pcs s)) = (if locked s then 1 else 0)"
    and rd: "\<And>pc cs. pc \<in> set (pcs s) \<Longrightarrow> read_of pc = Some cs \<Longrightarrow> cs = connections s"
    and hist: "connections s = fold change_connections (history s) []" using inv by (auto simp: signal_inv_def)
  have mem: "pcs s ! i \<in> set (pcs s)" using r(1) by simp
  then have lk: "in_critical (pcs s ! i) \<Longrightarrow> locked s" using one by (auto simp: filter_empty_conv split: if_splits)
  have count: "length (filter in_critical ((pcs s)[i := pc'])) = (if locked s1 then 1 else 0)"
    using length_filter_update [OF r(1), of in_critical pc'] lock_follows_critical [OF r(2) lk] one by (auto split: if_splits)
  show ?thesis
  proof (cases "in_critical (pcs s ! i)")
    case True
    note ch = changes_of_critical [OF r(2) True rd [OF mem] hist]
    have le: "length (filter in_critical (pcs s)) \<le> 1" using one by simp
    have "cs = connections s1" if "pc \<in> set ((pcs s)[i := pc'])" "read_of pc = Some cs" for pc cs
      using filter_one_others [OF le r(1) True that(1)] ch that(2) read_of_critical [OF that(2)] by auto
    then show ?thesis using count ch by (auto simp: signal_inv_def r(3))
  next
    case False
    note ch = changes_in_critical [OF r(2) False]
    have "cs = connections s1" if "pc \<in> set ((pcs s)[i := pc'])" "read_of pc = Some cs" for pc cs
      using set_update_subset_insert [of "pcs s" i pc'] that ch rd by fastforce
    then show ?thesis using count ch hist by (auto simp: signal_inv_def r(3))
  qed
qed

lemma reachable_inv: "signal_reachable n s \<Longrightarrow> signal_inv s"
proof (induction rule: signal_reachable.induct)
  case signal_start
  then show ?case by (simp add: signal_inv_def signal_init_def)
next
  case (signal_more s s')
  from signal_more(2) show ?case
  proof (cases rule: signal_step.cases)
    case (step_thread i op)
    then show ?thesis using thread_keeps_inv signal_more(3) by blast
  qed (use signal_more(3) in \<open>auto simp: signal_inv_def reset_tracker_def\<close>)
qed

section \<open>Schedules\<close>

text \<open>Threads that take their steps in a given order.\<close>

fun signal_run :: "(nat \<times> signal_op option) list \<Rightarrow> signal_system \<Rightarrow> signal_system option" where
  "signal_run [] s = Some s"
| "signal_run ((i, op) # xs) s = do { s \<leftarrow> run_thread i op s; signal_run xs s }"

lemma signal_run_append: "signal_run (xs @ ys) s = Option.bind (signal_run xs s) (signal_run ys)"
  by (induction xs s rule: signal_run.induct) (auto split: bind_splits)

lemma reachable_run: "signal_reachable n s \<Longrightarrow> signal_run xs s = Some s' \<Longrightarrow> signal_reachable n s'"
  by (induction xs s rule: signal_run.induct) (auto simp: bind_eq_Some_conv dest: signal_more [OF _ step_thread])

definition one_listener :: "(nat \<times> signal_op option) list" where
  "one_listener = (0, Some (Insert (1, 2))) # replicate 5 (0, None)"

definition two_changes :: "(nat \<times> signal_op option) list" where
  "two_changes = [(0, Some (Insert (5, 6))), (1, Some (Insert (1, 2))), (1, None), (0, None), (1, None), (0, None), (1, None), (1, None)]"

text \<open>
  C11: the signal is linearised by its lock.  In every state that threads reach that connect, disconnect
  and fire at the same time, at most one of them is in a critical section, and the vector of connections,
  although it is read and written in separate steps, is sorted and holds exactly the connections made and
  not disconnected since, in the order in which the changes were made.
\<close>

theorem signal_is_linearised:
  assumes "signal_reachable n s"
  shows "length (filter in_critical (pcs s)) \<le> 1 \<and> sorted_connections (connections s) \<and>
    mset (connections s) = fold change_bag (history s) {#}"
  using reachable_inv [OF assms] changes_refine [of "[]" "history s"] by (simp add: signal_inv_def sorted_connections_def)

theorem signal_is_linearised_witness:
  "\<exists>s. signal_run two_changes (signal_init 2) = Some s \<and> filter in_critical (pcs s) = [Unlocking Return] \<and>
     sorted_connections (connections s)"
proof -
  let ?s = "\<lparr>locked = True, connections = [\<lparr>delegate = (1, 2), observer = 0\<rparr>], living = [(1, 2), (5, 6)], tracker = True, gone = False,
    history = [Connect (1, 2) 0], called_dead = False, pcs = [Spinning (Insert (5, 6)), Unlocking Return]\<rparr>"
  have run: "signal_run two_changes (signal_init 2) = Some ?s" by code_simp
  from signal_is_linearised [OF reachable_run [OF signal_start run]] run show ?thesis by simp
qed

text \<open>The lock is always given back: its holder needs at most three steps, and none of them waits.\<close>

lemma holder_releases:
  assumes "signal_reachable n s" and "locked s"
  shows "\<exists>i k s'. k \<le> 3 \<and> signal_run (replicate k (i, None)) s = Some s' \<and> \<not> locked s'"
proof -
  from reachable_inv [OF assms(1)] assms(2) have "filter in_critical (pcs s) \<noteq> []" by (auto simp: signal_inv_def)
  then obtain i where i: "i < length (pcs s)" "in_critical (pcs s ! i)" by (auto simp: filter_empty_conv in_set_conv_nth)
  have unl: "\<exists>s''. run_thread i None s' = Some s'' \<and> \<not> locked s''" if "i < length (pcs s')" "pcs s' ! i = Unlocking a" for s' a
    using that by (simp add: run_thread_def)
  have wr: "\<exists>s''. signal_run [(i, None), (i, None)] s' = Some s'' \<and> \<not> locked s''" if "i < length (pcs s')" "pcs s' ! i = Writing op cs" for s' op cs
    using that by (simp add: run_thread_def)
  show ?thesis
  proof (cases "pcs s ! i")
    case (Locked op)
    then have "\<exists>s'. signal_run (replicate (if op = Fire then 2 else 3) (i, None)) s = Some s' \<and> \<not> locked s'"
      using i(1) by (simp add: run_thread_def numeral_eq_Suc)
    then show ?thesis by (intro exI [of _ i] exI [of _ "if op = Fire then 2 else 3"]) simp
  next
    case (Writing op cs)
    then have "\<exists>s'. signal_run (replicate 2 (i, None)) s = Some s' \<and> \<not> locked s'" using wr [OF i(1)] by (simp add: numeral_eq_Suc)
    then show ?thesis by (intro exI [of _ i] exI [of _ 2]) simp
  next
    case (Unlocking a)
    then have "\<exists>s'. signal_run (replicate 1 (i, None)) s = Some s' \<and> \<not> locked s'" using unl [OF i(1)] by auto
    then show ?thesis by (intro exI [of _ i] exI [of _ 1]) simp
  qed (use i(2) in simp_all)
qed

section \<open>A listener that is destroyed while a change is emitted\<close>

text \<open>
  One thread emits, another destroys the listener of a connection that has ended, between the copy and
  the call.
\<close>

definition destroy_during_emit :: "Delegate_Key \<Rightarrow> (nat \<times> signal_op option) list" where
  "destroy_during_emit key =
     (0, Some (Insert key)) # replicate 5 (0, None) @ (0, Some Fire) # replicate 4 (0, None) @
     (1, Some (Remove key)) # replicate 6 (1, None) @ [(0, None)]"

text \<open>
  C12: emitting a change can call a destroyed listener.  \<open>fire\<close> releases the lock after it has copied the
  connections, and the observer of a listener is the signal itself, so that nothing keeps the listener
  alive: for every listener there is a schedule of two threads, one emitting and one destroying the
  listener, in which the listener is disconnected and released before it is called.
\<close>

theorem emit_calls_destroyed_listener:
  "\<exists>s. signal_run (destroy_during_emit key) (signal_init 2) = Some s \<and> signal_reachable 2 s \<and>
     connections s = [] \<and> living s = [] \<and> pcs s ! 0 = In_call key [] \<and> called_dead s"
proof -
  have e: "Observer_insert key 0 [] = [\<lparr>delegate = key, observer = 0\<rparr>]" by (simp add: Observer_insert_def upper_bound_def)
  have "Observer_remove key [\<lparr>delegate = key, observer = 0\<rparr>] = []"
    by (simp add: Observer_remove_def equal_range_def lower_bound_def upper_bound_def Z_Order_def)
  with e have "\<exists>s. signal_run (destroy_during_emit key) (signal_init 2) = Some s \<and>
      connections s = [] \<and> living s = [] \<and> pcs s ! 0 = In_call key [] \<and> called_dead s"
    by (simp add: destroy_during_emit_def numeral_eq_Suc run_thread_def signal_init_def begin_op_def observed_def)
  with reachable_run [OF signal_start] show ?thesis by blast
qed

section \<open>The destructor of a signal\<close>

lemma thread_step_observed:
  assumes "thread_step op pc s = Some (pc', s1)"
  shows "gone s1 = gone s \<and> tracker s1 = tracker s \<and> (in_delegate pc' \<longrightarrow> observed s)"
  using assms by (cases "(op, pc, s)" rule: thread_step.cases) (auto split: if_splits)

lemma gone_step:
  assumes "gone s \<longrightarrow> \<not> observed s" and "signal_step s s'"
  shows "gone s' \<longrightarrow> \<not> observed s'"
  using assms(2)
proof (cases rule: signal_step.cases)
  case (step_thread i op)
  then obtain pc' s1 where r: "i < length (pcs s)" "thread_step op (pcs s ! i) s = Some (pc', s1)" "pcs s1 = pcs s"
    "s' = s1\<lparr>pcs := (pcs s)[i := pc']\<rparr>" by (metis run_threadE)
  from thread_step_observed [OF r(2)] show ?thesis using assms(1) set_update_subset_insert [of "pcs s" i pc'] r(3,4)
    by (fastforce simp: observed_def list_ex_iff)
qed (use assms(1) in \<open>auto simp: reset_tracker_def observed_def before_disconnect_all_returns_def\<close>)

text \<open>Once the destructor has passed its wait, no delegate is running and none will be called.\<close>

lemma destructor_waits: "signal_reachable n s \<Longrightarrow> gone s \<Longrightarrow> \<not> list_ex in_delegate (pcs s)"
proof -
  have "signal_reachable n s \<Longrightarrow> gone s \<longrightarrow> \<not> observed s"
    by (induction rule: signal_reachable.induct) (simp add: signal_init_def, rule gone_step)
  then show "signal_reachable n s \<Longrightarrow> gone s \<Longrightarrow> \<not> list_ex in_delegate (pcs s)" by (auto simp: observed_def)
qed


end
