(* ===== verification/Spec2Isabelle.thy ===== *)
theory Spec2Isabelle
  imports Expiry Split Log_Lifetime Program_Options Recovery Signal_Threads
begin

text \<open>
  A verification development for config-db, a key/value store for configuration data (sources
  under \<open>src/src\<close>).

  \<^bold>\<open>The program.\<close>  A server process keeps keys and encrypted values in RocksDB
  (\<open>lib/db/storage.cpp\<close>), with a tree of the keys, expirations and a cache of values, and serves
  them over TCP (\<open>service/tcp/server.cpp\<close>) and HTTP (\<open>service/http/server.cpp\<close>).  A change is
  emitted through a signal (\<open>service/signal\<close>) to the notifier (\<open>service/tcp/notifier.cpp\<close>), which
  writes it to the connected peers; a peer reads it (\<open>service/tcp/listener.cpp\<close>) and applies it to
  its own storage.  Two threads delete expired keys and make backups (\<open>service/clearexpired.cpp\<close>,
  \<open>service/backup.cpp\<close>).  Clients use a library (\<open>api/api.cpp\<close>, \<open>api/impl/connection.*\<close>) that
  talks to the TCP service over a pool of connections (\<open>common/pool/pool.hpp\<close>).

  \<^bold>\<open>Conventions.\<close>  Stateful code passes its state explicitly, as a record.  A call that does not
  return normally (an exception, or undefined behaviour such as following a null pointer) is
  \<^term>\<open>None\<close>; an error that the code reports is a value of the result.  Integers whose width
  matters are words; positions in strings are natural numbers with the 64-bit wrap-around written
  out (\<open>sz_add\<close>, \<open>sz_sub\<close>, \<open>npos\<close>); bytes and characters are \<^typ>\<open>char\<close>.  Every loop is a total
  function, by structural recursion or with a measure, or a partial function with a theorem that it
  returns (\<open>key_loop\<close>, \<open>drain\<close>, \<open>pop_all\<close>, \<open>column_rows\<close>); there is no fuel.  A clock is a function from
  the number of readings so far to nanoseconds.

  \<^bold>\<open>Libraries.\<close>  RocksDB, OpenSSL, flatbuffers, the JSON parser and serialiser, the concurrent queue
  and the network are parameters: records of functions (\<open>RocksDB\<close>, \<open>Evp\<close>, \<open>FlatBuffers\<close>,
  \<open>Platform\<close>, \<open>Remote\<close>, \<open>Socket\<close>), with what they document as the assumptions of locales
  (\<open>rocksdb\<close>, \<open>rocksdb_healthy\<close>, \<open>cipher\<close>, \<open>node_codec\<close>, \<open>flatbuffers\<close>, \<open>concurrent_queue\<close>), each
  interpreted on an executable instance.

  \<^bold>\<open>Theories.\<close>
  \<^item> \<open>Prelude\<close>: string views, decimal numbers, byte order.  \<open>Messages\<close>: the structures of
    \<open>request.hpp\<close> and the tables of the flatbuffers schemas.
  \<^item> \<open>Split\<close> (\<open>common/util/split.hpp\<close>) and \<open>Configuration\<close> (\<open>common/model/configuration.*\<close>, \<open>loadConfig\<close>
    of \<open>service/main.cpp\<close>): the tokens of a string, the environment, files and peers.
  \<^item> \<open>Pool\<close> (\<open>common/pool/pool.hpp\<close>): operations and interleavings of threads; the number of objects
    in use is exact in every reachable state, the limit can be exceeded, idle objects are removed
    exactly.  Its contract \<open>resource_pool\<close> is what the storage and the client rely on.
  \<^item> \<open>Value_Cache\<close> (\<open>lib/util/ExpirationCache.hpp\<close>) and \<open>Encrypter\<close> (\<open>lib/db/encrypter.*\<close>).
  \<^item> \<open>RocksDB\<close>: the database parameter with transactions.  \<open>Tree\<close>, \<open>Tree_Exact\<close>: the functions of
    \<open>storage.cpp\<close> that keep the children of every path, and that they keep exactly the names of the
    stored keys.
  \<^item> \<open>Database\<close>: every method of \<open>storage.cpp\<close>.  \<open>Atomicity\<close>: a failed update changes no table,
    whatever failed.  \<open>Store\<close>: the abstract contents.  \<open>Refinement\<close>: each method implements its
    abstract operation (locale \<open>database\<close>).  \<open>Storage\<close>: the promises to clients.  \<open>Expiry\<close>: expired
    keys and backups.
  \<^item> \<open>Wire\<close>: length prefixes, sockets, reading in pieces.  \<open>Flatbuffers\<close>: the codec parameter.
    \<open>Observer\<close>: the sorted vector of connections of the signal library.  \<open>Signal_Threads\<close>: the
    signal under threads that connect, disconnect and fire, with its spin lock; the lock linearises the
    changes, but a listener can be called after it was destroyed.  \<open>Notifier\<close>: the signal
    manager and the notifier.  \<open>TCP_Server\<close>, \<open>Peer_Listener\<close>, \<open>HTTP_Server\<close>: the services (locale
    \<open>server\<close>), and the replication of a change from one server to another.
  \<^item> \<open>Client_Connection\<close>, \<open>Client_Api\<close>: the client library.  \<open>End_To_End\<close>: client, connection, TCP
    service and storage together refine a map.  \<open>Shell\<close>: the interactive shell on top of them.
    \<open>Command_Line\<close>: the command line client and the program that seeds a database.  \<open>Recovery\<close>: how
    connections are made, the exceptions of a call, and what becomes of the pool when the server goes
    away.
  \<^item> \<open>Clara\<close>, \<open>Text_Flow\<close> (\<open>common/util/clara.hpp\<close>): the command line parser, that it makes the
    assignments that are written and ends on every command line, and the help, that it is complete and
    fits the console.  \<open>Program_Options\<close>: the options of the four programs (\<open>main.cpp\<close> of \<open>service\<close>,
    \<open>cli\<close>, \<open>shell\<close> and \<open>seed\<close>) and what a call of the programs does.
  \<^item> \<open>Service\<close>: the server process (\<open>service/main.cpp\<close>, the loops that accept connections, TLS as a
    parameter): connections and peers served side by side in any order refine clients of one map; a
    listener that fails does not come back.
  \<^item> \<open>Log_Line\<close>: the lines of the logger in memory.  \<open>Log_Queue\<close>, \<open>Log_Queue_Safe\<close>: the queue between
    the threads that log and the thread that writes, over all interleavings.  \<open>Logger\<close>: the buffer
    interface of the writing thread (locale \<open>buffer_base\<close>), interpreted for the queue and for the ring
    buffer, and the files.  \<open>Log_Lifetime\<close>: the logger from \<open>initialize\<close> to its destructor; every
    statement of a logged level reaches the file, thread by thread in order.

  \<^bold>\<open>Sockets.\<close>  What arrives at a socket is a list of segments; one read returns bytes of the first
  segment only.  The theorems about whole documents hold for all lists of segments that satisfy
  \<open>delivered\<close>; others show what happens for lists that do not.

  \<^bold>\<open>Not modelled.\<close>  The inside of TLS, resolving, connecting and accepting (their outcomes are arguments), the
  memory order of atomic operations (taken as sequentially consistent), the concurrent queue (a parameter),
  generated table accessors (the schemas are modelled, the codec is a parameter), and the bindings
  for other languages.  Threads are interleaved
  where they share state without a common lock (\<open>Pool\<close>, \<open>Log_Queue\<close>) or with the lock itself
  (\<open>Signal_Threads\<close>), and for
  the sessions of the server, by whole documents (\<open>Service\<close>); the methods of the
  storage are serialised by its mutex, except \<open>clearExpired\<close>, which is modelled as one step.
\<close>

end
